(* ===== verification/Kernel_Prelude.thy ===== *)
theory Kernel_Prelude
  imports Main "HOL-Library.Word" "HOL-Library.Multiset"
begin

text \<open>
  Shared vocabulary of the development: the machine integer types of the kernel
  (\<^verbatim>\<open>u8\<close> \<dots> \<^verbatim>\<open>u64\<close>), the error numbers the modelled functions return, the result type
  of fallible functions, and the generic lemmas on lists, options and words that more
  than one component uses.
\<close>

unbundle bit_operations_syntax

section \<open>Types\<close>

type_synonym u8 = "8 word"
type_synonym u16 = "16 word"
type_synonym u32 = "32 word"
type_synonym u64 = "64 word"

datatype errno =
    EPERM | ENOENT | EINTR | EIO | E2BIG | EAGAIN | ENOMEM | EACCES | EFAULT | EBUSY
  | EEXIST | EINVAL | EFBIG | ERANGE | EDEADLK | ENOLCK | EOVERFLOW | EIDRM | ETIME | EPROTO | ESRCH | ENXIO | EBADF | ENODEV | ENOSPC | EDOM | ENOSYS | EMSGSIZE | EOPNOTSUPP | ENODATA | EROFS

type_synonym 'a result = "errno + 'a"

section \<open>Proof collections\<close>

named_theorems kdefs \<open>definitions that component proofs unfold together\<close>
named_theorems kinv \<open>introduction rules for component invariants\<close>

section \<open>Lists\<close>

lemma take_drop_append_left:
  "off + n \<le> length xs \<Longrightarrow> take n (drop off (xs @ ys)) = take n (drop off xs)"
  by simp

lemma nth_update_and:
  "i < length xs \<Longrightarrow> xs[i := v] ! j = (if i = j then v else xs ! j)"
  by (simp add: nth_list_update)

section \<open>Words\<close>

lemma sint_eq_uint_small: "uint (w :: u32) < 2 ^ 31 \<Longrightarrow> sint w = uint w"
proof -
  assume "uint w < 2 ^ 31"
  moreover have "- (2 ^ 31) \<le> uint w"
    by (rule order_trans [of _ 0]) simp_all
  ultimately show ?thesis
    by (simp add: sint_uint signed_take_bit_int_eq_self)
qed

lemma sint_of_small_nat: "n < 2 ^ 31 \<Longrightarrow> sint (word_of_nat n :: u32) = int n"
  by (subst sint_eq_uint_small) (simp_all add: uint_nat unat_of_nat take_bit_nat_eq_self)

lemma sint_u32_bounds: "- (2 ^ 31) \<le> sint (w :: u32)" "sint (w :: u32) < 2 ^ 31"
  using sint_greater_eq [of w] sint_less [of w] by simp_all

lemma sint_u32_minus:
  fixes a b :: u32
  assumes "- (2 ^ 31) \<le> sint a - sint b" "sint a - sint b < 2 ^ 31"
  shows "sint (a - b) = sint a - sint b"
  using assms by (simp add: sint_word_ariths signed_take_bit_int_eq_self)

lemma sint_u32_plus:
  fixes a b :: u32
  assumes "- (2 ^ 31) \<le> sint a + sint b" "sint a + sint b < 2 ^ 31"
  shows "sint (a + b) = sint a + sint b"
  using assms by (simp add: sint_word_ariths signed_take_bit_int_eq_self)


text \<open>
  Signed 32-bit variables whose value is known to be a small natural number: the signed
  comparisons and the differences of the C code are then those of the naturals.
\<close>

lemma sint_of_nat_diff:
  "\<lbrakk>a < 2 ^ 31; b < 2 ^ 31\<rbrakk> \<Longrightarrow> sint (word_of_nat a - word_of_nat b :: u32) = int a - int b"
  by (subst sint_u32_minus) (simp_all add: sint_of_small_nat)

lemma signed_less_of_nat:
  "\<lbrakk>a < 2 ^ 31; b < 2 ^ 31\<rbrakk> \<Longrightarrow> (word_of_nat a :: u32) <s word_of_nat b \<longleftrightarrow> a < b"
  by (simp only: word_sless_alt sint_of_small_nat) simp

lemma signed_le_of_nat_diff:
  "\<lbrakk>a < 2 ^ 31; b < 2 ^ 31; c < 2 ^ 31\<rbrakk> \<Longrightarrow>
   (word_of_nat c :: u32) \<le>s word_of_nat a - word_of_nat b \<longleftrightarrow> b + c \<le> a"
  by (simp only: word_sle_eq sint_of_nat_diff sint_of_small_nat) linarith

lemma signed_less_of_nat_diff:
  "\<lbrakk>a < 2 ^ 31; b < 2 ^ 31; c < 2 ^ 31\<rbrakk> \<Longrightarrow>
   (word_of_nat a - word_of_nat b :: u32) <s word_of_nat c \<longleftrightarrow> a < b + c"
  by (simp only: word_sless_alt sint_of_nat_diff sint_of_small_nat) linarith

lemma signed_less_of_nat_diff':
  "\<lbrakk>a < 2 ^ 31; b < 2 ^ 31; c < 2 ^ 31\<rbrakk> \<Longrightarrow>
   (word_of_nat c :: u32) <s word_of_nat a - word_of_nat b \<longleftrightarrow> b + c < a"
  by (simp only: word_sless_alt sint_of_nat_diff sint_of_small_nat) linarith

lemma signed_pos_of_nat_diff:
  "\<lbrakk>a < 2 ^ 31; b < 2 ^ 31\<rbrakk> \<Longrightarrow> (0 :: u32) <s word_of_nat a - word_of_nat b \<longleftrightarrow> b < a"
  using signed_less_of_nat_diff' [of a b 0] by simp

lemma word_of_nat_sub: "b \<le> a \<Longrightarrow> word_of_nat a - word_of_nat b = (word_of_nat (a - b) :: u32)"
  by (simp add: of_nat_diff)

lemma word_of_nat_eq_0_small: "a < 2 ^ 32 \<Longrightarrow> (word_of_nat a :: u32) = 0 \<longleftrightarrow> a = 0"
  by (auto simp: word_of_nat_eq_0_iff dest: dvd_imp_le)

lemmas small_nat_simps =
  sint_of_small_nat sint_of_nat_diff signed_less_of_nat signed_le_of_nat_diff
  signed_less_of_nat_diff signed_less_of_nat_diff' signed_pos_of_nat_diff word_of_nat_sub


lemma and_not_mask_int: "x AND NOT (mask n) = x - x mod 2 ^ n" for x :: int
proof -
  have "x AND NOT (mask n) = push_bit n (drop_bit n x)"
    by (rule bit_eqI) (auto simp: bit_simps)
  then show ?thesis
    by (simp add: push_bit_eq_mult drop_bit_eq_div minus_mod_eq_div_mult)
qed

lemma unat_u32_less: "unat (w :: u32) < 2 ^ 32"
proof -
  have "unat w < 2 ^ LENGTH(32)" by (rule unsigned_less)
  then show ?thesis by simp
qed

lemma unat_ucast_u64: "unat (ucast (w :: u32) :: u64) = unat w"
  using unat_u32_less [of w] by (simp add: unsigned_ucast_eq take_bit_nat_eq_self)

lemma unat_nonneg_u32:
  assumes "0 \<le> sint (w :: u32)"
  shows "unat w < 2 ^ 31"
proof -
  have "uint w = sint w"
    using assms sint_u32_bounds(2) [of w] by (simp add: uint_sint take_bit_int_eq_self)
  then show ?thesis
    using sint_u32_bounds(2) [of w] assms by (simp add: unat_eq_nat_uint nat_less_iff)
qed

section \<open>Transition systems\<close>

inductive reachable :: "('s \<Rightarrow> bool) \<Rightarrow> ('s \<Rightarrow> 's \<Rightarrow> bool) \<Rightarrow> 's \<Rightarrow> bool"
  for start :: "'s \<Rightarrow> bool" and step :: "'s \<Rightarrow> 's \<Rightarrow> bool" where
  reach_start: "start s \<Longrightarrow> reachable start step s"
| reach_step: "reachable start step s \<Longrightarrow> step s s' \<Longrightarrow> reachable start step s'"

text \<open>
  The contract of an inductive invariant: it holds at the start and every step keeps it. Then
  it holds in every reachable state.
\<close>

locale invariant_system =
  fixes start :: "'s \<Rightarrow> bool"
    and step :: "'s \<Rightarrow> 's \<Rightarrow> bool"
    and inv :: "'s \<Rightarrow> bool"
  assumes inv_start: "start s \<Longrightarrow> inv s"
    and inv_step: "inv s \<Longrightarrow> step s s' \<Longrightarrow> inv s'"
begin

lemma reachable_inv: "reachable start step s \<Longrightarrow> inv s"
  by (induction rule: reachable.induct) (blast intro: inv_start inv_step)+

lemma steps_inv: "step\<^sup>*\<^sup>* s s' \<Longrightarrow> inv s \<Longrightarrow> inv s'"
  by (induction rule: rtranclp_induct) (blast intro: inv_step)+

end

end
