(* ===== verification/Skbuff.thy ===== *)
theory Skbuff
  imports Kernel_Prelude
begin

text \<open>
  Socket buffers as a reader sees them: the linear area, the page fragments and the
  fragment list (\<^verbatim>\<open>include/linux/skbuff.h\<close>), the copy routine \<^verbatim>\<open>skb_copy_bits\<close>
  (\<^verbatim>\<open>net/core/skbuff.c\<close>) and \<^verbatim>\<open>skb_header_pointer\<close>. Addresses are offsets from
  \<^verbatim>\<open>skb->head\<close>; the list \<open>skb_lin\<close> holds the bytes from \<^verbatim>\<open>skb->head\<close> up to the tail
  pointer, and an access outside it is the explicit outcome \<open>Oob\<close>. The \<^verbatim>\<open>int\<close> variables of
  the C code are 32-bit words compared with the signed orders, so that their arithmetic
  wraps as it does in the code.
\<close>

section \<open>Data\<close>

datatype sk_buff = Sk_buff
  (skb_lin: "u8 list")             \<comment> \<open>bytes from \<^verbatim>\<open>head\<close> to \<^verbatim>\<open>tail\<close>\<close>
  (skb_data: nat)                  \<comment> \<open>\<^verbatim>\<open>data - head\<close>\<close>
  (skb_len: u32)
  (skb_data_len: u32)
  (skb_network_header: nat)        \<comment> \<open>offset from \<^verbatim>\<open>head\<close>\<close>
  (skb_mac_header: nat)            \<comment> \<open>offset from \<^verbatim>\<open>head\<close>\<close>
  (skb_frags: "u8 list list")      \<comment> \<open>\<^verbatim>\<open>skb_shinfo(skb)->frags\<close>: the bytes of each fragment\<close>
  (skb_frag_list: "sk_buff list")  \<comment> \<open>\<^verbatim>\<open>skb_shinfo(skb)->frag_list\<close>\<close>

datatype 'a load =
    Oob       \<comment> \<open>the code would read outside the buffer\<close>
  | Null      \<comment> \<open>the code reports failure: a null pointer or \<^verbatim>\<open>-EFAULT\<close>\<close>
  | Val 'a

section \<open>Operations\<close>

definition skb_headlen :: "sk_buff \<Rightarrow> u32" where
  "skb_headlen skb = skb_len skb - skb_data_len skb"

definition skb_is_nonlinear :: "sk_buff \<Rightarrow> bool" where
  "skb_is_nonlinear skb \<longleftrightarrow> skb_data_len skb \<noteq> 0"

text \<open>A read of \<open>n\<close> bytes at address \<open>a\<close> of a memory area.\<close>

definition read_at :: "u8 list \<Rightarrow> int \<Rightarrow> int \<Rightarrow> u8 list load" where
  "read_at mem a n =
     (if 0 \<le> a \<and> 0 \<le> n \<and> a + n \<le> int (length mem)
      then Val (take (nat n) (drop (nat a) mem)) else Oob)"

text \<open>The loop over the page fragments: the remaining state is returned for the
  \<^verbatim>\<open>skb_walk_frags\<close> loop that follows it.\<close>

datatype copy_state =
    Copied "u8 list"                 \<comment> \<open>all bytes copied: \<^verbatim>\<open>return 0\<close>\<close>
  | Pending u32 u32 u32 "u8 list"    \<comment> \<open>start, offset, len still wanted, bytes copied\<close>
  | Copy_fault
  | Copy_oob

fun copy_frags :: "u8 list list \<Rightarrow> u32 \<Rightarrow> u32 \<Rightarrow> u32 \<Rightarrow> u8 list \<Rightarrow> copy_state" where
  "copy_frags [] start offset len to = Pending start offset len to"
| "copy_frags (f # fs) start offset len to =
     (let end = start + word_of_nat (length f); copy = end - offset in
      if 0 <s copy then
        let copy = (if len <s copy then len else copy) in
        case read_at f (sint (offset - start)) (sint copy) of
          Val bs \<Rightarrow>
            if len - copy = 0 then Copied (to @ bs)
            else copy_frags fs end (offset + copy) (len - copy) (to @ bs)
        | _ \<Rightarrow> Copy_oob
      else copy_frags fs end offset len to)"

definition copy_header :: "sk_buff \<Rightarrow> u32 \<Rightarrow> u32 \<Rightarrow> copy_state" where
  "copy_header skb offset len =
     (let start = skb_headlen skb in
      if skb_len skb - len <s offset then Copy_fault
      else
        let copy = start - offset in
        if 0 <s copy then
          let copy = (if len <s copy then len else copy) in
          case read_at (skb_lin skb) (int (skb_data skb) + sint offset) (sint copy) of
            Val bs \<Rightarrow>
              if len - copy = 0 then Copied bs
              else copy_frags (skb_frags skb) start (offset + copy) (len - copy) bs
          | _ \<Rightarrow> Copy_oob
        else copy_frags (skb_frags skb) start offset len [])"

fun skb_copy_bits :: "sk_buff \<Rightarrow> u32 \<Rightarrow> u32 \<Rightarrow> u8 list load"
and copy_walk :: "sk_buff list \<Rightarrow> copy_state \<Rightarrow> u8 list load" where
  "skb_copy_bits (Sk_buff lin dat ln dln nh mac frags fl) offset len =
     copy_walk fl (copy_header (Sk_buff lin dat ln dln nh mac frags []) offset len)"
| "copy_walk fl (Copied bs) = Val bs"
| "copy_walk fl Copy_fault = Null"
| "copy_walk fl Copy_oob = Oob"
| "copy_walk [] (Pending start offset len to) = (if len = 0 then Val to else Null)"
| "copy_walk (frag_iter # fl) (Pending start offset len to) =
     (let end = start + skb_len frag_iter; copy = end - offset in
      if 0 <s copy then
        let copy = (if len <s copy then len else copy) in
        case skb_copy_bits frag_iter (offset - start) copy of
          Val bs \<Rightarrow>
            if len - copy = 0 then Val (to @ bs)
            else copy_walk fl (Pending end (offset + copy) (len - copy) (to @ bs))
        | r \<Rightarrow> r
      else copy_walk fl (Pending end offset len to))"

definition skb_header_pointer :: "sk_buff \<Rightarrow> u32 \<Rightarrow> u32 \<Rightarrow> u8 list load" where
  "skb_header_pointer skb offset len =
     (let hlen = skb_headlen skb in
      if len \<le>s hlen - offset
      then read_at (skb_lin skb) (int (skb_data skb) + sint offset) (sint len)
      else skb_copy_bits skb offset len)"

section \<open>Well-formed buffers and their contents\<close>

fun skb_bytes :: "sk_buff \<Rightarrow> u8 list" where
  "skb_bytes (Sk_buff lin dat ln dln nh mac frags fl) =
     drop dat lin @ concat frags @ concat (map skb_bytes fl)"

fun wf_skb :: "sk_buff \<Rightarrow> bool" where
  "wf_skb (Sk_buff lin dat ln dln nh mac frags fl) \<longleftrightarrow>
     dat \<le> length lin
   \<and> ln = word_of_nat (length (drop dat lin @ concat frags @ concat (map skb_bytes fl)))
   \<and> length (drop dat lin @ concat frags @ concat (map skb_bytes fl)) < 2 ^ 31
   \<and> dln = word_of_nat (length (concat frags @ concat (map skb_bytes fl)))
   \<and> (\<forall>s \<in> set fl. wf_skb s)"

lemma wf_skb_len: "wf_skb skb \<Longrightarrow> skb_len skb = word_of_nat (length (skb_bytes skb))"
  by (cases skb) simp

lemma wf_skb_small: "wf_skb skb \<Longrightarrow> length (skb_bytes skb) < 2 ^ 31"
  by (cases skb) (simp only: wf_skb.simps skb_bytes.simps)

lemma wf_skb_headlen:
  "wf_skb (Sk_buff lin dat ln dln nh mac frags fl) \<Longrightarrow>
   skb_headlen (Sk_buff lin dat ln dln nh mac frags fl') = word_of_nat (length lin - dat)"
  by (auto simp: skb_headlen_def)

lemma read_at_nat:
  "a + n \<le> length xs \<Longrightarrow> read_at xs (int a) (int n) = Val (take n (drop a xs))"
  by (simp add: read_at_def)

lemma min_copy_word:
  assumes "off < e" "e < 2 ^ 31" "n < 2 ^ 31"
  shows "(if (word_of_nat n :: u32) <s word_of_nat e - word_of_nat off then word_of_nat n
          else word_of_nat e - word_of_nat off) = (word_of_nat (min n (e - off)) :: u32)"
proof -
  have c: "word_of_nat n <s (word_of_nat e - word_of_nat off :: u32) \<longleftrightarrow> off + n < e"
    using assms by (intro signed_less_of_nat_diff') auto
  have d: "word_of_nat e - word_of_nat off = (word_of_nat (e - off) :: u32)"
    using assms by (intro word_of_nat_sub) auto
  have m: "min n (e - off) = (if off + n < e then n else e - off)"
    using assms(1) by auto
  show ?thesis
    unfolding c unfolding d m by (simp only: if_distrib [of word_of_nat])
qed

definition slice_spec :: "nat \<Rightarrow> nat \<Rightarrow> nat \<Rightarrow> u8 list \<Rightarrow> u8 list \<Rightarrow> copy_state" where
  "slice_spec s off n to body =
     (let c = length body - (off - s) in
      if off - s + n \<le> length body then Copied (to @ take n (drop (off - s) body))
      else Pending (word_of_nat (s + length body)) (word_of_nat (off + c)) (word_of_nat (n - c))
             (to @ drop (off - s) body))"

lemma slice_spec_skip:
  assumes "s + length f \<le> off"
  shows "slice_spec (s + length f) off n to body = slice_spec s off n to (f @ body)"
proof -
  from assms obtain k where off: "off = s + length f + k"
    using le_Suc_ex by blast
  show ?thesis
    unfolding off slice_spec_def Let_def by (simp add: add.assoc del: of_nat_add of_nat_diff)
qed

lemma slice_spec_copy:
  assumes "s \<le> off" "off < s + length f" "s + length f < off + n"
  shows "slice_spec (s + length f) (s + length f) (n - (s + length f - off)) (to @ drop (off - s) f) body
   = slice_spec s off n to (f @ body)"
proof -
  from assms(1) obtain j where off: "off = s + j"
    using le_Suc_ex by blast
  from assms obtain r where n: "n = length f - j + r" and j: "j < length f"
    using le_Suc_ex [of "length f - j" n] unfolding off by fastforce
  show ?thesis
    using j unfolding off n slice_spec_def Let_def by (simp add: add.assoc del: of_nat_add of_nat_diff)
qed

lemma copy_frags_copy:
  assumes "e = start + word_of_nat (length f)" "0 <s e - offset"
    and "(if len <s e - offset then len else e - offset) = m"
    and "read_at f (sint (offset - start)) (sint m) = Val bs"
  shows "copy_frags (f # fs) start offset len to =
    (if len - m = 0 then Copied (to @ bs)
     else copy_frags fs e (offset + m) (len - m) (to @ bs))"
  using assms(2,4) unfolding copy_frags.simps Let_def assms(1) [symmetric] assms(3) by simp

lemma word_min_diff_0:
  "\<lbrakk>n < 2 ^ 31; off < e\<rbrakk> \<Longrightarrow>
   word_of_nat n - word_of_nat (min n (e - off)) = (0 :: u32) \<longleftrightarrow> n \<le> e - off"
  by (subst word_of_nat_sub, simp, subst word_of_nat_eq_0_small) auto

lemma copy_frags_step:
  assumes "s \<le> off" "off < s + length f" "off + n < 2 ^ 31" "s + length f < 2 ^ 31"
  shows "copy_frags (f # fs) (word_of_nat s) (word_of_nat off) (word_of_nat n) to =
    (if n \<le> s + length f - off then Copied (to @ take n (drop (off - s) f))
     else copy_frags fs (word_of_nat (s + length f)) (word_of_nat (s + length f))
            (word_of_nat (n - (s + length f - off))) (to @ drop (off - s) f))"
proof -
  let ?e = "s + length f"
  let ?m = "min n (?e - off)"
  have small: "?e < 2 ^ 31" "off < 2 ^ 31" "n < 2 ^ 31" "off - s < 2 ^ 31" "?m < 2 ^ 31"
    using assms by auto
  have addr: "sint (word_of_nat off - word_of_nat s :: u32) = int (off - s)"
    using assms(1) small by (simp only: word_of_nat_sub sint_of_small_nat)
  have cnt: "sint (word_of_nat ?m :: u32) = int ?m"
    using small by (intro sint_of_small_nat)
  have rd: "read_at f (sint (word_of_nat off - word_of_nat s :: u32)) (sint (word_of_nat ?m :: u32))
      = Val (take ?m (drop (off - s) f))"
    unfolding addr cnt using assms(1,2) by (intro read_at_nat) auto
  have pos: "0 <s (word_of_nat ?e - word_of_nat off :: u32)"
    using signed_pos_of_nat_diff [OF small(1,2)] assms(2) by blast
  have sub: "word_of_nat n - word_of_nat ?m = (word_of_nat (n - ?m) :: u32)"
    by (rule word_of_nat_sub) simp
  have "copy_frags (f # fs) (word_of_nat s) (word_of_nat off) (word_of_nat n) to =
      (if n \<le> ?e - off then Copied (to @ take ?m (drop (off - s) f))
       else copy_frags fs (word_of_nat ?e) (word_of_nat (off + ?m)) (word_of_nat (n - ?m))
         (to @ take ?m (drop (off - s) f)))"
    using copy_frags_copy [OF _ pos min_copy_word [OF assms(2) small(1,3)] rd, of fs to]
    unfolding word_min_diff_0 [OF small(3) assms(2)] unfolding sub of_nat_add by blast
  then show ?thesis
    using assms(1,2) by (cases "n \<le> ?e - off") (simp_all only: min_absorb1 min_absorb2 linear
      if_True if_False not_le_imp_less less_imp_le add_diff_inverse_nat le_add_diff_inverse
      length_drop take_all_iff, simp_all)
qed

lemma copy_frags_slice:
  assumes "s \<le> off" "0 < n" "off + n < 2 ^ 31" "s + length (concat fs) < 2 ^ 31"
  shows "copy_frags fs (word_of_nat s) (word_of_nat off) (word_of_nat n) to =
    slice_spec s off n to (concat fs)"
  using assms
proof (induction fs arbitrary: s off n to)
  case Nil
  then show ?case by (simp add: slice_spec_def)
next
  case (Cons f fs)
  let ?e = "s + length f"
  consider "?e \<le> off" | "off < ?e" "n \<le> ?e - off" | "off < ?e" "\<not> n \<le> ?e - off"
    by linarith
  then show ?case
  proof cases
    case 1
    then have "copy_frags (f # fs) (word_of_nat s) (word_of_nat off) (word_of_nat n) to =
        copy_frags fs (word_of_nat ?e) (word_of_nat off) (word_of_nat n) to"
      using Cons.prems signed_pos_of_nat_diff [of ?e off] by (simp add: Let_def)
    also have "\<dots> = slice_spec ?e off n to (concat fs)"
      using Cons.prems 1 by (intro Cons.IH) auto
    finally show ?thesis using 1 by (simp add: slice_spec_skip)
  next
    case 2
    then show ?thesis
      using Cons.prems by (subst copy_frags_step) (auto simp: slice_spec_def Let_def)
  next
    case 3
    then have "copy_frags (f # fs) (word_of_nat s) (word_of_nat off) (word_of_nat n) to =
        slice_spec ?e ?e (n - (?e - off)) (to @ drop (off - s) f) (concat fs)"
      using Cons.prems copy_frags_step [of s off f n fs to]
        Cons.IH [of ?e ?e "n - (?e - off)" "to @ drop (off - s) f"] by (simp del: of_nat_add of_nat_diff)
    also have "\<dots> = slice_spec s off n to (concat (f # fs))"
      using Cons.prems 3 by (subst slice_spec_copy) auto
    finally show ?thesis .
  qed
qed

lemma slice_spec_append:
  assumes "s \<le> off" "length f < off - s + n"
  shows "slice_spec s off n to (f @ body) =
    slice_spec (s + length f) (max off (s + length f)) (n - (length f - (off - s)))
      (to @ drop (off - s) f) body"
proof (cases "s + length f \<le> off")
  case True
  then show ?thesis
    by (simp add: slice_spec_skip max_absorb1 del: of_nat_add of_nat_diff)
next
  case False
  have "length f - (off - s) = s + length f - off"
    using assms(1) by simp
  moreover have "max off (s + length f) = s + length f"
    using False by simp
  ultimately show ?thesis
    using False assms slice_spec_copy [of s off f n to body] by simp
qed

lemma slice_spec_Pending:
  assumes "s \<le> off" "length f < off - s + n"
  shows "slice_spec s off n to f = Pending (word_of_nat (s + length f))
    (word_of_nat (max off (s + length f))) (word_of_nat (n - (length f - (off - s))))
    (to @ drop (off - s) f)"
proof -
  have off: "off + (length f - (off - s)) = max off (s + length f)"
    using assms(1) by auto
  show ?thesis
    using assms(2) unfolding slice_spec_def Let_def off by (simp del: of_nat_add of_nat_diff)
qed

lemma slice_spec_chunk:
  assumes "s \<le> off" "off < s + length b"
  shows "slice_spec s off n to b =
    (let m = min n (s + length b - off); bs = to @ take m (drop (off - s) b) in
     if n \<le> s + length b - off then Copied bs
     else Pending (word_of_nat (s + length b)) (word_of_nat (off + m)) (word_of_nat (n - m)) bs)"
proof (cases "n \<le> s + length b - off")
  case True
  then have "off - s + n \<le> length b" using assms by linarith
  with True show ?thesis by (simp add: slice_spec_def Let_def min_absorb1)
next
  case False
  then have "length b < off - s + n" "max off (s + length b) = off + (s + length b - off)"
      "length b - (off - s) = s + length b - off"
    using assms by auto
  with False assms(1) show ?thesis
    by (simp add: slice_spec_Pending Let_def min_absorb2 del: of_nat_add of_nat_diff)
qed

text \<open>What \<^verbatim>\<open>skb_copy_bits\<close> promises for one buffer.\<close>

definition copies_ok :: "sk_buff \<Rightarrow> bool" where
  "copies_ok skb \<longleftrightarrow> (\<forall>off n. 0 < n \<longrightarrow> n < 2 ^ 31 \<longrightarrow> off < 2 ^ 31 \<longrightarrow>
     skb_copy_bits skb (word_of_nat off) (word_of_nat n) =
       (if off + n \<le> length (skb_bytes skb) then Val (take n (drop off (skb_bytes skb))) else Null))"

lemma copy_walk_copy:
  assumes "e = start + skb_len x" "0 <s e - offset"
    and "(if len <s e - offset then len else e - offset) = m"
    and "skb_copy_bits x (offset - start) m = Val bs"
  shows "copy_walk (x # fl) (Pending start offset len to) =
    (if len - m = 0 then Val (to @ bs)
     else copy_walk fl (Pending e (offset + m) (len - m) (to @ bs)))"
  using assms(2,4) unfolding copy_walk.simps Let_def assms(1) [symmetric] assms(3) by simp

lemma copy_walk_step:
  assumes "copies_ok x" "wf_skb x" "s \<le> off" "0 < n" "off + n < 2 ^ 31"
    and "s + length (skb_bytes x) < 2 ^ 31"
  shows "copy_walk (x # fl) (Pending (word_of_nat s) (word_of_nat off) (word_of_nat n) to) =
    copy_walk fl (slice_spec s off n to (skb_bytes x))"
proof -
  let ?b = "skb_bytes x"
  let ?e = "s + length ?b"
  have e: "word_of_nat s + skb_len x = word_of_nat ?e"
    using assms(2) by (simp add: wf_skb_len)
  show ?thesis
  proof (cases "off < ?e")
    case False
    then have "\<not> 0 <s (word_of_nat ?e - word_of_nat off :: u32)"
      using signed_pos_of_nat_diff [of ?e off] assms(5,6) by simp
    moreover have "slice_spec s off n to ?b =
        Pending (word_of_nat ?e) (word_of_nat off) (word_of_nat n) to"
      using False assms(3,4) by (subst slice_spec_Pending) (auto simp del: of_nat_add)
    ultimately show ?thesis
      unfolding copy_walk.simps Let_def e by simp
  next
    case True
    let ?m = "min n (?e - off)"
    have small: "?e < 2 ^ 31" "off < 2 ^ 31" "n < 2 ^ 31"
      using assms by auto
    have pos: "0 <s (word_of_nat ?e - word_of_nat off :: u32)"
      using signed_pos_of_nat_diff [OF small(1,2)] True by blast
    have "skb_copy_bits x (word_of_nat (off - s)) (word_of_nat ?m) =
        (if off - s + ?m \<le> length ?b then Val (take ?m (drop (off - s) ?b)) else Null)"
      using assms(1,4,5) True unfolding copies_ok_def by (elim allE impE) auto
    then have rd: "skb_copy_bits x (word_of_nat off - word_of_nat s) (word_of_nat ?m) =
        Val (take ?m (drop (off - s) ?b))"
      using assms(3) True by (simp only: word_of_nat_sub [OF assms(3)]) auto
    have sub: "word_of_nat n - word_of_nat ?m = (word_of_nat (n - ?m) :: u32)"
      by (rule word_of_nat_sub) simp
    have "copy_walk (x # fl) (Pending (word_of_nat s) (word_of_nat off) (word_of_nat n) to) =
        (if n \<le> ?e - off then Val (to @ take ?m (drop (off - s) ?b))
         else copy_walk fl (Pending (word_of_nat ?e) (word_of_nat (off + ?m)) (word_of_nat (n - ?m))
           (to @ take ?m (drop (off - s) ?b))))"
      using copy_walk_copy [OF e [symmetric] pos min_copy_word [OF True small(1,3)] rd, of fl to]
      unfolding word_min_diff_0 [OF small(3) True] unfolding sub of_nat_add by blast
    then show ?thesis
      by (simp add: slice_spec_chunk [OF assms(3) True] Let_def if_distrib del: copy_walk.simps(5) of_nat_add of_nat_diff)
  qed
qed

lemma read_at_drop:
  "\<lbrakk>d \<le> length xs; 0 \<le> a\<rbrakk> \<Longrightarrow> read_at (drop d xs) a n = read_at xs (int d + a) n"
  by (auto simp: read_at_def nat_add_distrib add.commute)

lemma copy_header_slice:
  assumes wf: "wf_skb (Sk_buff lin dat ln dln nh mac frags fl)"
    and n: "0 < n" "n < 2 ^ 31" "off < 2 ^ 31"
  shows "copy_header (Sk_buff lin dat ln dln nh mac frags []) (word_of_nat off) (word_of_nat n) =
    (if off + n \<le> length (skb_bytes (Sk_buff lin dat ln dln nh mac frags fl))
     then slice_spec 0 off n [] (drop dat lin @ concat frags) else Copy_fault)"
proof -
  let ?skb = "Sk_buff lin dat ln dln nh mac frags fl"
  let ?h = "drop dat lin"
  have hl: "skb_headlen (Sk_buff lin dat ln dln nh mac frags []) = word_of_nat (length ?h)"
    using wf_skb_headlen [OF wf] by (simp del: of_nat_diff)
  have small: "length (skb_bytes ?skb) < 2 ^ 31" "length ?h < 2 ^ 31"
      "length ?h + length (concat frags) < 2 ^ 31" "n < 2 ^ 31" "off < 2 ^ 31"
    using wf_skb_small [OF wf] n by auto
  have guard: "skb_len ?skb - word_of_nat n <s word_of_nat off \<longleftrightarrow>
      length (skb_bytes ?skb) < off + n"
    using signed_less_of_nat_diff [OF small(1,4,5)] by (simp only: wf_skb_len [OF wf] add.commute)
  have rd: "read_at lin (int dat + sint (word_of_nat off :: u32)) m =
      read_at ?h (sint (word_of_nat off - 0 :: u32)) m" for m
    using wf small(5) by (simp add: read_at_drop sint_of_small_nat)
  have "copy_header (Sk_buff lin dat ln dln nh mac frags []) (word_of_nat off) (word_of_nat n) =
      copy_frags (?h # frags) 0 (word_of_nat off) (word_of_nat n) []"
    if "off + n \<le> length (skb_bytes ?skb)"
    using that guard unfolding copy_header_def hl copy_frags.simps Let_def sk_buff.sel rd
      add_0_left append_Nil by auto
  moreover have "copy_header (Sk_buff lin dat ln dln nh mac frags []) (word_of_nat off) (word_of_nat n) =
      Copy_fault" if "\<not> off + n \<le> length (skb_bytes ?skb)"
    using that guard by (simp add: copy_header_def)
  ultimately show ?thesis
    using copy_frags_slice [of 0 off n "?h # frags" "[]"] n(1) small(1,3) by auto
qed

lemma copy_walk_slice:
  assumes "\<forall>x \<in> set fl. copies_ok x \<and> wf_skb x" "s \<le> off" "0 < n" "off + n < 2 ^ 31"
    and "s + length (body @ concat (map skb_bytes fl)) < 2 ^ 31"
  shows "copy_walk fl (slice_spec s off n to body) =
    (if off - s + n \<le> length (body @ concat (map skb_bytes fl))
     then Val (to @ take n (drop (off - s) (body @ concat (map skb_bytes fl)))) else Null)"
  using assms
proof (induction fl arbitrary: body)
  case Nil
  then show ?case
    by (cases "off - s + n \<le> length body")
      (auto simp: slice_spec_def Let_def word_of_nat_eq_0_small simp del: of_nat_diff of_nat_add)
next
  case (Cons x fl)
  have "copy_walk (x # fl) (slice_spec s off n to body) =
      copy_walk fl (slice_spec s off n to (body @ skb_bytes x))"
  proof (cases "off - s + n \<le> length body")
    case True
    then show ?thesis by (simp add: slice_spec_def Let_def)
  next
    case False
    then show ?thesis
      using Cons.prems by (simp add: slice_spec_Pending slice_spec_append copy_walk_step
          del: of_nat_add of_nat_diff copy_walk.simps(5))
  qed
  also have "\<dots> = (if off - s + n \<le> length ((body @ skb_bytes x) @ concat (map skb_bytes fl))
      then Val (to @ take n (drop (off - s) ((body @ skb_bytes x) @ concat (map skb_bytes fl)))) else Null)"
    using Cons.prems by (intro Cons.IH) auto
  finally show ?case by simp
qed

lemma wf_skb_copies_ok: "wf_skb skb \<Longrightarrow> copies_ok skb"
proof (induction skb)
  case (Sk_buff lin dat ln dln nh mac frags fl)
  then have fl: "\<forall>x \<in> set fl. copies_ok x \<and> wf_skb x" by auto
  show ?case
    unfolding copies_ok_def
  proof (intro allI impI)
    fix off n :: nat
    assume n: "0 < n" "n < 2 ^ 31" "off < 2 ^ 31"
    let ?skb = "Sk_buff lin dat ln dln nh mac frags fl"
    have small: "0 + length ((drop dat lin @ concat frags) @ concat (map skb_bytes fl)) < 2 ^ 31"
      using wf_skb_small [OF Sk_buff.prems] by simp
    have "copy_walk fl (slice_spec 0 off n [] (drop dat lin @ concat frags)) =
        Val (take n (drop off (skb_bytes ?skb)))" if "off + n \<le> length (skb_bytes ?skb)"
      using copy_walk_slice [OF fl le0 n(1) _ small, of off "[]"] that small by simp
    then show "skb_copy_bits ?skb (word_of_nat off) (word_of_nat n) =
        (if off + n \<le> length (skb_bytes ?skb) then Val (take n (drop off (skb_bytes ?skb))) else Null)"
      unfolding skb_copy_bits.simps copy_header_slice [OF Sk_buff.prems n] by auto
  qed
qed

lemma skb_header_pointer_slice:
  assumes "wf_skb skb" "0 < n" "n < 2 ^ 31" "off < 2 ^ 31"
  shows "skb_header_pointer skb (word_of_nat off) (word_of_nat n) =
    (if off + n \<le> length (skb_bytes skb) then Val (take n (drop off (skb_bytes skb))) else Null)"
proof (cases skb)
  case (Sk_buff lin dat ln dln nh mac frags fl)
  let ?h = "drop dat lin"
  have hl: "skb_headlen skb = word_of_nat (length ?h)"
    using wf_skb_headlen assms(1) unfolding Sk_buff by (metis length_drop)
  have small: "length ?h < 2 ^ 31" "off < 2 ^ 31" "n < 2 ^ 31"
    using wf_skb_small [OF assms(1)] assms(3,4) unfolding Sk_buff by auto
  have guard: "word_of_nat n \<le>s word_of_nat (length ?h) - (word_of_nat off :: u32) \<longleftrightarrow>
      off + n \<le> length ?h"
    by (rule signed_le_of_nat_diff [OF small])
  show ?thesis
  proof (cases "off + n \<le> length ?h")
    case True
    then have "skb_header_pointer skb (word_of_nat off) (word_of_nat n) =
        read_at ?h (int off) (int n)"
      using assms(1) guard hl small unfolding skb_header_pointer_def Let_def Sk_buff
      by (simp add: read_at_drop sint_of_small_nat del: length_drop)
    with True show ?thesis by (simp add: read_at_nat Sk_buff)
  next
    case False
    then show ?thesis
      using wf_skb_copies_ok [OF assms(1)] assms(2-4) guard hl
      by (simp add: skb_header_pointer_def copies_ok_def del: length_drop)
  qed
qed

section \<open>Properties\<close>

text \<open>C28: reading \<open>n\<close> bytes at offset \<open>off\<close> of a well-formed packet gives exactly those bytes of
  the packet, its linear area, page fragments and fragment list laid end to end, or a null
  pointer when they run past the end; it never reads outside the buffers.\<close>

theorem packet_read_is_slice:
  assumes "wf_skb skb" "0 < n" "n < 2 ^ 31" "off < 2 ^ 31"
  shows "skb_header_pointer skb (word_of_nat off) (word_of_nat n) =
    (if off + n \<le> length (skb_bytes skb) then Val (take n (drop off (skb_bytes skb))) else Null)"
  by (rule skb_header_pointer_slice [OF assms])

theorem packet_read_is_slice_witness:
  "skb_header_pointer (Sk_buff [9, 1, 2] 1 5 3 0 0 [[3]] [Sk_buff [4, 5] 0 2 0 0 0 [] []]) 1 3 = Val [2, 3, 4]"
  using packet_read_is_slice [of "Sk_buff [9, 1, 2] 1 5 3 0 0 [[3]] [Sk_buff [4, 5] 0 2 0 0 0 [] []]" 3 1]
  by simp

end
