(* ===== verification/Bpf_Filter.thy ===== *)
theory Bpf_Filter
  imports Skbuff
begin

text \<open>
  The socket filter (\<^verbatim>\<open>net/core/filter.c\<close>, \<^verbatim>\<open>include/linux/filter.h\<close>,
  \<^verbatim>\<open>lib/reciprocal_div.c\<close>, and the attribute search of \<^verbatim>\<open>lib/nlattr.c\<close> it calls):
  the static checker \<^verbatim>\<open>sk_chk_filter\<close> with its definite-initialisation analysis
  \<^verbatim>\<open>check_load_and_stores\<close>, and the interpreter \<^verbatim>\<open>sk_run_filter\<close>. Everything the C code
  leaves undefined is an explicit \<open>bpf_fault\<close> of the interpreter: an instruction fetched
  outside the program, a scratch cell out of range or never written, a shift by 32 or more,
  a packet access outside the buffer. The theorems say which of these a filter that passed
  the checker can still run into. The checker overwrites the 16-bit user code of every
  instruction by an internal code; the model changes the type of the field accordingly.
  \<^verbatim>\<open>size_t\<close> is 32 bits wide and the byte order little endian, as on ARM.
\<close>

section \<open>Instructions\<close>

datatype bpf_s =
    BPF_S_RET_K | BPF_S_RET_A
  | BPF_S_ALU_ADD_K | BPF_S_ALU_ADD_X | BPF_S_ALU_SUB_K | BPF_S_ALU_SUB_X
  | BPF_S_ALU_MUL_K | BPF_S_ALU_MUL_X | BPF_S_ALU_DIV_X
  | BPF_S_ALU_AND_K | BPF_S_ALU_AND_X | BPF_S_ALU_OR_K | BPF_S_ALU_OR_X
  | BPF_S_ALU_LSH_K | BPF_S_ALU_LSH_X | BPF_S_ALU_RSH_K | BPF_S_ALU_RSH_X | BPF_S_ALU_NEG
  | BPF_S_LD_W_ABS | BPF_S_LD_H_ABS | BPF_S_LD_B_ABS | BPF_S_LD_W_LEN
  | BPF_S_LD_W_IND | BPF_S_LD_H_IND | BPF_S_LD_B_IND | BPF_S_LD_IMM
  | BPF_S_LDX_W_LEN | BPF_S_LDX_B_MSH | BPF_S_LDX_IMM
  | BPF_S_MISC_TAX | BPF_S_MISC_TXA | BPF_S_ALU_DIV_K
  | BPF_S_LD_MEM | BPF_S_LDX_MEM | BPF_S_ST | BPF_S_STX
  | BPF_S_JMP_JA | BPF_S_JMP_JEQ_K | BPF_S_JMP_JEQ_X | BPF_S_JMP_JGE_K | BPF_S_JMP_JGE_X
  | BPF_S_JMP_JGT_K | BPF_S_JMP_JGT_X | BPF_S_JMP_JSET_K | BPF_S_JMP_JSET_X
  | BPF_S_ANC_PROTOCOL | BPF_S_ANC_PKTTYPE | BPF_S_ANC_IFINDEX | BPF_S_ANC_NLATTR
  | BPF_S_ANC_NLATTR_NEST | BPF_S_ANC_MARK | BPF_S_ANC_QUEUE | BPF_S_ANC_HATYPE
  | BPF_S_ANC_RXHASH | BPF_S_ANC_CPU
  | BPF_S_UNKNOWN   \<comment> \<open>any other value of the field: the \<^verbatim>\<open>default\<close> branch\<close>

record 'c sock_filter =
  sf_code :: 'c
  sf_jt :: u8
  sf_jf :: u8
  sf_k :: u32

definition BPF_LD :: u16 where "BPF_LD = 0x00"
definition BPF_LDX :: u16 where "BPF_LDX = 0x01"
definition BPF_ST :: u16 where "BPF_ST = 0x02"
definition BPF_STX :: u16 where "BPF_STX = 0x03"
definition BPF_ALU :: u16 where "BPF_ALU = 0x04"
definition BPF_JMP :: u16 where "BPF_JMP = 0x05"
definition BPF_RET :: u16 where "BPF_RET = 0x06"
definition BPF_MISC :: u16 where "BPF_MISC = 0x07"
definition BPF_W :: u16 where "BPF_W = 0x00"
definition BPF_H :: u16 where "BPF_H = 0x08"
definition BPF_B :: u16 where "BPF_B = 0x10"
definition BPF_IMM :: u16 where "BPF_IMM = 0x00"
definition BPF_ABS :: u16 where "BPF_ABS = 0x20"
definition BPF_IND :: u16 where "BPF_IND = 0x40"
definition BPF_MEM :: u16 where "BPF_MEM = 0x60"
definition BPF_LEN :: u16 where "BPF_LEN = 0x80"
definition BPF_MSH :: u16 where "BPF_MSH = 0xa0"
definition BPF_ADD :: u16 where "BPF_ADD = 0x00"
definition BPF_SUB :: u16 where "BPF_SUB = 0x10"
definition BPF_MUL :: u16 where "BPF_MUL = 0x20"
definition BPF_DIV :: u16 where "BPF_DIV = 0x30"
definition BPF_OR :: u16 where "BPF_OR = 0x40"
definition BPF_AND :: u16 where "BPF_AND = 0x50"
definition BPF_LSH :: u16 where "BPF_LSH = 0x60"
definition BPF_RSH :: u16 where "BPF_RSH = 0x70"
definition BPF_NEG :: u16 where "BPF_NEG = 0x80"
definition BPF_JA :: u16 where "BPF_JA = 0x00"
definition BPF_JEQ :: u16 where "BPF_JEQ = 0x10"
definition BPF_JGT :: u16 where "BPF_JGT = 0x20"
definition BPF_JGE :: u16 where "BPF_JGE = 0x30"
definition BPF_JSET :: u16 where "BPF_JSET = 0x40"
definition BPF_K :: u16 where "BPF_K = 0x00"
definition BPF_X :: u16 where "BPF_X = 0x08"
definition BPF_A :: u16 where "BPF_A = 0x10"
definition BPF_TAX :: u16 where "BPF_TAX = 0x00"
definition BPF_TXA :: u16 where "BPF_TXA = 0x80"

lemmas bpf_code_defs =
  BPF_LD_def BPF_LDX_def BPF_ST_def BPF_STX_def BPF_ALU_def BPF_JMP_def BPF_RET_def BPF_MISC_def
  BPF_W_def BPF_H_def BPF_B_def BPF_IMM_def BPF_ABS_def BPF_IND_def BPF_MEM_def BPF_LEN_def
  BPF_MSH_def BPF_ADD_def BPF_SUB_def BPF_MUL_def BPF_DIV_def BPF_OR_def BPF_AND_def BPF_LSH_def
  BPF_RSH_def BPF_NEG_def BPF_JA_def BPF_JEQ_def BPF_JGT_def BPF_JGE_def BPF_JSET_def BPF_K_def
  BPF_X_def BPF_A_def BPF_TAX_def BPF_TXA_def

definition BPF_MAXINSNS :: nat where "BPF_MAXINSNS = 4096"
definition BPF_MEMWORDS :: nat where "BPF_MEMWORDS = 16"
definition SKF_AD_OFF :: u32 where "SKF_AD_OFF = - 0x1000"
definition SKF_NET_OFF :: int where "SKF_NET_OFF = - 0x100000"
definition SKF_LL_OFF :: int where "SKF_LL_OFF = - 0x200000"

section \<open>Division by a constant through its reciprocal\<close>

definition reciprocal_value :: "u32 \<Rightarrow> u32" where
  "reciprocal_value k = ucast (((2 ^ 32 :: u64) + ucast (k - 1)) div ucast k)"

definition reciprocal_divide :: "u32 \<Rightarrow> u32 \<Rightarrow> u32" where
  "reciprocal_divide A R = ucast (drop_bit 32 (ucast A * ucast R :: u64))"

section \<open>The checker\<close>

definition codes :: "(u16 \<times> bpf_s) list" where
  "codes =
   [(BPF_ALU OR BPF_ADD OR BPF_K, BPF_S_ALU_ADD_K),
    (BPF_ALU OR BPF_ADD OR BPF_X, BPF_S_ALU_ADD_X),
    (BPF_ALU OR BPF_SUB OR BPF_K, BPF_S_ALU_SUB_K),
    (BPF_ALU OR BPF_SUB OR BPF_X, BPF_S_ALU_SUB_X),
    (BPF_ALU OR BPF_MUL OR BPF_K, BPF_S_ALU_MUL_K),
    (BPF_ALU OR BPF_MUL OR BPF_X, BPF_S_ALU_MUL_X),
    (BPF_ALU OR BPF_DIV OR BPF_X, BPF_S_ALU_DIV_X),
    (BPF_ALU OR BPF_AND OR BPF_K, BPF_S_ALU_AND_K),
    (BPF_ALU OR BPF_AND OR BPF_X, BPF_S_ALU_AND_X),
    (BPF_ALU OR BPF_OR OR BPF_K, BPF_S_ALU_OR_K),
    (BPF_ALU OR BPF_OR OR BPF_X, BPF_S_ALU_OR_X),
    (BPF_ALU OR BPF_LSH OR BPF_K, BPF_S_ALU_LSH_K),
    (BPF_ALU OR BPF_LSH OR BPF_X, BPF_S_ALU_LSH_X),
    (BPF_ALU OR BPF_RSH OR BPF_K, BPF_S_ALU_RSH_K),
    (BPF_ALU OR BPF_RSH OR BPF_X, BPF_S_ALU_RSH_X),
    (BPF_ALU OR BPF_NEG, BPF_S_ALU_NEG),
    (BPF_LD OR BPF_W OR BPF_ABS, BPF_S_LD_W_ABS),
    (BPF_LD OR BPF_H OR BPF_ABS, BPF_S_LD_H_ABS),
    (BPF_LD OR BPF_B OR BPF_ABS, BPF_S_LD_B_ABS),
    (BPF_LD OR BPF_W OR BPF_LEN, BPF_S_LD_W_LEN),
    (BPF_LD OR BPF_W OR BPF_IND, BPF_S_LD_W_IND),
    (BPF_LD OR BPF_H OR BPF_IND, BPF_S_LD_H_IND),
    (BPF_LD OR BPF_B OR BPF_IND, BPF_S_LD_B_IND),
    (BPF_LD OR BPF_IMM, BPF_S_LD_IMM),
    (BPF_LDX OR BPF_W OR BPF_LEN, BPF_S_LDX_W_LEN),
    (BPF_LDX OR BPF_B OR BPF_MSH, BPF_S_LDX_B_MSH),
    (BPF_LDX OR BPF_IMM, BPF_S_LDX_IMM),
    (BPF_MISC OR BPF_TAX, BPF_S_MISC_TAX),
    (BPF_MISC OR BPF_TXA, BPF_S_MISC_TXA),
    (BPF_RET OR BPF_K, BPF_S_RET_K),
    (BPF_RET OR BPF_A, BPF_S_RET_A),
    (BPF_ALU OR BPF_DIV OR BPF_K, BPF_S_ALU_DIV_K),
    (BPF_LD OR BPF_MEM, BPF_S_LD_MEM),
    (BPF_LDX OR BPF_MEM, BPF_S_LDX_MEM),
    (BPF_ST, BPF_S_ST),
    (BPF_STX, BPF_S_STX),
    (BPF_JMP OR BPF_JA, BPF_S_JMP_JA),
    (BPF_JMP OR BPF_JEQ OR BPF_K, BPF_S_JMP_JEQ_K),
    (BPF_JMP OR BPF_JEQ OR BPF_X, BPF_S_JMP_JEQ_X),
    (BPF_JMP OR BPF_JGE OR BPF_K, BPF_S_JMP_JGE_K),
    (BPF_JMP OR BPF_JGE OR BPF_X, BPF_S_JMP_JGE_X),
    (BPF_JMP OR BPF_JGT OR BPF_K, BPF_S_JMP_JGT_K),
    (BPF_JMP OR BPF_JGT OR BPF_X, BPF_S_JMP_JGT_X),
    (BPF_JMP OR BPF_JSET OR BPF_K, BPF_S_JMP_JSET_K),
    (BPF_JMP OR BPF_JSET OR BPF_X, BPF_S_JMP_JSET_X)]"


definition codes_size :: nat where
  "codes_size = Suc (foldr max (map (unat \<circ> fst) codes) 0)"

text \<open>The inner \<^verbatim>\<open>switch (ftest->k)\<close>: absolute loads from the ancillary area.\<close>

definition ancillary :: "u32 \<Rightarrow> bpf_s \<Rightarrow> bpf_s" where
  "ancillary k c =
     (if k = SKF_AD_OFF + 0 then BPF_S_ANC_PROTOCOL
      else if k = SKF_AD_OFF + 4 then BPF_S_ANC_PKTTYPE
      else if k = SKF_AD_OFF + 8 then BPF_S_ANC_IFINDEX
      else if k = SKF_AD_OFF + 12 then BPF_S_ANC_NLATTR
      else if k = SKF_AD_OFF + 16 then BPF_S_ANC_NLATTR_NEST
      else if k = SKF_AD_OFF + 20 then BPF_S_ANC_MARK
      else if k = SKF_AD_OFF + 24 then BPF_S_ANC_QUEUE
      else if k = SKF_AD_OFF + 28 then BPF_S_ANC_HATYPE
      else if k = SKF_AD_OFF + 32 then BPF_S_ANC_RXHASH
      else if k = SKF_AD_OFF + 36 then BPF_S_ANC_CPU
      else c)"

text \<open>The body of the checking loop for the instruction at \<open>pc\<close>; the result is the
  instruction as it is stored back.\<close>

definition chk_insn :: "nat \<Rightarrow> nat \<Rightarrow> u16 sock_filter \<Rightarrow> bpf_s sock_filter result" where
  "chk_insn flen pc f =
     (if codes_size \<le> unat (sf_code f) then Inl EINVAL
      else case map_of codes (sf_code f) of
        None \<Rightarrow> Inl EINVAL
      | Some c \<Rightarrow>
        let upd = (\<lambda>c k. \<lparr>sf_code = c, sf_jt = sf_jt f, sf_jf = sf_jf f, sf_k = k\<rparr>) in
        if c = BPF_S_ALU_DIV_K then
          (if sf_k f = 0 then Inl EINVAL else Inr (upd c (reciprocal_value (sf_k f))))
        else if c \<in> {BPF_S_LD_MEM, BPF_S_LDX_MEM, BPF_S_ST, BPF_S_STX} then
          (if BPF_MEMWORDS \<le> unat (sf_k f) then Inl EINVAL else Inr (upd c (sf_k f)))
        else if c = BPF_S_JMP_JA then
          (if word_of_nat (flen - pc - 1) \<le> sf_k f then Inl EINVAL else Inr (upd c (sf_k f)))
        else if c \<in> {BPF_S_JMP_JEQ_K, BPF_S_JMP_JEQ_X, BPF_S_JMP_JGE_K, BPF_S_JMP_JGE_X,
                     BPF_S_JMP_JGT_K, BPF_S_JMP_JGT_X, BPF_S_JMP_JSET_X, BPF_S_JMP_JSET_K} then
          (if flen \<le> pc + unat (sf_jt f) + 1 \<or> flen \<le> pc + unat (sf_jf f) + 1
           then Inl EINVAL else Inr (upd c (sf_k f)))
        else if c \<in> {BPF_S_LD_W_ABS, BPF_S_LD_H_ABS, BPF_S_LD_B_ABS} then
          Inr (upd (ancillary (sf_k f) c) (sf_k f))
        else Inr (upd c (sf_k f)))"

fun chk_insns :: "nat \<Rightarrow> nat \<Rightarrow> u16 sock_filter list \<Rightarrow> bpf_s sock_filter list result" where
  "chk_insns flen pc [] = Inr []"
| "chk_insns flen pc (f # fs) =
     (case chk_insn flen pc f of
        Inl e \<Rightarrow> Inl e
      | Inr g \<Rightarrow> (case chk_insns flen (Suc pc) fs of Inl e \<Rightarrow> Inl e | Inr gs \<Rightarrow> Inr (g # gs)))"

text \<open>
  The loop of \<^verbatim>\<open>check_load_and_stores\<close>. \<open>None\<close> stands for a store outside the
  \<^verbatim>\<open>masks\<close> array.
\<close>

function check_load_and_stores_loop ::
  "bpf_s sock_filter list \<Rightarrow> nat \<Rightarrow> u16 list \<Rightarrow> u16 \<Rightarrow> unit result option" where
  "check_load_and_stores_loop prog pc masks memvalid =
     (if pc < length prog then
        let memvalid = memvalid AND masks ! pc;
            f = prog ! pc;
            c = sf_code f
        in
        if c \<in> {BPF_S_ST, BPF_S_STX} then
          check_load_and_stores_loop prog (Suc pc) masks
            (memvalid OR push_bit (unat (sf_k f)) 1)
        else if c \<in> {BPF_S_LD_MEM, BPF_S_LDX_MEM} then
          if memvalid AND push_bit (unat (sf_k f)) 1 = 0 then Some (Inl EINVAL)
          else check_load_and_stores_loop prog (Suc pc) masks memvalid
        else if c = BPF_S_JMP_JA then
          let t = pc + 1 + unat (sf_k f) in
          if t < length masks then
            check_load_and_stores_loop prog (Suc pc) (masks[t := masks ! t AND memvalid]) (NOT 0)
          else None
        else if c \<in> {BPF_S_JMP_JEQ_K, BPF_S_JMP_JEQ_X, BPF_S_JMP_JGE_K, BPF_S_JMP_JGE_X,
                     BPF_S_JMP_JGT_K, BPF_S_JMP_JGT_X, BPF_S_JMP_JSET_X, BPF_S_JMP_JSET_K} then
          let t = pc + 1 + unat (sf_jt f); masks' = masks[t := masks ! t AND memvalid];
              u = pc + 1 + unat (sf_jf f) in
          if t < length masks \<and> u < length masks then
            check_load_and_stores_loop prog (Suc pc) (masks'[u := masks' ! u AND memvalid]) (NOT 0)
          else None
        else check_load_and_stores_loop prog (Suc pc) masks memvalid
      else Some (Inr ()))"
  by pat_completeness auto
termination
  by (relation "measure (\<lambda>(prog, pc, masks, memvalid). length prog - pc)") auto

declare check_load_and_stores_loop.simps [simp del]

definition check_load_and_stores :: "bool \<Rightarrow> bpf_s sock_filter list \<Rightarrow> unit result option" where
  "check_load_and_stores kmalloc_ok prog =
     (if \<not> kmalloc_ok then Some (Inl ENOMEM)
      else check_load_and_stores_loop prog 0 (replicate (length prog) (NOT 0)) 0)"

definition sk_chk_filter ::
  "bool \<Rightarrow> u16 sock_filter list \<Rightarrow> bpf_s sock_filter list result option" where
  "sk_chk_filter kmalloc_ok prog =
     (let flen = length prog in
      if flen = 0 \<or> BPF_MAXINSNS < flen then Some (Inl EINVAL)
      else case chk_insns flen 0 prog of
        Inl e \<Rightarrow> Some (Inl e)
      | Inr prog' \<Rightarrow>
        if sf_code (prog' ! (flen - 1)) \<in> {BPF_S_RET_K, BPF_S_RET_A} then
          (case check_load_and_stores kmalloc_ok prog' of
             None \<Rightarrow> None
           | Some (Inl e) \<Rightarrow> Some (Inl e)
           | Some (Inr _) \<Rightarrow> Some (Inr prog'))
        else Some (Inl EINVAL))"

section \<open>The interpreter\<close>

datatype bpf_fault = Pc_Oob | Mem_Oob | Mem_Uninit | Shift_Ub | Skb_Oob

type_synonym bpf_mem = "u32 option list"   \<comment> \<open>\<open>None\<close>: the stack slot was never written\<close>

datatype bpf_step =
    Next nat u32 u32 bpf_mem   \<comment> \<open>\<^verbatim>\<open>continue\<close>: distance added to \<^verbatim>\<open>fentry\<close>, \<^verbatim>\<open>A\<close>, \<^verbatim>\<open>X\<close>, \<^verbatim>\<open>mem\<close>\<close>
  | Ret u32
  | Fault bpf_fault

text \<open>The fields of the packet the ancillary loads read.\<close>

record skb_anc =
  anc_protocol :: u16               \<comment> \<open>network byte order\<close>
  anc_pkt_type :: u8
  anc_dev :: "(u32 \<times> u16) option"   \<comment> \<open>\<^verbatim>\<open>dev->ifindex\<close> and \<^verbatim>\<open>dev->type\<close>\<close>
  anc_mark :: u32
  anc_queue_mapping :: u16
  anc_rxhash :: u32
  anc_cpu :: u32                    \<comment> \<open>\<^verbatim>\<open>raw_smp_processor_id()\<close>\<close>

definition ntohs :: "u16 \<Rightarrow> u16" where
  "ntohs w = push_bit 8 w OR drop_bit 8 w"

definition get_unaligned_be :: "u8 list \<Rightarrow> u32" where
  "get_unaligned_be bs = foldl (\<lambda>a b. push_bit 8 a OR ucast b) 0 bs"

definition load_pointer_neg :: "sk_buff \<Rightarrow> u32 \<Rightarrow> nat \<Rightarrow> u8 list load" where
  "load_pointer_neg skb k sz =
     (let ptr = (if SKF_NET_OFF \<le> sint k then Some (int (skb_network_header skb) + sint k - SKF_NET_OFF)
                 else if SKF_LL_OFF \<le> sint k then Some (int (skb_mac_header skb) + sint k - SKF_LL_OFF)
                 else None) in
      case ptr of
        None \<Rightarrow> Null
      | Some p \<Rightarrow> if 0 \<le> p \<and> p + int sz \<le> int (length (skb_lin skb))
                  then read_at (skb_lin skb) p (int sz) else Null)"

definition load_pointer :: "sk_buff \<Rightarrow> u32 \<Rightarrow> nat \<Rightarrow> u8 list load" where
  "load_pointer skb k sz =
     (if 0 \<le>s k then skb_header_pointer skb k (word_of_nat sz) else load_pointer_neg skb k sz)"


definition bpf_alu :: "bpf_s \<Rightarrow> u32 \<Rightarrow> u32 \<Rightarrow> u32 \<Rightarrow> bpf_mem \<Rightarrow> bpf_step option" where
  "bpf_alu c K A X mem =
     (let lsh = (\<lambda>n. if n < 32 then Next 0 (push_bit (unat n) A) X mem else Fault Shift_Ub);
          rsh = (\<lambda>n. if n < 32 then Next 0 (drop_bit (unat n) A) X mem else Fault Shift_Ub)
      in case c of
        BPF_S_ALU_ADD_X \<Rightarrow> Some (Next 0 (A + X) X mem)
      | BPF_S_ALU_ADD_K \<Rightarrow> Some (Next 0 (A + K) X mem)
      | BPF_S_ALU_SUB_X \<Rightarrow> Some (Next 0 (A - X) X mem)
      | BPF_S_ALU_SUB_K \<Rightarrow> Some (Next 0 (A - K) X mem)
      | BPF_S_ALU_MUL_X \<Rightarrow> Some (Next 0 (A * X) X mem)
      | BPF_S_ALU_MUL_K \<Rightarrow> Some (Next 0 (A * K) X mem)
      | BPF_S_ALU_DIV_X \<Rightarrow> Some (if X = 0 then Ret 0 else Next 0 (A div X) X mem)
      | BPF_S_ALU_DIV_K \<Rightarrow> Some (Next 0 (reciprocal_divide A K) X mem)
      | BPF_S_ALU_AND_X \<Rightarrow> Some (Next 0 (A AND X) X mem)
      | BPF_S_ALU_AND_K \<Rightarrow> Some (Next 0 (A AND K) X mem)
      | BPF_S_ALU_OR_X \<Rightarrow> Some (Next 0 (A OR X) X mem)
      | BPF_S_ALU_OR_K \<Rightarrow> Some (Next 0 (A OR K) X mem)
      | BPF_S_ALU_LSH_X \<Rightarrow> Some (lsh X)
      | BPF_S_ALU_LSH_K \<Rightarrow> Some (lsh K)
      | BPF_S_ALU_RSH_X \<Rightarrow> Some (rsh X)
      | BPF_S_ALU_RSH_K \<Rightarrow> Some (rsh K)
      | BPF_S_ALU_NEG \<Rightarrow> Some (Next 0 (- A) X mem)
      | _ \<Rightarrow> None)"

definition bpf_jmp :: "bpf_s sock_filter \<Rightarrow> u32 \<Rightarrow> u32 \<Rightarrow> bpf_mem \<Rightarrow> bpf_step option" where
  "bpf_jmp f A X mem =
     (let K = sf_k f;
          br = (\<lambda>b. Some (Next (unat (if b then sf_jt f else sf_jf f)) A X mem))
      in case sf_code f of
        BPF_S_JMP_JA \<Rightarrow> Some (Next (unat K) A X mem)
      | BPF_S_JMP_JGT_K \<Rightarrow> br (K < A)
      | BPF_S_JMP_JGE_K \<Rightarrow> br (K \<le> A)
      | BPF_S_JMP_JEQ_K \<Rightarrow> br (A = K)
      | BPF_S_JMP_JSET_K \<Rightarrow> br (A AND K \<noteq> 0)
      | BPF_S_JMP_JGT_X \<Rightarrow> br (X < A)
      | BPF_S_JMP_JGE_X \<Rightarrow> br (X \<le> A)
      | BPF_S_JMP_JEQ_X \<Rightarrow> br (A = X)
      | BPF_S_JMP_JSET_X \<Rightarrow> br (A AND X \<noteq> 0)
      | _ \<Rightarrow> None)"

definition load_A :: "sk_buff \<Rightarrow> u32 \<Rightarrow> nat \<Rightarrow> u32 \<Rightarrow> bpf_mem \<Rightarrow> bpf_step" where
  "load_A skb k sz X mem =
     (case load_pointer skb k sz of
        Val bs \<Rightarrow> Next 0 (get_unaligned_be bs) X mem
      | Null \<Rightarrow> Ret 0
      | Oob \<Rightarrow> Fault Skb_Oob)"

definition bpf_load ::
  "sk_buff \<Rightarrow> bpf_s \<Rightarrow> u32 \<Rightarrow> u32 \<Rightarrow> u32 \<Rightarrow> bpf_mem \<Rightarrow> bpf_step option" where
  "bpf_load skb c K A X mem =
     (case c of
        BPF_S_LD_W_ABS \<Rightarrow> Some (load_A skb K 4 X mem)
      | BPF_S_LD_H_ABS \<Rightarrow> Some (load_A skb K 2 X mem)
      | BPF_S_LD_B_ABS \<Rightarrow> Some (load_A skb K 1 X mem)
      | BPF_S_LD_W_LEN \<Rightarrow> Some (Next 0 (skb_len skb) X mem)
      | BPF_S_LDX_W_LEN \<Rightarrow> Some (Next 0 A (skb_len skb) mem)
      | BPF_S_LD_W_IND \<Rightarrow> Some (load_A skb (X + K) 4 X mem)
      | BPF_S_LD_H_IND \<Rightarrow> Some (load_A skb (X + K) 2 X mem)
      | BPF_S_LD_B_IND \<Rightarrow> Some (load_A skb (X + K) 1 X mem)
      | BPF_S_LDX_B_MSH \<Rightarrow> Some (case load_pointer skb K 1 of
            Val bs \<Rightarrow> Next 0 A (push_bit 2 (get_unaligned_be bs AND 0xf)) mem
          | Null \<Rightarrow> Ret 0
          | Oob \<Rightarrow> Fault Skb_Oob)
      | BPF_S_LD_IMM \<Rightarrow> Some (Next 0 K X mem)
      | BPF_S_LDX_IMM \<Rightarrow> Some (Next 0 A K mem)
      | _ \<Rightarrow> None)"

definition read_mem :: "bpf_mem \<Rightarrow> u32 \<Rightarrow> (u32 \<Rightarrow> bpf_step) \<Rightarrow> bpf_step" where
  "read_mem mem K cont =
     (if unat K < length mem then (case mem ! unat K of Some v \<Rightarrow> cont v | None \<Rightarrow> Fault Mem_Uninit)
      else Fault Mem_Oob)"

definition write_mem :: "bpf_mem \<Rightarrow> u32 \<Rightarrow> u32 \<Rightarrow> (bpf_mem \<Rightarrow> bpf_step) \<Rightarrow> bpf_step" where
  "write_mem mem K v cont =
     (if unat K < length mem then cont (mem[unat K := Some v]) else Fault Mem_Oob)"

definition bpf_misc :: "bpf_s \<Rightarrow> u32 \<Rightarrow> u32 \<Rightarrow> u32 \<Rightarrow> bpf_mem \<Rightarrow> bpf_step option" where
  "bpf_misc c K A X mem =
     (case c of
        BPF_S_LD_MEM \<Rightarrow> Some (read_mem mem K (\<lambda>v. Next 0 v X mem))
      | BPF_S_LDX_MEM \<Rightarrow> Some (read_mem mem K (\<lambda>v. Next 0 A v mem))
      | BPF_S_MISC_TAX \<Rightarrow> Some (Next 0 A A mem)
      | BPF_S_MISC_TXA \<Rightarrow> Some (Next 0 X X mem)
      | BPF_S_RET_K \<Rightarrow> Some (Ret K)
      | BPF_S_RET_A \<Rightarrow> Some (Ret A)
      | BPF_S_ST \<Rightarrow> Some (write_mem mem K A (Next 0 A X))
      | BPF_S_STX \<Rightarrow> Some (write_mem mem K X (Next 0 A X))
      | _ \<Rightarrow> None)"

text \<open>Netlink attributes in the linear area: \<open>a\<close> is the address of the header, \<open>remaining\<close>
  the bytes left in the attribute stream.\<close>

definition get_u16 :: "u8 list \<Rightarrow> int \<Rightarrow> u16 load" where
  "get_u16 lin a =
     (case read_at lin a 2 of
        Val bs \<Rightarrow> Val (ucast (bs ! 0) OR push_bit 8 (ucast (bs ! 1)))
      | Null \<Rightarrow> Null
      | Oob \<Rightarrow> Oob)"

definition NLA_HDRLEN :: int where "NLA_HDRLEN = 4"

definition NLA_ALIGN :: "int \<Rightarrow> int" where
  "NLA_ALIGN len = (len + 3) AND NOT 3"

definition nla_type :: "u8 list \<Rightarrow> int \<Rightarrow> int load" where
  "nla_type lin a = (case get_u16 lin (a + 2) of Val t \<Rightarrow> Val (uint (t AND 0x3fff)) | Null \<Rightarrow> Null | Oob \<Rightarrow> Oob)"

lemma NLA_ALIGN_ge: "len \<le> NLA_ALIGN len"
proof -
  have "NLA_ALIGN len = len + 3 - (len + 3) mod 4"
    using and_not_mask_int [of "len + 3" 2] by (simp add: NLA_ALIGN_def mask_eq_exp_minus_1)
  moreover have "(len + 3) mod 4 \<le> 3"
    using pos_mod_bound [of 4 "len + 3"] by simp
  ultimately show ?thesis by linarith
qed

function nla_find :: "u8 list \<Rightarrow> int \<Rightarrow> int \<Rightarrow> int \<Rightarrow> int option load" where
  "nla_find lin a remaining attrtype =
     (if remaining < 4 then Val None
      else case get_u16 lin a of
        Val len \<Rightarrow>
          if 4 \<le> len \<and> uint len \<le> remaining then
            (case nla_type lin a of
               Val t \<Rightarrow> if t = attrtype then Val (Some a)
                        else nla_find lin (a + NLA_ALIGN (uint len)) (remaining - NLA_ALIGN (uint len)) attrtype
             | Null \<Rightarrow> Null
             | Oob \<Rightarrow> Oob)
          else Val None
      | Null \<Rightarrow> Null
      | Oob \<Rightarrow> Oob)"
  by pat_completeness auto
termination
proof (relation "measure (\<lambda>(lin, a, remaining, attrtype). nat remaining)", goal_cases)
  case 1
  show ?case by simp
next
  case (2 lin a remaining attrtype len t)
  from 2 have "4 \<le> uint len"
    by (simp add: word_le_def)
  with NLA_ALIGN_ge [of "uint len"] 2(1) show ?case by simp
qed

declare nla_find.simps [simp del]


definition bpf_anc ::
  "sk_buff \<Rightarrow> skb_anc \<Rightarrow> bpf_s \<Rightarrow> u32 \<Rightarrow> u32 \<Rightarrow> bpf_mem \<Rightarrow> bpf_step option" where
  "bpf_anc skb anc c A X mem =
     (case c of
        BPF_S_ANC_PROTOCOL \<Rightarrow> Some (Next 0 (ucast (ntohs (anc_protocol anc))) X mem)
      | BPF_S_ANC_PKTTYPE \<Rightarrow> Some (Next 0 (ucast (anc_pkt_type anc)) X mem)
      | BPF_S_ANC_IFINDEX \<Rightarrow> Some (case anc_dev anc of
            None \<Rightarrow> Ret 0 | Some (ifindex, _) \<Rightarrow> Next 0 ifindex X mem)
      | BPF_S_ANC_MARK \<Rightarrow> Some (Next 0 (anc_mark anc) X mem)
      | BPF_S_ANC_QUEUE \<Rightarrow> Some (Next 0 (ucast (anc_queue_mapping anc)) X mem)
      | BPF_S_ANC_HATYPE \<Rightarrow> Some (case anc_dev anc of
            None \<Rightarrow> Ret 0 | Some (_, hatype) \<Rightarrow> Next 0 (ucast hatype) X mem)
      | BPF_S_ANC_RXHASH \<Rightarrow> Some (Next 0 (anc_rxhash anc) X mem)
      | BPF_S_ANC_CPU \<Rightarrow> Some (Next 0 (anc_cpu anc) X mem)
      | _ \<Rightarrow> None)"

definition bpf_nlattr :: "sk_buff \<Rightarrow> bpf_s \<Rightarrow> u32 \<Rightarrow> u32 \<Rightarrow> bpf_mem \<Rightarrow> bpf_step option" where
  "bpf_nlattr skb c A X mem =
     (let base = int (skb_data skb);
          found = (\<lambda>r. case r of
              Val (Some a) \<Rightarrow> Next 0 (word_of_int (a - base)) X mem
            | Val None \<Rightarrow> Next 0 0 X mem
            | Null \<Rightarrow> Next 0 0 X mem
            | Oob \<Rightarrow> Fault Skb_Oob)
      in case c of
        BPF_S_ANC_NLATTR \<Rightarrow> Some (
          if skb_is_nonlinear skb then Ret 0
          else if skb_len skb - 4 < A then Ret 0
          else found (nla_find (skb_lin skb) (base + uint A) (sint (skb_len skb - A)) (sint X)))
      | BPF_S_ANC_NLATTR_NEST \<Rightarrow> Some (
          if skb_is_nonlinear skb then Ret 0
          else if skb_len skb - 4 < A then Ret 0
          else case get_u16 (skb_lin skb) (base + uint A) of
            Val len \<Rightarrow>
              if A - skb_len skb < ucast len then Ret 0
              else found (nla_find (skb_lin skb) (base + uint A + NLA_HDRLEN)
                     (uint len - NLA_HDRLEN) (sint X))
          | Null \<Rightarrow> Ret 0
          | Oob \<Rightarrow> Fault Skb_Oob)
      | _ \<Rightarrow> None)"

text \<open>One turn of the interpreter loop: the switch over the code, group by group; the
  remaining value is the \<^verbatim>\<open>default\<close> branch.\<close>

definition bpf_step ::
  "sk_buff \<Rightarrow> skb_anc \<Rightarrow> bpf_s sock_filter \<Rightarrow> u32 \<Rightarrow> u32 \<Rightarrow> bpf_mem \<Rightarrow> bpf_step" where
  "bpf_step skb anc f A X mem =
     (case bpf_alu (sf_code f) (sf_k f) A X mem of Some r \<Rightarrow> r | None \<Rightarrow>
      case bpf_jmp f A X mem of Some r \<Rightarrow> r | None \<Rightarrow>
      case bpf_load skb (sf_code f) (sf_k f) A X mem of Some r \<Rightarrow> r | None \<Rightarrow>
      case bpf_misc (sf_code f) (sf_k f) A X mem of Some r \<Rightarrow> r | None \<Rightarrow>
      case bpf_anc skb anc (sf_code f) A X mem of Some r \<Rightarrow> r | None \<Rightarrow>
      case bpf_nlattr skb (sf_code f) A X mem of Some r \<Rightarrow> r | None \<Rightarrow> Ret 0)"

datatype bpf_result = Return u32 | Crash bpf_fault

function run_filter_from ::
  "sk_buff \<Rightarrow> skb_anc \<Rightarrow> bpf_s sock_filter list \<Rightarrow> nat \<Rightarrow> u32 \<Rightarrow> u32 \<Rightarrow> bpf_mem \<Rightarrow> bpf_result" where
  "run_filter_from skb anc prog pc A X mem =
     (if pc < length prog then
        case bpf_step skb anc (prog ! pc) A X mem of
          Next off A' X' mem' \<Rightarrow> run_filter_from skb anc prog (pc + off + 1) A' X' mem'
        | Ret r \<Rightarrow> Return r
        | Fault e \<Rightarrow> Crash e
      else Crash Pc_Oob)"
  by pat_completeness auto
termination
  by (relation "measure (\<lambda>(skb, anc, prog, pc, A, X, mem). length prog - pc)") auto

declare run_filter_from.simps [simp del]

definition sk_run_filter :: "sk_buff \<Rightarrow> skb_anc \<Rightarrow> bpf_s sock_filter list \<Rightarrow> bpf_result" where
  "sk_run_filter skb anc prog = run_filter_from skb anc prog 0 0 0 (replicate BPF_MEMWORDS None)"

section \<open>Lemmas on the checker\<close>

text \<open>What the structural pass guarantees for the instruction stored at \<open>pc\<close>.\<close>

abbreviation cond_jumps :: "bpf_s set" where
  "cond_jumps \<equiv> {BPF_S_JMP_JEQ_K, BPF_S_JMP_JEQ_X, BPF_S_JMP_JGE_K, BPF_S_JMP_JGE_X,
                 BPF_S_JMP_JGT_K, BPF_S_JMP_JGT_X, BPF_S_JMP_JSET_X, BPF_S_JMP_JSET_K}"

definition insn_ok :: "nat \<Rightarrow> nat \<Rightarrow> bpf_s sock_filter \<Rightarrow> bool" where
  "insn_ok flen pc f \<longleftrightarrow>
     (sf_code f \<in> {BPF_S_LD_MEM, BPF_S_LDX_MEM, BPF_S_ST, BPF_S_STX} \<longrightarrow> unat (sf_k f) < BPF_MEMWORDS)
   \<and> (sf_code f = BPF_S_JMP_JA \<longrightarrow> pc + 1 + unat (sf_k f) < flen)
   \<and> (sf_code f \<in> cond_jumps \<longrightarrow> pc + 1 + unat (sf_jt f) < flen \<and> pc + 1 + unat (sf_jf f) < flen)"

lemma ancillary_cases:
  "ancillary k c = c \<or> ancillary k c \<notin> {BPF_S_LD_MEM, BPF_S_LDX_MEM, BPF_S_ST, BPF_S_STX, BPF_S_JMP_JA}
     \<and> ancillary k c \<notin> cond_jumps"
  by (simp add: ancillary_def)

lemma chk_insn_ok:
  assumes "chk_insn flen pc f = Inr g" "pc < flen" "flen \<le> BPF_MAXINSNS"
  shows "insn_ok flen pc g"
proof -
  have ja: "\<not> word_of_nat (flen - pc - 1) \<le> sf_k f \<longleftrightarrow> unat (sf_k f) < flen - pc - 1"
  proof -
    have "unat (word_of_nat (flen - pc - 1) :: u32) = flen - pc - 1"
      using assms(3) by (simp only: unat_of_nat) (simp add: BPF_MAXINSNS_def take_bit_nat_eq_self)
    then show ?thesis by (simp only: word_le_nat_alt not_le)
  qed
  from assms(1) obtain c where c: "map_of codes (sf_code f) = Some c"
    by (auto simp: chk_insn_def split: if_splits option.splits)
  note unfolded = assms(1) [symmetric, unfolded chk_insn_def c option.case Let_def]
  show ?thesis
  proof (cases "c \<in> {BPF_S_LD_W_ABS, BPF_S_LD_H_ABS, BPF_S_LD_B_ABS}")
    case True
    then show ?thesis
      using unfolded ancillary_cases [of "sf_k f" c] by (auto simp: insn_ok_def split: if_splits)
  next
    case False
    with unfolded ja show ?thesis
      by (cases c; simp add: insn_ok_def less_diff_conv split: if_splits)
  qed
qed

definition plain :: "bpf_s \<Rightarrow> bool" where
  "plain c \<longleftrightarrow> c \<notin> {BPF_S_LD_MEM, BPF_S_LDX_MEM, BPF_S_ST, BPF_S_STX, BPF_S_JMP_JA} \<and> c \<notin> cond_jumps"

lemma bpf_alu_Some:
  assumes "bpf_alu c K A X mem = Some r"
  shows "plain c \<and> ((\<exists>A'. r = Next 0 A' X mem) \<or> r = Ret 0 \<or> r = Fault Shift_Ub)"
  using assms by (cases c; simp add: bpf_alu_def plain_def split: if_splits; blast)

lemma bpf_jmp_Some:
  assumes "bpf_jmp f A X mem = Some r"
  shows "(sf_code f = BPF_S_JMP_JA \<and> r = Next (unat (sf_k f)) A X mem) \<or>
    (sf_code f \<in> cond_jumps \<and> (r = Next (unat (sf_jt f)) A X mem \<or> r = Next (unat (sf_jf f)) A X mem))"
  using assms by (cases "sf_code f"; simp add: bpf_jmp_def split: if_splits)

lemma bpf_load_Some:
  assumes "bpf_load skb c K A X mem = Some r"
  shows "plain c \<and> ((\<exists>A' X'. r = Next 0 A' X' mem) \<or> r = Ret 0 \<or> r = Fault Skb_Oob)"
  using assms by (cases c; simp add: bpf_load_def load_A_def plain_def split: load.splits; blast)

lemma bpf_misc_Some:
  assumes "bpf_misc c K A X mem = Some r"
  shows "c \<in> {BPF_S_LD_MEM, BPF_S_LDX_MEM} \<and>
      (r = read_mem mem K (\<lambda>v. Next 0 v X mem) \<or> r = read_mem mem K (\<lambda>v. Next 0 A v mem)) \<or>
    c \<in> {BPF_S_ST, BPF_S_STX} \<and>
      (r = write_mem mem K A (Next 0 A X) \<or> r = write_mem mem K X (Next 0 A X)) \<or>
    plain c \<and> ((\<exists>A' X'. r = Next 0 A' X' mem) \<or> (\<exists>v. r = Ret v))"
  using assms by (cases c; simp add: bpf_misc_def plain_def) blast+

lemma bpf_anc_Some:
  assumes "bpf_anc skb anc c A X mem = Some r"
  shows "plain c \<and> ((\<exists>A'. r = Next 0 A' X mem) \<or> r = Ret 0)"
  using assms by (cases c; simp add: bpf_anc_def plain_def split: option.splits prod.splits; blast)

lemma bpf_nlattr_Some:
  assumes "bpf_nlattr skb c A X mem = Some r"
  shows "plain c \<and> ((\<exists>A'. r = Next 0 A' X mem) \<or> r = Ret 0 \<or> r = Fault Skb_Oob)"
  using assms
  by (cases c; simp add: bpf_nlattr_def plain_def Let_def split: if_splits load.splits option.splits; blast)

text \<open>The effect of one turn of the loop on the program counter and the scratch memory.\<close>

lemma bpf_step_cases:
  assumes "insn_ok flen pc f" "length mem = BPF_MEMWORDS"
  obtains (plain) off A' X' where "plain (sf_code f)" "off = 0" "bpf_step skb anc f A X mem = Next off A' X' mem"
  | (jump) off where "sf_code f = BPF_S_JMP_JA \<and> off = unat (sf_k f) \<or>
        sf_code f \<in> cond_jumps \<and> (off = unat (sf_jt f) \<or> off = unat (sf_jf f))"
      "bpf_step skb anc f A X mem = Next off A X mem"
  | (store) v where "sf_code f \<in> {BPF_S_ST, BPF_S_STX}"
      "bpf_step skb anc f A X mem = Next 0 A X (mem[unat (sf_k f) := Some v])"
  | (load) A' X' where "sf_code f \<in> {BPF_S_LD_MEM, BPF_S_LDX_MEM}" "mem ! unat (sf_k f) \<noteq> None"
      "bpf_step skb anc f A X mem = Next 0 A' X' mem"
  | (uninit) "sf_code f \<in> {BPF_S_LD_MEM, BPF_S_LDX_MEM}" "mem ! unat (sf_k f) = None"
      "bpf_step skb anc f A X mem = Fault Mem_Uninit"
  | (ret) r where "bpf_step skb anc f A X mem = Ret r"
  | (fault) e where "e = Shift_Ub \<or> e = Skb_Oob" "bpf_step skb anc f A X mem = Fault e"
proof -
  let ?c = "sf_code f" and ?K = "sf_k f"
  have mem: "unat ?K < length mem" if "?c \<in> {BPF_S_LD_MEM, BPF_S_LDX_MEM} \<or> ?c \<in> {BPF_S_ST, BPF_S_STX}"
    using assms that by (auto simp: insn_ok_def)
  show thesis
  proof (cases "bpf_alu ?c ?K A X mem")
    case (Some r)
    then show thesis using bpf_alu_Some [OF Some] plain fault ret by (auto simp: bpf_step_def)
  next
    case alu: None
    show thesis
    proof (cases "bpf_jmp f A X mem")
      case (Some r)
      then show thesis using bpf_jmp_Some [OF Some] alu jump by (auto simp: bpf_step_def)
    next
      case jmp: None
      show thesis
      proof (cases "bpf_load skb ?c ?K A X mem")
        case (Some r)
        then show thesis using bpf_load_Some [OF Some] alu jmp plain fault ret by (auto simp: bpf_step_def)
      next
        case ld: None
        show thesis
        proof (cases "bpf_misc ?c ?K A X mem")
          case (Some r)
          then have "bpf_step skb anc f A X mem = r" using alu jmp ld by (simp add: bpf_step_def)
          then show thesis
            using bpf_misc_Some [OF Some] mem plain store load uninit ret
            by (auto simp: read_mem_def write_mem_def split: option.splits)
        next
          case misc: None
          show thesis
          proof (cases "bpf_anc skb anc ?c A X mem")
            case (Some r)
            then show thesis using bpf_anc_Some [OF Some] alu jmp ld misc plain ret by (auto simp: bpf_step_def)
          next
            case anc: None
            show thesis
            proof (cases "bpf_nlattr skb ?c A X mem")
              case (Some r)
              then show thesis
                using bpf_nlattr_Some [OF Some] alu jmp ld misc anc plain fault ret by (auto simp: bpf_step_def)
            next
              case None
              then show thesis using alu jmp ld misc anc ret by (auto simp: bpf_step_def)
            qed
          qed
        qed
      qed
    qed
  qed
qed

lemma bpf_step_ret:
  "sf_code f = BPF_S_RET_K \<or> sf_code f = BPF_S_RET_A \<Longrightarrow> \<exists>r. bpf_step skb anc f A X mem = Ret r"
  by (elim disjE) (simp_all add: bpf_step_def bpf_alu_def bpf_jmp_def bpf_load_def bpf_misc_def)

lemma mask_bit_zero: "m AND push_bit n 1 = 0 \<longleftrightarrow> \<not> bit m n" for m :: u16
  by (simp add: push_bit_eq_mult and_exp_eq_0_iff_not_bit)

definition valid_cells :: "u16 \<Rightarrow> bpf_mem \<Rightarrow> bool" where
  "valid_cells m mem \<longleftrightarrow> (\<forall>i < BPF_MEMWORDS. bit m i \<longrightarrow> mem ! i \<noteq> None)"

lemma valid_cells_and1: "valid_cells m mem \<Longrightarrow> valid_cells (m AND n) mem"
  by (simp add: valid_cells_def bit_simps)

lemma valid_cells_and2: "valid_cells n mem \<Longrightarrow> valid_cells (m AND n) mem"
  by (simp add: valid_cells_def bit_simps)

lemma valid_cells_store:
  "\<lbrakk>valid_cells m mem; length mem = BPF_MEMWORDS; n < BPF_MEMWORDS\<rbrakk> \<Longrightarrow>
   valid_cells (m OR push_bit n 1) (mem[n := Some v])"
  by (auto simp: valid_cells_def bit_simps nth_list_update)

text \<open>The checking loop by groups of instructions.\<close>

lemma check_loop_end: "\<not> pc < length prog \<Longrightarrow> check_load_and_stores_loop prog pc masks mv = Some (Inr ())"
  by (subst check_load_and_stores_loop.simps) simp

lemma check_loop_store:
  "\<lbrakk>pc < length prog; sf_code (prog ! pc) \<in> {BPF_S_ST, BPF_S_STX}\<rbrakk> \<Longrightarrow>
   check_load_and_stores_loop prog pc masks mv =
     check_load_and_stores_loop prog (Suc pc) masks
       ((mv AND masks ! pc) OR push_bit (unat (sf_k (prog ! pc))) 1)"
  by (subst check_load_and_stores_loop.simps) (simp only: Let_def if_True)

lemma check_loop_load:
  assumes "pc < length prog" "sf_code (prog ! pc) \<in> {BPF_S_LD_MEM, BPF_S_LDX_MEM}"
  shows "check_load_and_stores_loop prog pc masks mv =
     (if \<not> bit (mv AND masks ! pc) (unat (sf_k (prog ! pc))) then Some (Inl EINVAL)
      else check_load_and_stores_loop prog (Suc pc) masks (mv AND masks ! pc))"
proof -
  from assms(2) have "sf_code (prog ! pc) \<notin> {BPF_S_ST, BPF_S_STX}" by auto
  with assms show ?thesis
    by (subst check_load_and_stores_loop.simps) (simp only: Let_def if_True if_False mask_bit_zero)
qed

lemma check_loop_ja:
  assumes "pc < length prog" "sf_code (prog ! pc) = BPF_S_JMP_JA"
    and "t = pc + 1 + unat (sf_k (prog ! pc))" "t < length masks"
  shows "check_load_and_stores_loop prog pc masks mv =
     check_load_and_stores_loop prog (Suc pc) (masks[t := masks ! t AND (mv AND masks ! pc)]) (NOT 0)"
proof -
  from assms(2) have "sf_code (prog ! pc) \<notin> {BPF_S_ST, BPF_S_STX}"
      "sf_code (prog ! pc) \<notin> {BPF_S_LD_MEM, BPF_S_LDX_MEM}" by simp_all
  with assms show ?thesis
    by (subst check_load_and_stores_loop.simps) (simp only: Let_def if_True if_False simp_thms)
qed

lemma check_loop_cond:
  assumes "pc < length prog" "sf_code (prog ! pc) \<in> cond_jumps"
    and "t = pc + 1 + unat (sf_jt (prog ! pc))" "u = pc + 1 + unat (sf_jf (prog ! pc))"
    and "t < length masks" "u < length masks" "m = mv AND masks ! pc" "masks' = masks[t := masks ! t AND m]"
  shows "check_load_and_stores_loop prog pc masks mv =
     check_load_and_stores_loop prog (Suc pc) (masks'[u := masks' ! u AND m]) (NOT 0)"
proof -
  from assms(2) have "sf_code (prog ! pc) \<notin> {BPF_S_ST, BPF_S_STX}"
      "sf_code (prog ! pc) \<notin> {BPF_S_LD_MEM, BPF_S_LDX_MEM}" "sf_code (prog ! pc) \<noteq> BPF_S_JMP_JA"
    by auto
  with assms show ?thesis
    by (subst check_load_and_stores_loop.simps) (simp only: Let_def if_True if_False simp_thms)
qed

lemma check_loop_plain:
  assumes "pc < length prog" "plain (sf_code (prog ! pc))"
  shows "check_load_and_stores_loop prog pc masks mv =
     check_load_and_stores_loop prog (Suc pc) masks (mv AND masks ! pc)"
proof -
  from assms(2) have "sf_code (prog ! pc) \<notin> {BPF_S_ST, BPF_S_STX}" "sf_code (prog ! pc) \<noteq> BPF_S_JMP_JA"
      "sf_code (prog ! pc) \<notin> {BPF_S_LD_MEM, BPF_S_LDX_MEM}" "sf_code (prog ! pc) \<notin> cond_jumps"
    by (auto simp: plain_def)
  with assms(1) show ?thesis
    by (subst check_load_and_stores_loop.simps) (simp only: Let_def if_True if_False)
qed

lemma insn_groups:
  fixes f :: "bpf_s sock_filter"
  obtains "sf_code f \<in> {BPF_S_ST, BPF_S_STX}" | "sf_code f \<in> {BPF_S_LD_MEM, BPF_S_LDX_MEM}"
  | "sf_code f = BPF_S_JMP_JA" | "sf_code f \<in> cond_jumps" | "plain (sf_code f)"
  unfolding plain_def by blast

lemma check_loop_in_bounds:
  assumes "\<And>i. i < length prog \<Longrightarrow> insn_ok (length prog) i (prog ! i)" "length masks = length prog"
  shows "check_load_and_stores_loop prog pc masks mv \<noteq> None"
  using assms(2)
proof (induction "length prog - pc" arbitrary: pc masks mv)
  case 0
  then show ?case by (simp add: check_loop_end)
next
  case (Suc n)
  then have pc: "pc < length prog" and n: "n = length prog - Suc pc" by auto
  note IH = Suc.hyps(1) [OF n]
  from assms(1) [OF pc] have ok: "insn_ok (length prog) pc (prog ! pc)" .
  show ?case
  proof (cases rule: insn_groups [of "prog ! pc"])
    case 1
    with pc IH Suc.prems show ?thesis by (simp only: check_loop_store) simp
  next
    case 2
    with pc IH Suc.prems show ?thesis by (simp only: check_loop_load) simp
  next
    case 3
    then show ?thesis
      using ok Suc.prems IH pc by (subst check_loop_ja [OF pc 3 refl]) (simp_all add: insn_ok_def)
  next
    case 4
    then show ?thesis
      using ok Suc.prems IH pc by (subst check_loop_cond [OF pc 4 refl refl _ _ refl refl]) (simp_all only: insn_ok_def length_list_update, auto)
  next
    case 5
    with pc IH Suc.prems show ?thesis by (simp only: check_loop_plain) simp
  qed
qed

text \<open>
  The analysis state after the turn for \<open>pc\<close> is weaker at every later instruction, and it
  covers what the instruction itself does to the scratch memory.
\<close>

definition turn_ok :: "bpf_s sock_filter list \<Rightarrow> nat \<Rightarrow> u16 list \<Rightarrow> u16 \<Rightarrow> u16 list \<Rightarrow> u16 \<Rightarrow> bool" where
  "turn_ok prog pc masks m masks' mv' \<longleftrightarrow>
     (\<forall>i mem. valid_cells (masks ! i) mem \<longrightarrow> valid_cells (masks' ! i) mem)
   \<and> (\<forall>skb anc A X mem. valid_cells m mem \<longrightarrow> length mem = BPF_MEMWORDS \<longrightarrow>
        (case bpf_step skb anc (prog ! pc) A X mem of
           Next off A' X' mem' \<Rightarrow>
             (off = 0 \<longrightarrow> valid_cells mv' mem' \<or> valid_cells (masks' ! Suc pc) mem')
           \<and> (0 < off \<longrightarrow> valid_cells (masks' ! (pc + off + 1)) mem')
           \<and> (0 < off \<longrightarrow> pc + off + 1 < length prog)
           \<and> length mem' = BPF_MEMWORDS
         | Ret r \<Rightarrow> True
         | Fault e \<Rightarrow> e = Shift_Ub \<or> e = Skb_Oob))"

lemma valid_cells_update_and:
  "valid_cells (masks ! i) mem \<Longrightarrow> valid_cells (masks[t := masks ! t AND m] ! i) mem"
  by (cases "t < length masks") (auto simp: nth_list_update list_update_beyond intro: valid_cells_and1)

lemma turn_jump:
  assumes ok: "insn_ok (length prog) pc (prog ! pc)"
    and jump: "sf_code (prog ! pc) = BPF_S_JMP_JA \<or> sf_code (prog ! pc) \<in> cond_jumps"
    and weaker: "\<And>i mem. valid_cells (masks ! i) mem \<Longrightarrow> valid_cells (masks' ! i) mem"
    and targets: "\<And>off mem. sf_code (prog ! pc) = BPF_S_JMP_JA \<and> off = unat (sf_k (prog ! pc)) \<or>
        sf_code (prog ! pc) \<in> cond_jumps \<and> (off = unat (sf_jt (prog ! pc)) \<or> off = unat (sf_jf (prog ! pc))) \<Longrightarrow>
        valid_cells m mem \<Longrightarrow> valid_cells (masks' ! (pc + off + 1)) mem"
  shows "turn_ok prog pc masks m masks' mv'"
  unfolding turn_ok_def
proof (intro conjI allI impI)
  fix skb anc A X and mem :: bpf_mem
  assume mem: "valid_cells m mem" "length mem = BPF_MEMWORDS"
  show "case bpf_step skb anc (prog ! pc) A X mem of
           Next off A' X' mem' \<Rightarrow>
             (off = 0 \<longrightarrow> valid_cells mv' mem' \<or> valid_cells (masks' ! Suc pc) mem')
           \<and> (0 < off \<longrightarrow> valid_cells (masks' ! (pc + off + 1)) mem')
           \<and> (0 < off \<longrightarrow> pc + off + 1 < length prog)
           \<and> length mem' = BPF_MEMWORDS
         | Ret r \<Rightarrow> True
         | Fault e \<Rightarrow> e = Shift_Ub \<or> e = Skb_Oob"
    using ok mem(2)
  proof (cases rule: bpf_step_cases [where skb = skb and anc = anc and A = A and X = X])
    case (jump off)
    have "valid_cells (masks' ! (pc + off + 1)) mem"
      by (rule targets [OF jump(1) mem(1)])
    moreover have "pc + off + 1 < length prog"
      using jump(1) ok by (auto simp: insn_ok_def)
    ultimately show ?thesis using jump mem(2) by (auto simp: plain_def)
  qed (use jump in \<open>auto simp: plain_def\<close>)
qed (rule weaker)

lemma turn_straight:
  assumes ok: "insn_ok (length prog) pc (prog ! pc)"
    and code: "\<not> (sf_code (prog ! pc) = BPF_S_JMP_JA \<or> sf_code (prog ! pc) \<in> cond_jumps)"
    and store: "\<And>mem v. \<lbrakk>sf_code (prog ! pc) \<in> {BPF_S_ST, BPF_S_STX}; valid_cells m mem;
        length mem = BPF_MEMWORDS\<rbrakk> \<Longrightarrow> valid_cells mv' (mem[unat (sf_k (prog ! pc)) := Some v])"
    and load: "sf_code (prog ! pc) \<in> {BPF_S_LD_MEM, BPF_S_LDX_MEM} \<Longrightarrow> bit m (unat (sf_k (prog ! pc)))"
    and keep: "sf_code (prog ! pc) \<notin> {BPF_S_ST, BPF_S_STX} \<Longrightarrow> mv' = m"
  shows "turn_ok prog pc masks m masks mv'"
  unfolding turn_ok_def
proof (intro conjI allI impI)
  fix skb anc A X and mem :: bpf_mem
  assume mem: "valid_cells m mem" "length mem = BPF_MEMWORDS"
  show "case bpf_step skb anc (prog ! pc) A X mem of
           Next off A' X' mem' \<Rightarrow>
             (off = 0 \<longrightarrow> valid_cells mv' mem' \<or> valid_cells (masks ! Suc pc) mem')
           \<and> (0 < off \<longrightarrow> valid_cells (masks ! (pc + off + 1)) mem')
           \<and> (0 < off \<longrightarrow> pc + off + 1 < length prog)
           \<and> length mem' = BPF_MEMWORDS
         | Ret r \<Rightarrow> True
         | Fault e \<Rightarrow> e = Shift_Ub \<or> e = Skb_Oob"
    using ok mem(2)
  proof (cases rule: bpf_step_cases [where skb = skb and anc = anc and A = A and X = X])
    case (plain off A' X')
    then have "mv' = m" by (intro keep) (auto simp: plain_def)
    with plain mem show ?thesis by simp
  next
    case (load A' X')
    then have "mv' = m" by (intro keep) auto
    with load mem show ?thesis by simp
  next
    case uninit
    then have "bit m (unat (sf_k (prog ! pc)))" "unat (sf_k (prog ! pc)) < BPF_MEMWORDS"
      using load ok by (auto simp: insn_ok_def)
    with mem(1) uninit show ?thesis by (auto simp: valid_cells_def)
  next
    case (jump off)
    with code show ?thesis by blast
  next
    case (store v)
    with assms(3) [OF store(1) mem] mem(2) show ?thesis by simp
  qed auto
qed auto

lemma check_turn:
  assumes loop: "check_load_and_stores_loop prog pc masks mv = Some (Inr ())"
    and pc: "pc < length prog" and ok: "insn_ok (length prog) pc (prog ! pc)"
    and len: "length masks = length prog"
  obtains masks' mv' where "check_load_and_stores_loop prog (Suc pc) masks' mv' = Some (Inr ())"
    "length masks' = length prog" "turn_ok prog pc masks (mv AND masks ! pc) masks' mv'"
proof (cases rule: insn_groups [of "prog ! pc"])
  case 1
  have "turn_ok prog pc masks (mv AND masks ! pc) masks
      ((mv AND masks ! pc) OR push_bit (unat (sf_k (prog ! pc))) 1)"
  proof (rule turn_straight [OF ok])
    show "\<not> (sf_code (prog ! pc) = BPF_S_JMP_JA \<or> sf_code (prog ! pc) \<in> cond_jumps)"
      using 1 by auto
    show "bit (mv AND masks ! pc) (unat (sf_k (prog ! pc)))"
      if "sf_code (prog ! pc) \<in> {BPF_S_LD_MEM, BPF_S_LDX_MEM}"
      using 1 that by auto
    have "unat (sf_k (prog ! pc)) < BPF_MEMWORDS" using 1 ok by (auto simp: insn_ok_def)
    then show "valid_cells ((mv AND masks ! pc) OR push_bit (unat (sf_k (prog ! pc))) 1)
        (mem[unat (sf_k (prog ! pc)) := Some v])"
      if "valid_cells (mv AND masks ! pc) mem" "length mem = BPF_MEMWORDS" for mem v
      using that by (intro valid_cells_store)
  qed (use 1 in blast)
  with loop len show thesis by (intro that) (simp_all only: check_loop_store [OF pc 1])
next
  case 2
  with loop have b: "bit (mv AND masks ! pc) (unat (sf_k (prog ! pc)))"
    by (simp only: check_loop_load [OF pc 2]) (auto split: if_splits)
  have "turn_ok prog pc masks (mv AND masks ! pc) masks (mv AND masks ! pc)"
    by (rule turn_straight [OF ok _ _ b refl]) (use 2 in auto)
  with loop len b show thesis by (intro that) (simp_all only: check_loop_load [OF pc 2] if_False simp_thms)
next
  case 3
  let ?t = "pc + 1 + unat (sf_k (prog ! pc))"
  have t: "?t < length masks" using ok 3 len by (simp add: insn_ok_def)
  have "turn_ok prog pc masks (mv AND masks ! pc) (masks[?t := masks ! ?t AND (mv AND masks ! pc)]) (NOT 0)"
  proof (rule turn_jump [OF ok])
    show "valid_cells (masks[?t := masks ! ?t AND (mv AND masks ! pc)] ! (pc + off + 1)) mem"
      if "sf_code (prog ! pc) = BPF_S_JMP_JA \<and> off = unat (sf_k (prog ! pc)) \<or>
        sf_code (prog ! pc) \<in> cond_jumps \<and> (off = unat (sf_jt (prog ! pc)) \<or> off = unat (sf_jf (prog ! pc)))"
        "valid_cells (mv AND masks ! pc) mem" for off mem
    proof -
      have "off = unat (sf_k (prog ! pc))" using that(1) 3 by auto
      then show ?thesis using t that(2) by (simp add: valid_cells_and2)
    qed
  qed (use 3 in \<open>blast intro: valid_cells_update_and\<close>)+
  with loop len show thesis by (intro that) (simp_all only: check_loop_ja [OF pc 3 refl t] length_list_update)
next
  case 4
  let ?m = "mv AND masks ! pc"
  let ?t = "pc + 1 + unat (sf_jt (prog ! pc))" and ?u = "pc + 1 + unat (sf_jf (prog ! pc))"
  let ?ms = "masks[?t := masks ! ?t AND ?m]"
  have t: "?t < length masks" "?u < length masks" using ok 4 len by (auto simp: insn_ok_def)
  have "turn_ok prog pc masks ?m (?ms[?u := ?ms ! ?u AND ?m]) (NOT 0)"
  proof (rule turn_jump [OF ok])
    fix off and mem :: bpf_mem
    assume off: "sf_code (prog ! pc) = BPF_S_JMP_JA \<and> off = unat (sf_k (prog ! pc)) \<or>
        sf_code (prog ! pc) \<in> cond_jumps \<and> (off = unat (sf_jt (prog ! pc)) \<or> off = unat (sf_jf (prog ! pc)))"
      and m: "valid_cells ?m mem"
    have "pc + off + 1 = ?t \<or> pc + off + 1 = ?u" using off 4 by auto
    moreover have "valid_cells (?ms ! ?t) mem"
      using t m by (simp add: valid_cells_and2)
    ultimately show "valid_cells (?ms[?u := ?ms ! ?u AND ?m] ! (pc + off + 1)) mem"
      using t m valid_cells_update_and [of ?ms ?t mem ?u ?m] by (auto simp: valid_cells_and2)
  qed (use 4 in \<open>blast intro: valid_cells_update_and\<close>)+
  with loop len show thesis
    by (intro that) (simp_all only: check_loop_cond [OF pc 4 refl refl t refl refl] length_list_update)
next
  case 5
  have "turn_ok prog pc masks (mv AND masks ! pc) masks (mv AND masks ! pc)"
    by (rule turn_straight [OF ok _ _ _ refl]) (use 5 in \<open>auto simp: plain_def\<close>)
  with loop len show thesis by (intro that) (simp_all only: check_loop_plain [OF pc 5])
qed

lemma chk_insns_ok:
  assumes "chk_insns flen pc fs = Inr gs" "pc + length fs \<le> flen" "flen \<le> BPF_MAXINSNS"
  shows "length gs = length fs \<and> (\<forall>i < length fs. insn_ok flen (pc + i) (gs ! i))"
  using assms
proof (induction fs arbitrary: pc gs)
  case Nil
  then show ?case by simp
next
  case (Cons f fs)
  from Cons.prems(1) obtain g gs' where g: "chk_insn flen pc f = Inr g"
      and gs': "chk_insns flen (Suc pc) fs = Inr gs'" and gs: "gs = g # gs'"
    by (auto split: sum.splits)
  have "insn_ok flen pc g"
    using chk_insn_ok [OF g] Cons.prems(2,3) by simp
  moreover have "length gs' = length fs \<and> (\<forall>i < length fs. insn_ok flen (Suc pc + i) (gs' ! i))"
    using Cons.IH [OF gs'] Cons.prems(2,3) by simp
  ultimately show ?case
    by (auto simp: gs nth_Cons split: nat.splits)
qed

definition ends_in_ret :: "bpf_s sock_filter list \<Rightarrow> bool" where
  "ends_in_ret prog \<longleftrightarrow> prog \<noteq> [] \<and> sf_code (last prog) \<in> {BPF_S_RET_K, BPF_S_RET_A}"

definition tame :: "bpf_result \<Rightarrow> bool" where
  "tame r \<longleftrightarrow> (\<exists>v. r = Return v) \<or> r = Crash Shift_Ub \<or> r = Crash Skb_Oob"

lemma turn_ok_step:
  assumes "turn_ok prog pc masks m masks' mv'" "valid_cells m mem" "length mem = BPF_MEMWORDS"
  shows "bpf_step skb anc (prog ! pc) A X mem = Next off A' X' mem' \<Longrightarrow>
      (off = 0 \<longrightarrow> valid_cells mv' mem' \<or> valid_cells (masks' ! Suc pc) mem')
    \<and> (0 < off \<longrightarrow> valid_cells (masks' ! (pc + off + 1)) mem' \<and> pc + off + 1 < length prog)
    \<and> length mem' = BPF_MEMWORDS"
    and "bpf_step skb anc (prog ! pc) A X mem = Fault e \<Longrightarrow> e = Shift_Ub \<or> e = Skb_Oob"
proof -
  from assms have "case bpf_step skb anc (prog ! pc) A X mem of
      Next off A' X' mem' \<Rightarrow>
        (off = 0 \<longrightarrow> valid_cells mv' mem' \<or> valid_cells (masks' ! Suc pc) mem')
      \<and> (0 < off \<longrightarrow> valid_cells (masks' ! (pc + off + 1)) mem')
      \<and> (0 < off \<longrightarrow> pc + off + 1 < length prog)
      \<and> length mem' = BPF_MEMWORDS
    | Ret r \<Rightarrow> True
    | Fault e \<Rightarrow> e = Shift_Ub \<or> e = Skb_Oob"
    unfolding turn_ok_def by blast
  then show "bpf_step skb anc (prog ! pc) A X mem = Next off A' X' mem' \<Longrightarrow>
      (off = 0 \<longrightarrow> valid_cells mv' mem' \<or> valid_cells (masks' ! Suc pc) mem')
    \<and> (0 < off \<longrightarrow> valid_cells (masks' ! (pc + off + 1)) mem' \<and> pc + off + 1 < length prog)
    \<and> length mem' = BPF_MEMWORDS"
    and "bpf_step skb anc (prog ! pc) A X mem = Fault e \<Longrightarrow> e = Shift_Ub \<or> e = Skb_Oob"
    by simp_all
qed

lemma check_loop_sound:
  assumes ok: "\<And>i. i < length prog \<Longrightarrow> insn_ok (length prog) i (prog ! i)" and ret: "ends_in_ret prog"
    and "check_load_and_stores_loop prog pc masks mv = Some (Inr ())" "length masks = length prog"
    and "pc \<le> pc'" "pc' < length prog" "length mem = BPF_MEMWORDS"
    and "valid_cells (masks ! pc') mem \<or> pc' = pc \<and> valid_cells mv mem"
  shows "tame (run_filter_from skb anc prog pc' A X mem)"
  using assms(3-)
proof (induction "length prog - pc" arbitrary: pc masks mv pc' A X mem)
  case 0
  then show ?case by simp
next
  case (Suc n)
  then have pc: "pc < length prog" and n: "n = length prog - Suc pc" by auto
  obtain masks' mv' where loop': "check_load_and_stores_loop prog (Suc pc) masks' mv' = Some (Inr ())"
      and len': "length masks' = length prog" and turn: "turn_ok prog pc masks (mv AND masks ! pc) masks' mv'"
    using check_turn [OF Suc.prems(1) pc ok [OF pc] Suc.prems(2)] .
  note IH = Suc.hyps(1) [OF n loop' len']
  show ?case
  proof (cases "pc' = pc")
    case False
    then have "Suc pc \<le> pc'" "valid_cells (masks' ! pc') mem"
      using Suc.prems(3,6) turn by (auto simp: turn_ok_def)
    then show ?thesis using IH Suc.prems(4,5) by blast
  next
    case True
    have m: "valid_cells (mv AND masks ! pc) mem"
      using Suc.prems(6) True by (auto intro: valid_cells_and1 valid_cells_and2)
    show ?thesis
    proof (cases "bpf_step skb anc (prog ! pc) A X mem")
      case (Next off A' X' mem')
      note next_ok = turn_ok_step(1) [OF turn m Suc.prems(5) Next]
      have "pc + off + 1 < length prog"
      proof (cases "off = 0")
        case True
        have "pc \<noteq> length prog - 1"
        proof
          assume "pc = length prog - 1"
          with ret pc have "sf_code (prog ! pc) = BPF_S_RET_K \<or> sf_code (prog ! pc) = BPF_S_RET_A"
            by (auto simp: ends_in_ret_def last_conv_nth)
          from bpf_step_ret [OF this] Next show False by (metis bpf_step.distinct(1))
        qed
        with True pc show ?thesis by simp
      qed (use next_ok in simp)
      then have "tame (run_filter_from skb anc prog (pc + off + 1) A' X' mem')"
        using next_ok by (intro IH) (auto split: if_splits)
      then show ?thesis
        using True pc Next by (subst run_filter_from.simps) simp
    next
      case (Ret r)
      then show ?thesis using True pc by (subst run_filter_from.simps) (simp add: tame_def)
    next
      case (Fault e)
      with turn_ok_step(2) [OF turn m Suc.prems(5) Fault] show ?thesis using True pc by (subst run_filter_from.simps) (auto simp: tame_def)
    qed
  qed
qed

lemma sk_chk_filter_Some_Inr:
  assumes "sk_chk_filter kmalloc_ok fs = Some (Inr prog)"
  shows "length prog = length fs" "\<And>i. i < length prog \<Longrightarrow> insn_ok (length prog) i (prog ! i)"
    "ends_in_ret prog"
    "check_load_and_stores_loop prog 0 (replicate (length prog) (NOT 0)) 0 = Some (Inr ())"
proof -
  from assms have fs: "fs \<noteq> []" "length fs \<le> BPF_MAXINSNS" and chk: "chk_insns (length fs) 0 fs = Inr prog"
      and ret: "sf_code (prog ! (length fs - 1)) \<in> {BPF_S_RET_K, BPF_S_RET_A}"
      and cl: "check_load_and_stores kmalloc_ok prog = Some (Inr ())"
    by (auto simp: sk_chk_filter_def Let_def split: if_splits sum.splits option.splits)
  from chk_insns_ok [OF chk] fs show len: "length prog = length fs"
      and "\<And>i. i < length prog \<Longrightarrow> insn_ok (length prog) i (prog ! i)" by simp_all
  show "ends_in_ret prog"
    using ret fs(1) len by (metis ends_in_ret_def last_conv_nth length_0_conv)
  show "check_load_and_stores_loop prog 0 (replicate (length prog) (NOT 0)) 0 = Some (Inr ())"
    using cl by (simp add: check_load_and_stores_def split: if_splits)
qed

lemma checked_filter_tame:
  assumes "sk_chk_filter kmalloc_ok fs = Some (Inr prog)"
  shows "tame (sk_run_filter skb anc prog)"
proof -
  note chk = sk_chk_filter_Some_Inr [OF assms]
  have "0 < length prog" using chk(3) by (simp add: ends_in_ret_def)
  then show ?thesis
    unfolding sk_run_filter_def
    by (intro check_loop_sound [OF chk(2,3,4)]) (auto simp: valid_cells_def)
qed

lemma sk_chk_filter_not_None: "sk_chk_filter kmalloc_ok fs \<noteq> None"
proof (cases "fs = [] \<or> BPF_MAXINSNS < length fs")
  case True
  then show ?thesis by (simp add: sk_chk_filter_def)
next
  case False
  show ?thesis
  proof (cases "chk_insns (length fs) 0 fs")
    case (Inl e)
    with False show ?thesis by (simp add: sk_chk_filter_def)
  next
    case (Inr prog)
    with chk_insns_ok [OF Inr] False
    have "check_load_and_stores_loop prog 0 (replicate (length prog) (NOT 0)) 0 \<noteq> None"
      by (intro check_loop_in_bounds) auto
    with Inr False show ?thesis
      by (auto simp: sk_chk_filter_def check_load_and_stores_def Let_def split: option.splits sum.splits)
  qed
qed

section \<open>Reciprocal division\<close>

lemma round_up_bounds:
  fixes N B :: nat
  assumes "0 < B"
  obtains e where "(N + (B - 1)) div B * B = N + e" "e \<le> B - 1"
proof -
  have "(N + (B - 1)) mod B \<le> B - 1"
    using mod_less_divisor [OF assms, of "N + (B - 1)"] by linarith
  moreover have "(N + (B - 1)) div B * B + (N + (B - 1)) mod B = N + (B - 1)"
    by (rule div_mult_mod_eq)
  ultimately have "(N + (B - 1)) div B * B = N + (B - 1 - (N + (B - 1)) mod B)"
    by linarith
  then show thesis by (rule that) simp
qed

lemma reciprocal_nat:
  fixes A B N :: nat
  assumes "0 < B" "A * (B - 1) < N"
  shows "A * ((N + (B - 1)) div B) div N = A div B"
proof -
  obtain e where R: "(N + (B - 1)) div B * B = N + e" and e: "e \<le> B - 1"
    using round_up_bounds [OF assms(1)] .
  define R q r where "R = (N + (B - 1)) div B" and "q = A div B" and "r = A mod B"
  have A: "A = q * B + r" and r: "r < B"
    using assms(1) by (simp_all add: q_def r_def)
  have Ae: "A * e < N"
    using mult_le_mono2 [OF e, of A] assms(2) by linarith
  have "A * R * B = A * N + A * e"
    using R by (simp add: R_def mult.assoc distrib_left)
  then have eq: "A * R * B = q * N * B + (r * N + A * e)"
    by (simp add: A algebra_simps)
  have "r * N + N \<le> B * N"
    using mult_le_mono1 [of "Suc r" B N] r by simp
  then have "A * R * B < (q * N + N) * B"
    using Ae unfolding eq by (simp add: algebra_simps)
  then have up: "A * R < q * N + N" by simp
  have lo: "q * N \<le> A * R"
    using eq assms(1) by (metis le_add1 mult_le_cancel2)
  show ?thesis
    using div_nat_eqI [of N q "A * R"] lo up by (simp add: mult.commute R_def q_def)
qed

lemma unat_reciprocal_divide:
  "unat (reciprocal_divide A R) = unat A * unat R div 2 ^ 32"
proof -
  have "unat A < 2 ^ 32" "unat R < 2 ^ 32"
    by (rule unat_u32_less)+
  then have "unat A * unat R < 2 ^ 32 * 2 ^ 32"
    by (intro mult_strict_mono) auto
  then have prod: "unat (ucast A * ucast R :: u64) = unat A * unat R"
    by (simp add: unat_word_ariths unat_ucast_u64)
  moreover have "unat A * unat R div 2 ^ 32 < 2 ^ 32"
    using \<open>unat A * unat R < 2 ^ 32 * 2 ^ 32\<close> by (simp add: less_mult_imp_div_less)
  ultimately show ?thesis
    by (simp add: reciprocal_divide_def unsigned_ucast_eq drop_bit_eq_div unat_div take_bit_nat_eq_self)
qed

lemma unat_reciprocal_value:
  assumes "1 < unat B"
  shows "unat (reciprocal_value B) = (2 ^ 32 + (unat B - 1)) div unat B"
proof -
  have b: "unat B < 2 ^ 32" by (rule unat_u32_less)
  have pred: "unat (B - 1) = unat B - 1"
    using assms by (intro unat_minus_one) auto
  have num: "unat ((2 ^ 32 :: u64) + ucast (B - 1)) = 2 ^ 32 + (unat B - 1)"
    using b by (simp add: unat_word_ariths unat_ucast_u64 pred)
  have "(2 ^ 32 + (unat B - 1)) div unat B < 2 ^ 32"
  proof -
    have "2 ^ 32 + (unat B - 1) < 2 ^ 32 * 2 + 2 ^ 32 * (unat B - 2)" using b assms by simp
    also have "\<dots> = 2 ^ 32 * unat B" using assms by (simp add: algebra_simps)
    finally show ?thesis by (simp add: less_mult_imp_div_less)
  qed
  then show ?thesis
    unfolding reciprocal_value_def unsigned_ucast_eq [of "_ div _"] unat_div num unat_ucast_u64
    by (simp add: take_bit_nat_eq_self)
qed


section \<open>Packet accesses\<close>

lemma load_pointer_not_Oob:
  assumes "wf_skb skb" "0 < n" "n \<le> 4"
  shows "load_pointer skb k n \<noteq> Oob"
proof (cases "0 \<le>s k")
  case True
  then have "unat k < 2 ^ 31" by (intro unat_nonneg_u32) (simp add: word_sle_eq)
  with skb_header_pointer_slice [OF assms(1,2), of "unat k"] assms(3) True show ?thesis
    by (simp add: load_pointer_def)
next
  case False
  then show ?thesis
    by (auto simp: load_pointer_def load_pointer_neg_def read_at_def Let_def split: option.splits)
qed

text \<open>The number of bits by which an instruction shifts, if it does.\<close>

definition shift_count :: "bpf_s sock_filter \<Rightarrow> u32 \<Rightarrow> u32" where
  "shift_count f X =
     (if sf_code f \<in> {BPF_S_ALU_LSH_X, BPF_S_ALU_RSH_X} then X
      else if sf_code f \<in> {BPF_S_ALU_LSH_K, BPF_S_ALU_RSH_K} then sf_k f
      else 0)"

lemma bpf_alu_fault:
  "bpf_alu (sf_code f) (sf_k f) A X mem = Some (Fault e) \<longleftrightarrow> e = Shift_Ub \<and> \<not> shift_count f X < 32"
  by (cases "sf_code f"; simp add: bpf_alu_def shift_count_def; blast)

lemma bpf_step_wide_shift: "\<not> shift_count f X < 32 \<Longrightarrow> bpf_step skb anc f A X mem = Fault Shift_Ub"
  using bpf_alu_fault [of f A X mem Shift_Ub] by (simp add: bpf_step_def)

lemma bpf_load_no_fault:
  assumes "wf_skb skb" shows "bpf_load skb c K A X mem \<noteq> Some (Fault e)"
proof -
  note no = load_pointer_not_Oob [OF assms, of 4] load_pointer_not_Oob [OF assms, of 2]
    load_pointer_not_Oob [OF assms, of "Suc 0"]
  show ?thesis
    by (cases c; simp add: bpf_load_def load_A_def no split: load.splits)
qed

lemma bpf_nlattr_None:
  "c \<notin> {BPF_S_ANC_NLATTR, BPF_S_ANC_NLATTR_NEST} \<Longrightarrow> bpf_nlattr skb c A X mem = None"
  by (cases c; simp add: bpf_nlattr_def Let_def)

lemma bpf_step_no_fault:
  assumes "wf_skb skb" "shift_count f X < 32" "sf_code f \<notin> {BPF_S_ANC_NLATTR, BPF_S_ANC_NLATTR_NEST}"
    and "bpf_step skb anc f A X mem = Fault e"
  shows "e = Mem_Oob \<or> e = Mem_Uninit"
  using assms(2,4) bpf_alu_fault [of f A X mem e] bpf_jmp_Some [of f A X mem]
    bpf_load_no_fault [OF assms(1), of "sf_code f" "sf_k f" A X mem e]
    bpf_misc_Some [of "sf_code f" "sf_k f" A X mem] bpf_anc_Some [of skb anc "sf_code f" A X mem]
    bpf_nlattr_None [OF assms(3), of skb A X mem]
  unfolding bpf_step_def
  by (auto simp: read_mem_def write_mem_def split: option.splits if_splits)

text \<open>The states the interpreter goes through on a packet: the instruction it is at, the two registers and the
  scratch memory.\<close>

inductive visits :: "sk_buff \<Rightarrow> skb_anc \<Rightarrow> bpf_s sock_filter list \<Rightarrow> nat \<Rightarrow> u32 \<Rightarrow> u32 \<Rightarrow> bpf_mem \<Rightarrow> bool"
  for skb anc prog where
  visits_start: "visits skb anc prog 0 0 0 (replicate BPF_MEMWORDS None)"
| visits_next: "visits skb anc prog pc A X mem \<Longrightarrow> pc < length prog \<Longrightarrow>
    bpf_step skb anc (prog ! pc) A X mem = Next off A' X' mem' \<Longrightarrow> visits skb anc prog (pc + off + 1) A' X' mem'"

lemma visits_run: "visits skb anc prog pc A X mem \<Longrightarrow> sk_run_filter skb anc prog = run_filter_from skb anc prog pc A X mem"
proof (induction rule: visits.induct)
  case visits_start
  show ?case by (simp add: sk_run_filter_def)
next
  case (visits_next pc A X mem off A' X' mem')
  then show ?case by (simp add: run_filter_from.simps [of skb anc prog pc])
qed

lemma crash_visited:
  "run_filter_from skb anc prog pc A X mem = Crash e \<Longrightarrow> e \<noteq> Pc_Oob \<Longrightarrow> visits skb anc prog pc A X mem \<Longrightarrow>
   \<exists>pc A X mem. visits skb anc prog pc A X mem \<and> pc < length prog \<and> bpf_step skb anc (prog ! pc) A X mem = Fault e"
proof (induction skb anc prog pc A X mem rule: run_filter_from.induct)
  case (1 skb anc prog pc A X mem)
  have pc: "pc < length prog" using "1.prems"(1,2) by (subst (asm) run_filter_from.simps) (auto split: if_splits)
  show ?case
  proof (cases "bpf_step skb anc (prog ! pc) A X mem")
    case (Next off A' X' mem')
    then have "run_filter_from skb anc prog (pc + off + 1) A' X' mem' = Crash e"
      using "1.prems"(1) pc by (subst (asm) run_filter_from.simps) simp
    then show ?thesis using "1.IH" [OF pc Next] "1.prems"(2) visits_next [OF "1.prems"(3) pc Next] by blast
  next
    case (Ret r)
    then show ?thesis using "1.prems"(1) pc by (subst (asm) run_filter_from.simps) simp
  next
    case (Fault d)
    then have "d = e" using "1.prems"(1) pc by (subst (asm) run_filter_from.simps) simp
    then show ?thesis using Fault pc "1.prems"(3) by blast
  qed
qed

section \<open>Examples\<close>

lemma codes_size_eq: "codes_size = 178"
  by (simp add: codes_size_def codes_def bpf_code_defs)

lemma codes_ld_imm: "map_of codes 0 = Some BPF_S_LD_IMM"
  by (simp add: codes_def bpf_code_defs)
lemma codes_ex: "map_of codes 0x02 = Some BPF_S_ST" "map_of codes 0x60 = Some BPF_S_LD_MEM"
   "map_of codes 0x20 = Some BPF_S_LD_W_ABS" "map_of codes 0x16 = Some BPF_S_RET_A" "map_of codes 0x34 = Some BPF_S_ALU_DIV_K"
   "map_of codes 0x01 = Some BPF_S_LDX_IMM" "map_of codes 0x6c = Some BPF_S_ALU_LSH_X"
  by (simp_all add: codes_def bpf_code_defs)

section \<open>Properties\<close>

text \<open>C18: a filter that the checker accepts never makes the interpreter fetch an instruction
  outside the program, touch a scratch cell outside \<^verbatim>\<open>mem[]\<close>, or read a scratch cell that was
  not written before, whatever packet it runs on.\<close>

theorem checked_filter_safe:
  assumes "sk_chk_filter kmalloc_ok fs = Some (Inr prog)"
  shows "sk_run_filter skb anc prog \<notin> {Crash Pc_Oob, Crash Mem_Oob, Crash Mem_Uninit}"
  using checked_filter_tame [OF assms, of skb anc] by (auto simp: tame_def)

definition stmt :: "u16 \<Rightarrow> u32 \<Rightarrow> u16 sock_filter" where
  "stmt c k = \<lparr>sf_code = c, sf_jt = 0, sf_jf = 0, sf_k = k\<rparr>"

definition insn :: "bpf_s \<Rightarrow> u32 \<Rightarrow> bpf_s sock_filter" where
  "insn c k = \<lparr>sf_code = c, sf_jt = 0, sf_jf = 0, sf_k = k\<rparr>"

lemmas ex_eval = stmt_def insn_def sk_chk_filter_def chk_insn_def codes_ld_imm codes_ex codes_size_eq
  ancillary_def SKF_AD_OFF_def BPF_MEMWORDS_def BPF_MAXINSNS_def check_load_and_stores_def
  check_load_and_stores_loop.simps

lemma ex_store_load:
  "sk_chk_filter True [stmt 0 7, stmt 0x02 3, stmt 0x60 3, stmt 0x16 0] =
   Some (Inr [insn BPF_S_LD_IMM 7, insn BPF_S_ST 3, insn BPF_S_LD_MEM 3, insn BPF_S_RET_A 0])"
  by (simp add: ex_eval)


definition ex_skb :: "u8 list \<Rightarrow> sk_buff" where
  "ex_skb bs = Sk_buff bs 0 (word_of_nat (length bs)) 0 0 0 [] []"

definition ex_anc :: skb_anc where
  "ex_anc = \<lparr>anc_protocol = 0x0008, anc_pkt_type = 0, anc_dev = None, anc_mark = 0,
     anc_queue_mapping = 0, anc_rxhash = 0, anc_cpu = 0\<rparr>"

lemma wf_ex_skb: "length bs < 2 ^ 31 \<Longrightarrow> wf_skb (ex_skb bs)"
  by (simp add: ex_skb_def)

theorem checked_filter_safe_witness:
  "sk_chk_filter True [stmt 0 7, stmt 0x02 3, stmt 0x60 3, stmt 0x16 0] =
     Some (Inr [insn BPF_S_LD_IMM 7, insn BPF_S_ST 3, insn BPF_S_LD_MEM 3, insn BPF_S_RET_A 0])
   \<and> sk_run_filter (ex_skb []) ex_anc
       [insn BPF_S_LD_IMM 7, insn BPF_S_ST 3, insn BPF_S_LD_MEM 3, insn BPF_S_RET_A 0]
     \<notin> {Crash Pc_Oob, Crash Mem_Oob, Crash Mem_Uninit}"
  using ex_store_load checked_filter_safe [OF ex_store_load, of "ex_skb []" ex_anc] by blast

text \<open>C20: on a well-formed packet, an accepted filter with no netlink-attribute load runs to a return value
  exactly when no shift it comes to executing is by 32 bits or more, whether the count is a constant or the
  value of \<^verbatim>\<open>X\<close> at that point. A wide shift, which the C standard leaves undefined and the checker does
  not exclude, is the only thing that can go wrong in such a run.\<close>

theorem checked_filter_returns:
  assumes "sk_chk_filter kmalloc_ok fs = Some (Inr prog)" "wf_skb skb"
    and "\<forall>f\<in>set prog. sf_code f \<notin> {BPF_S_ANC_NLATTR, BPF_S_ANC_NLATTR_NEST}"
  shows "(\<exists>v. sk_run_filter skb anc prog = Return v) \<longleftrightarrow>
    (\<forall>pc A X mem. visits skb anc prog pc A X mem \<and> pc < length prog \<longrightarrow> shift_count (prog ! pc) X < 32)"
proof (intro iffI allI impI)
  fix pc A X mem
  assume "\<exists>v. sk_run_filter skb anc prog = Return v" and v: "visits skb anc prog pc A X mem \<and> pc < length prog"
  then obtain r where "run_filter_from skb anc prog pc A X mem = Return r" using visits_run by metis
  then show "shift_count (prog ! pc) X < 32"
    using v bpf_step_wide_shift [of "prog ! pc" X skb anc A mem] by (subst (asm) run_filter_from.simps) fastforce
next
  assume narrow: "\<forall>pc A X mem. visits skb anc prog pc A X mem \<and> pc < length prog \<longrightarrow> shift_count (prog ! pc) X < 32"
  have "sk_run_filter skb anc prog \<noteq> Crash e" if "e = Shift_Ub \<or> e = Skb_Oob" for e
  proof
    assume crash: "sk_run_filter skb anc prog = Crash e"
    have "e \<noteq> Pc_Oob" using that by auto
    then obtain pc A X mem where at: "visits skb anc prog pc A X mem" "pc < length prog"
        "bpf_step skb anc (prog ! pc) A X mem = Fault e"
      using crash_visited [OF crash [unfolded sk_run_filter_def] _ visits_start] by blast
    then have "sf_code (prog ! pc) \<notin> {BPF_S_ANC_NLATTR, BPF_S_ANC_NLATTR_NEST}" using assms(3) by simp
    from bpf_step_no_fault [OF assms(2) _ this at(3)] narrow at(1,2) that show False by blast
  qed
  with checked_filter_tame [OF assms(1), of skb anc] show "\<exists>v. sk_run_filter skb anc prog = Return v"
    by (auto simp: tame_def)
qed

text \<open>A filter that shifts 1 left by \<open>k\<close> bits, with the count in \<^verbatim>\<open>X\<close>.\<close>

definition shift_filter :: "u32 \<Rightarrow> bpf_s sock_filter list" where
  "shift_filter k = [insn BPF_S_LDX_IMM k, insn BPF_S_LD_IMM 1, insn BPF_S_ALU_LSH_X 0, insn BPF_S_RET_A 0]"

lemma ex_shift_filter: "sk_chk_filter True [stmt 0x01 k, stmt 0 1, stmt 0x6c 0, stmt 0x16 0] = Some (Inr (shift_filter k))"
  by (simp add: ex_eval shift_filter_def)

lemma shift_filter_visits: "visits skb anc (shift_filter k) pc A X mem \<Longrightarrow> 0 < pc \<longrightarrow> X = k"
proof (induction rule: visits.induct)
  case (visits_next pc A X mem off A' X' mem')
  then have "pc \<in> {0, 1, 2, 3}" by (auto simp: shift_filter_def)
  then show ?case
    using visits_next
    by (auto simp: shift_filter_def insn_def bpf_step_def bpf_alu_def bpf_jmp_def bpf_load_def bpf_misc_def split: if_splits)
qed simp

lemma shift_filter_reaches_shift:
  "visits skb anc (shift_filter k) 2 1 k (replicate BPF_MEMWORDS None)"
proof -
  let ?m = "replicate BPF_MEMWORDS None"
  have "bpf_step skb anc (shift_filter k ! 0) 0 0 ?m = Next 0 0 k ?m" "bpf_step skb anc (shift_filter k ! 1) 0 k ?m = Next 0 1 k ?m"
    by (simp_all add: shift_filter_def insn_def bpf_step_def bpf_alu_def bpf_jmp_def bpf_load_def)
  then show ?thesis
    using visits_next [OF visits_next [OF visits_start, of "shift_filter k" skb anc 0 0 k ?m], of 0 1 k ?m]
    by (simp add: shift_filter_def numeral_2_eq_2)
qed

theorem checked_filter_returns_witness:
  "(\<exists>v. sk_run_filter (ex_skb [1, 2]) ex_anc (shift_filter 3) = Return v) \<and>
   (\<nexists>v. sk_run_filter (ex_skb [1, 2]) ex_anc (shift_filter 40) = Return v)"
proof
  have wf: "wf_skb (ex_skb [1, 2])" by (simp add: wf_ex_skb)
  have no: "\<forall>f\<in>set (shift_filter k). sf_code f \<notin> {BPF_S_ANC_NLATTR, BPF_S_ANC_NLATTR_NEST}" for k
    by (simp add: shift_filter_def insn_def)
  note iff = checked_filter_returns [OF ex_shift_filter wf no, where anc = ex_anc]
  have "shift_count (shift_filter 3 ! pc) X < 32" if "visits skb anc (shift_filter 3) pc A X mem" "pc < length (shift_filter 3)"
    for skb anc pc A X mem
  proof -
    have "pc \<in> {0, 1, 2, 3}" using that(2) by (auto simp: shift_filter_def)
    then show ?thesis using shift_filter_visits [OF that(1)] by (auto simp: shift_filter_def insn_def shift_count_def)
  qed
  then show "\<exists>v. sk_run_filter (ex_skb [1, 2]) ex_anc (shift_filter 3) = Return v" unfolding iff by blast
  have "\<not> shift_count (shift_filter 40 ! 2) 40 < 32" "2 < length (shift_filter 40)"
    by (simp_all add: shift_filter_def insn_def shift_count_def)
  then show "\<nexists>v. sk_run_filter (ex_skb [1, 2]) ex_anc (shift_filter 40) = Return v"
    unfolding iff using shift_filter_reaches_shift by blast
qed

text \<open>C23: the checker itself stays in bounds: for every program a user can pass, its analysis
  loop never stores outside the \<^verbatim>\<open>masks\<close> array and it ends with a verdict.\<close>

theorem sk_chk_filter_in_bounds: "\<exists>verdict. sk_chk_filter kmalloc_ok fs = Some verdict"
  using sk_chk_filter_not_None [of kmalloc_ok fs] by (cases "sk_chk_filter kmalloc_ok fs") auto

text \<open>C32: dividing by a constant through its reciprocal gives the exact quotient whenever the
  divisor is at least two and the dividend times the divisor minus one fits in 32 bits.\<close>

theorem reciprocal_divide_exact:
  assumes "1 < unat B" "unat A * (unat B - 1) < 2 ^ 32"
  shows "reciprocal_divide A (reciprocal_value B) = A div B"
proof -
  have "unat (reciprocal_divide A (reciprocal_value B)) = unat (A div B)"
    unfolding unat_reciprocal_divide unat_reciprocal_value [OF assms(1)] unat_div
    using assms by (intro reciprocal_nat) auto
  then show ?thesis by (simp only: word_unat_eq_iff)
qed

theorem reciprocal_divide_exact_witness: "reciprocal_divide 1000 (reciprocal_value 7) = 142"
  using reciprocal_divide_exact [of 7 1000] by simp

text \<open>the division instruction with constant one is accepted and computes zero: the
  reciprocal \<^verbatim>\<open>2^32\<close> does not fit in the 32-bit field. The filter that should return \<open>n div 1\<close>
  returns 0 for every \<open>n\<close>.\<close>

theorem divide_by_one_is_zero:
  "\<exists>prog. sk_chk_filter True [stmt 0 n, stmt 0x34 1, stmt 0x16 0] = Some (Inr prog)
     \<and> sk_run_filter skb anc prog = Return 0"
proof (intro exI conjI)
  let ?prog = "[insn BPF_S_LD_IMM n, insn BPF_S_ALU_DIV_K 0, insn BPF_S_RET_A 0]"
  show "sk_chk_filter True [stmt 0 n, stmt 0x34 1, stmt 0x16 0] = Some (Inr ?prog)"
    by (simp add: ex_eval reciprocal_value_def)
  show "sk_run_filter skb anc ?prog = Return 0"
    by (simp add: sk_run_filter_def run_filter_from.simps insn_def bpf_step_def bpf_alu_def bpf_jmp_def
        bpf_load_def bpf_misc_def reciprocal_divide_def)
qed

text \<open>the guard of the nested-attribute load is reversed, so an accepted filter on a
  well-formed packet can make the kernel read beyond the packet.\<close>

theorem nlattr_nest_reads_out_of_bounds:
  "\<exists>prog. sk_chk_filter True [stmt 0x20 (SKF_AD_OFF + 16), stmt 0x16 0] = Some (Inr prog)
     \<and> sk_run_filter (ex_skb [0xff, 0xff, 0, 0, 4, 0, 1, 0]) ex_anc prog = Crash Skb_Oob
     \<and> wf_skb (ex_skb [0xff, 0xff, 0, 0, 4, 0, 1, 0])"
proof (intro exI conjI)
  let ?prog = "[insn BPF_S_ANC_NLATTR_NEST (SKF_AD_OFF + 16), insn BPF_S_RET_A 0]"
  show "sk_chk_filter True [stmt 0x20 (SKF_AD_OFF + 16), stmt 0x16 0] = Some (Inr ?prog)"
    by (simp add: ex_eval)
  show "sk_run_filter (ex_skb [0xff, 0xff, 0, 0, 4, 0, 1, 0]) ex_anc ?prog = Crash Skb_Oob"
    by (simp add: sk_run_filter_def run_filter_from.simps insn_def bpf_step_def bpf_alu_def bpf_jmp_def
        bpf_load_def bpf_misc_def bpf_anc_def bpf_nlattr_def ex_skb_def skb_is_nonlinear_def
        nla_find.simps get_u16_def nla_type_def read_at_def NLA_HDRLEN_def NLA_ALIGN_def Let_def)
qed (simp add: wf_ex_skb)

text \<open>the bounds check of the attribute load subtracts the header size from the packet
  length without checking that the packet is that long; on a packet shorter than a header the
  difference wraps, and an accepted filter makes the kernel read beyond the packet.\<close>

theorem nlattr_length_underflow:
  "\<exists>prog. sk_chk_filter True [stmt 0 0xfffffff0, stmt 0x20 (SKF_AD_OFF + 12), stmt 0x16 0] = Some (Inr prog)
     \<and> sk_run_filter (ex_skb []) ex_anc prog = Crash Skb_Oob \<and> wf_skb (ex_skb [])"
proof (intro exI conjI)
  let ?prog = "[insn BPF_S_LD_IMM 0xfffffff0, insn BPF_S_ANC_NLATTR (SKF_AD_OFF + 12), insn BPF_S_RET_A 0]"
  show "sk_chk_filter True [stmt 0 0xfffffff0, stmt 0x20 (SKF_AD_OFF + 12), stmt 0x16 0] = Some (Inr ?prog)"
    by (simp add: ex_eval)
  show "sk_run_filter (ex_skb []) ex_anc ?prog = Crash Skb_Oob"
    by (simp add: sk_run_filter_def run_filter_from.simps insn_def bpf_step_def bpf_alu_def bpf_jmp_def
        bpf_load_def bpf_misc_def bpf_anc_def bpf_nlattr_def ex_skb_def skb_is_nonlinear_def
        nla_find.simps get_u16_def nla_type_def read_at_def NLA_HDRLEN_def NLA_ALIGN_def Let_def)
qed (simp add: wf_ex_skb)

end
