(* ===== verification/Capability.thy ===== *)
theory Capability
  imports Kernel_Prelude
begin

text \<open>
  Capability sets, securebits and user namespaces (\<^verbatim>\<open>include/linux/capability.h\<close>,
  \<^verbatim>\<open>include/linux/securebits.h\<close>, \<^verbatim>\<open>include/linux/user_namespace.h\<close>). A
  \<^verbatim>\<open>kernel_cap_t\<close> is its array of two 32-bit words. \<open>caps_of\<close> reads it as a set of capability
  numbers; the locale \<open>cap_algebra\<close> is the contract the security module relies on, proved once
  from the membership laws and interpreted on the word operations.
\<close>

section \<open>Capability sets\<close>

type_synonym kernel_cap_t = "u32 \<times> u32"

definition CAP_CHOWN :: nat where "CAP_CHOWN = 0"
definition CAP_DAC_OVERRIDE :: nat where "CAP_DAC_OVERRIDE = 1"
definition CAP_DAC_READ_SEARCH :: nat where "CAP_DAC_READ_SEARCH = 2"
definition CAP_FOWNER :: nat where "CAP_FOWNER = 3"
definition CAP_FSETID :: nat where "CAP_FSETID = 4"
definition CAP_SETGID :: nat where "CAP_SETGID = 6"
definition CAP_SETUID :: nat where "CAP_SETUID = 7"
definition CAP_SETPCAP :: nat where "CAP_SETPCAP = 8"
definition CAP_LINUX_IMMUTABLE :: nat where "CAP_LINUX_IMMUTABLE = 9"
definition CAP_NET_ADMIN :: nat where "CAP_NET_ADMIN = 12"
definition CAP_NET_RAW :: nat where "CAP_NET_RAW = 13"
definition CAP_SYS_PTRACE :: nat where "CAP_SYS_PTRACE = 19"
definition CAP_SYS_ADMIN :: nat where "CAP_SYS_ADMIN = 21"
definition CAP_SYS_NICE :: nat where "CAP_SYS_NICE = 23"
definition CAP_MKNOD :: nat where "CAP_MKNOD = 27"
definition CAP_SETFCAP :: nat where "CAP_SETFCAP = 31"
definition CAP_MAC_OVERRIDE :: nat where "CAP_MAC_OVERRIDE = 32"
definition CAP_LAST_CAP :: nat where "CAP_LAST_CAP = 35"

lemmas cap_numbers =
  CAP_CHOWN_def CAP_DAC_OVERRIDE_def CAP_DAC_READ_SEARCH_def CAP_FOWNER_def CAP_FSETID_def
  CAP_SETGID_def CAP_SETUID_def CAP_SETPCAP_def CAP_LINUX_IMMUTABLE_def CAP_NET_ADMIN_def
  CAP_NET_RAW_def CAP_SYS_PTRACE_def CAP_SYS_ADMIN_def CAP_SYS_NICE_def CAP_MKNOD_def
  CAP_SETFCAP_def CAP_MAC_OVERRIDE_def CAP_LAST_CAP_def

definition cap_valid :: "nat \<Rightarrow> bool" where
  "cap_valid x \<longleftrightarrow> x \<le> CAP_LAST_CAP"

definition CAP_TO_INDEX :: "nat \<Rightarrow> nat" where
  "CAP_TO_INDEX x = x div 32"

definition CAP_TO_MASK :: "nat \<Rightarrow> u32" where
  "CAP_TO_MASK x = push_bit (x mod 32) 1"

definition cap_word :: "kernel_cap_t \<Rightarrow> nat \<Rightarrow> u32" where
  "cap_word c i = (if i = 0 then fst c else snd c)"

definition cap_empty_set :: kernel_cap_t where "cap_empty_set = (0, 0)"
definition CAP_FULL_SET :: kernel_cap_t where "CAP_FULL_SET = (NOT 0, NOT 0)"

definition CAP_FS_MASK_B0 :: u32 where
  "CAP_FS_MASK_B0 = CAP_TO_MASK CAP_CHOWN OR CAP_TO_MASK CAP_MKNOD OR CAP_TO_MASK CAP_DAC_OVERRIDE OR
     CAP_TO_MASK CAP_DAC_READ_SEARCH OR CAP_TO_MASK CAP_FOWNER OR CAP_TO_MASK CAP_FSETID"

definition CAP_FS_MASK_B1 :: u32 where
  "CAP_FS_MASK_B1 = CAP_TO_MASK CAP_MAC_OVERRIDE"

definition CAP_FS_SET :: kernel_cap_t where
  "CAP_FS_SET = (CAP_FS_MASK_B0 OR CAP_TO_MASK CAP_LINUX_IMMUTABLE, CAP_FS_MASK_B1)"

definition cap_raised :: "kernel_cap_t \<Rightarrow> nat \<Rightarrow> bool" where
  "cap_raised c flag \<longleftrightarrow> cap_word c (CAP_TO_INDEX flag) AND CAP_TO_MASK flag \<noteq> 0"

definition cap_lower :: "kernel_cap_t \<Rightarrow> nat \<Rightarrow> kernel_cap_t" where
  "cap_lower c flag =
     (if CAP_TO_INDEX flag = 0 then (fst c AND NOT (CAP_TO_MASK flag), snd c)
      else (fst c, snd c AND NOT (CAP_TO_MASK flag)))"

definition cap_combine :: "kernel_cap_t \<Rightarrow> kernel_cap_t \<Rightarrow> kernel_cap_t" where
  "cap_combine a b = (fst a OR fst b, snd a OR snd b)"

definition cap_intersect :: "kernel_cap_t \<Rightarrow> kernel_cap_t \<Rightarrow> kernel_cap_t" where
  "cap_intersect a b = (fst a AND fst b, snd a AND snd b)"

definition cap_drop :: "kernel_cap_t \<Rightarrow> kernel_cap_t \<Rightarrow> kernel_cap_t" where
  "cap_drop a b = (fst a AND NOT (fst b), snd a AND NOT (snd b))"

definition cap_isclear :: "kernel_cap_t \<Rightarrow> bool" where
  "cap_isclear a \<longleftrightarrow> fst a = 0 \<and> snd a = 0"

definition cap_issubset :: "kernel_cap_t \<Rightarrow> kernel_cap_t \<Rightarrow> bool" where
  "cap_issubset a b \<longleftrightarrow> cap_isclear (cap_drop a b)"

definition cap_drop_fs_set :: "kernel_cap_t \<Rightarrow> kernel_cap_t" where
  "cap_drop_fs_set a = cap_drop a CAP_FS_SET"

definition cap_raise_fs_set :: "kernel_cap_t \<Rightarrow> kernel_cap_t \<Rightarrow> kernel_cap_t" where
  "cap_raise_fs_set a permitted = cap_combine a (cap_intersect permitted CAP_FS_SET)"

section \<open>Securebits\<close>

definition SECURE_NOROOT :: nat where "SECURE_NOROOT = 0"
definition SECURE_NO_SETUID_FIXUP :: nat where "SECURE_NO_SETUID_FIXUP = 2"
definition SECURE_KEEP_CAPS :: nat where "SECURE_KEEP_CAPS = 4"
definition SECURE_KEEP_CAPS_LOCKED :: nat where "SECURE_KEEP_CAPS_LOCKED = 5"

lemmas secure_numbers = SECURE_NOROOT_def SECURE_NO_SETUID_FIXUP_def SECURE_KEEP_CAPS_def
  SECURE_KEEP_CAPS_LOCKED_def

definition issecure_mask :: "nat \<Rightarrow> u32" where
  "issecure_mask x = push_bit x 1"

definition SECURE_ALL_BITS :: u32 where
  "SECURE_ALL_BITS = issecure_mask SECURE_NOROOT OR issecure_mask SECURE_NO_SETUID_FIXUP OR
     issecure_mask SECURE_KEEP_CAPS"

definition SECURE_ALL_LOCKS :: u32 where
  "SECURE_ALL_LOCKS = push_bit 1 SECURE_ALL_BITS"

section \<open>User namespaces\<close>

text \<open>
  A user is identified by its uid and its namespace; a namespace other than the initial one
  by the user that created it.
\<close>

datatype user_namespace = Init_user_ns | User_ns user_struct
  and user_struct = User_struct (u_uid: u32) (u_ns: user_namespace)

definition INIT_USER :: user_struct where
  "INIT_USER = User_struct 0 Init_user_ns"

section \<open>Capability sets as sets\<close>

definition caps_of :: "kernel_cap_t \<Rightarrow> nat set" where
  "caps_of c = {n. n < 64 \<and> bit (if n < 32 then fst c else snd c) (n mod 32)}"

lemma cap_raised_iff: "cap_raised c n \<longleftrightarrow> bit (if n < 32 then fst c else snd c) (n mod 32)"
proof -
  have "w AND push_bit k 1 \<noteq> 0 \<longleftrightarrow> bit w k" if "k < 32" for w :: u32 and k
    using that by (metis and_exp_eq_0_iff_not_bit push_bit_of_1)
  then show ?thesis by (simp add: cap_raised_def cap_word_def CAP_TO_INDEX_def CAP_TO_MASK_def div_eq_0_iff)
qed

lemma cap_raised_caps_of: "n < 64 \<Longrightarrow> cap_raised c n \<longleftrightarrow> n \<in> caps_of c"
  by (simp add: cap_raised_iff caps_of_def)

lemma caps_of_empty: "caps_of cap_empty_set = {}"
  by (simp add: caps_of_def cap_empty_set_def)

lemma caps_of_combine: "caps_of (cap_combine a b) = caps_of a \<union> caps_of b"
  by (auto simp: caps_of_def cap_combine_def bit_simps)

lemma caps_of_intersect: "caps_of (cap_intersect a b) = caps_of a \<inter> caps_of b"
  by (auto simp: caps_of_def cap_intersect_def bit_simps)

lemma caps_of_drop: "caps_of (cap_drop a b) = caps_of a - caps_of b"
  by (auto simp: caps_of_def cap_drop_def bit_simps)

lemma caps_of_eq_empty: "caps_of a = {} \<longleftrightarrow> cap_isclear a"
proof
  assume *: "caps_of a = {}"
  have "\<not> bit (fst a) n \<and> \<not> bit (snd a) n" for n
  proof (cases "n < 32")
    case True
    with * have "n \<notin> caps_of a" "n + 32 \<notin> caps_of a" by simp_all
    with True show ?thesis by (simp_all add: caps_of_def)
  next
    case False
    with bit_imp_le_length [of "fst a" n] bit_imp_le_length [of "snd a" n] show ?thesis by auto
  qed
  then show "cap_isclear a" by (auto simp: cap_isclear_def bit_eq_iff)
qed (auto simp: cap_isclear_def caps_of_def)

lemma cap_issubset_iff: "cap_issubset a b \<longleftrightarrow> caps_of a \<subseteq> caps_of b"
  by (simp add: cap_issubset_def caps_of_eq_empty [symmetric] caps_of_drop Diff_eq_empty_iff)

lemma caps_of_lower:
  assumes "n < 64"
  shows "caps_of (cap_lower c n) = caps_of c - {n}"
proof (rule set_eqI)
  fix m
  have same: "m mod 32 = n mod 32 \<longleftrightarrow> m = n" if "m < 64" "m < 32 \<longleftrightarrow> n < 32"
    using that assms by (cases "n < 32") (auto simp: mod_if)
  have mask: "bit (CAP_TO_MASK n) k \<longleftrightarrow> k = n mod 32" for k
    by (auto simp: CAP_TO_MASK_def bit_simps)
  show "m \<in> caps_of (cap_lower c n) \<longleftrightarrow> m \<in> caps_of c - {n}"
  proof (cases "m < 64")
    case True
    with same show ?thesis
      by (cases "m < 32"; cases "n < 32")
        (auto simp: caps_of_def cap_lower_def CAP_TO_INDEX_def div_eq_0_iff bit_and_iff bit_not_iff mask)
  qed (simp add: caps_of_def)
qed

text \<open>The order and lattice laws the security module uses.\<close>

locale cap_algebra =
  fixes has :: "'c \<Rightarrow> nat set"
    and subset :: "'c \<Rightarrow> 'c \<Rightarrow> bool"
    and combine intersect drop :: "'c \<Rightarrow> 'c \<Rightarrow> 'c"
    and clear :: 'c
  assumes subset_has: "subset a b \<longleftrightarrow> has a \<subseteq> has b"
    and has_combine: "has (combine a b) = has a \<union> has b"
    and has_intersect: "has (intersect a b) = has a \<inter> has b"
    and has_drop: "has (drop a b) = has a - has b"
    and has_clear: "has clear = {}"
begin

lemma subset_refl: "subset a a"
  by (simp add: subset_has)

lemma subset_trans: "subset a b \<Longrightarrow> subset b c \<Longrightarrow> subset a c"
  by (auto simp: subset_has)

lemma clear_subset: "subset clear a"
  by (simp add: subset_has has_clear)

lemma drop_subset: "subset a b \<Longrightarrow> subset (drop a c) b"
  by (auto simp: subset_has has_drop)

lemma raise_subset: "subset a b \<Longrightarrow> subset (combine a (intersect b c)) b"
  by (auto simp: subset_has has_combine has_intersect)

lemma intersect_subset: "subset (intersect a b) a" "subset (intersect a b) b"
  by (auto simp: subset_has has_intersect)

lemma combine_least: "subset a c \<Longrightarrow> subset b c \<Longrightarrow> subset (combine a b) c"
  by (auto simp: subset_has has_combine)

end

interpretation caps: cap_algebra caps_of cap_issubset cap_combine cap_intersect cap_drop cap_empty_set
  by unfold_locales
    (rule cap_issubset_iff caps_of_combine caps_of_intersect caps_of_drop caps_of_empty)+

end
