(* ===== verification/Cred_Groups.thy ===== *)
theory Cred_Groups
  imports Capability
begin

text \<open>
  Supplementary groups (\<^verbatim>\<open>kernel/groups.c\<close>): the block table behind
  \<^verbatim>\<open>struct group_info\<close> and its transfer from and to user memory, the Shell sort that
  \<^verbatim>\<open>set_groups\<close> runs, the binary search that every permission check runs, and the system
  calls around them. \<open>group_array\<close> is the array the macro \<^verbatim>\<open>GROUP_AT\<close> presents; the sort and
  the search work on it, \<open>store_groups\<close> writes the sorted array back. The locale \<open>gid_set\<close>
  is the contract the permission checks use: membership in a list once sorted. Reference
  counts are not modelled: lists are values here.
\<close>

type_synonym gid_t = u32

section \<open>Blocks of group ids\<close>

definition NGROUPS_SMALL :: nat where "NGROUPS_SMALL = 32"
definition NGROUPS_PER_BLOCK :: nat where "NGROUPS_PER_BLOCK = 1024"

record group_info =
  ngroups :: nat
  nblocks :: nat
  blocks :: "gid_t list list"

definition GROUP_AT :: "group_info \<Rightarrow> nat \<Rightarrow> gid_t" where
  "GROUP_AT gi i = blocks gi ! (i div NGROUPS_PER_BLOCK) ! (i mod NGROUPS_PER_BLOCK)"

definition SET_GROUP_AT :: "group_info \<Rightarrow> nat \<Rightarrow> gid_t \<Rightarrow> group_info" where
  "SET_GROUP_AT gi i g =
     gi\<lparr>blocks := (blocks gi)[i div NGROUPS_PER_BLOCK :=
       (blocks gi ! (i div NGROUPS_PER_BLOCK))[i mod NGROUPS_PER_BLOCK := g]]\<rparr>"

definition group_array :: "group_info \<Rightarrow> gid_t list" where
  "group_array gi = map (GROUP_AT gi) [0..<ngroups gi]"

fun store_groups :: "group_info \<Rightarrow> nat \<Rightarrow> gid_t list \<Rightarrow> group_info" where
  "store_groups gi i [] = gi"
| "store_groups gi i (g # gs) = store_groups (SET_GROUP_AT gi i g) (Suc i) gs"

text \<open>
  \<open>small\<close> is the (uninitialised) content of the embedded block, or nothing when
  \<^verbatim>\<open>kmalloc\<close> fails; \<open>page i\<close> is the content of the i-th page, or nothing when
  \<^verbatim>\<open>__get_free_page\<close> fails. A failure part way frees what was allocated, so nothing is left.
\<close>

fun alloc_pages :: "(nat \<Rightarrow> gid_t list option) \<Rightarrow> nat \<Rightarrow> nat \<Rightarrow> gid_t list list option" where
  "alloc_pages page i 0 = Some []"
| "alloc_pages page i (Suc n) =
     (case page i of
        None \<Rightarrow> None
      | Some b \<Rightarrow> map_option ((#) b) (alloc_pages page (Suc i) n))"

definition groups_alloc ::
  "gid_t list option \<Rightarrow> (nat \<Rightarrow> gid_t list option) \<Rightarrow> nat \<Rightarrow> group_info option" where
  "groups_alloc small page gidsetsize =
     (let n = (gidsetsize + NGROUPS_PER_BLOCK - 1) div NGROUPS_PER_BLOCK;
          n = (if n = 0 then 1 else n)
      in case small of
           None \<Rightarrow> None
         | Some sb \<Rightarrow>
             if gidsetsize \<le> NGROUPS_SMALL
             then Some \<lparr>ngroups = gidsetsize, nblocks = n, blocks = [sb]\<rparr>
             else map_option (\<lambda>bs. \<lparr>ngroups = gidsetsize, nblocks = n, blocks = bs\<rparr>)
                    (alloc_pages page 0 n))"

text \<open>User memory is a partial map from array positions to ids; a hole is an access fault.\<close>

definition copy_from_user :: "(nat \<Rightarrow> gid_t option) \<Rightarrow> nat \<Rightarrow> nat \<Rightarrow> gid_t list option" where
  "copy_from_user umem off n =
     (if \<forall>i \<in> {off..<off + n}. umem i \<noteq> None then Some (map (the \<circ> umem) [off..<off + n]) else None)"

fun groups_from_user :: "(nat \<Rightarrow> gid_t option) \<Rightarrow> nat \<Rightarrow> nat \<Rightarrow> gid_t list list \<Rightarrow> gid_t list list option" where
  "groups_from_user umem grouplist cnt [] = Some []"
| "groups_from_user umem grouplist cnt (b # bs) =
     (let cp_count = min NGROUPS_PER_BLOCK cnt in
      case copy_from_user umem grouplist cp_count of
        None \<Rightarrow> None
      | Some gids \<Rightarrow>
          map_option ((#) (gids @ drop cp_count b))
            (groups_from_user umem (grouplist + NGROUPS_PER_BLOCK) (cnt - cp_count) bs))"

definition copy_to_user :: "(nat \<Rightarrow> gid_t option) \<Rightarrow> nat \<Rightarrow> gid_t list \<Rightarrow> (nat \<Rightarrow> gid_t option) option" where
  "copy_to_user umem off gids =
     (if \<forall>i \<in> {off..<off + length gids}. umem i \<noteq> None
      then Some (\<lambda>i. if off \<le> i \<and> i < off + length gids then Some (gids ! (i - off)) else umem i)
      else None)"

fun groups_to_user :: "(nat \<Rightarrow> gid_t option) \<Rightarrow> nat \<Rightarrow> nat \<Rightarrow> gid_t list list \<Rightarrow> (nat \<Rightarrow> gid_t option) option" where
  "groups_to_user umem grouplist cnt [] = Some umem"
| "groups_to_user umem grouplist cnt (b # bs) =
     (let cp_count = min NGROUPS_PER_BLOCK cnt in
      case copy_to_user umem grouplist (take cp_count b) of
        None \<Rightarrow> None
      | Some umem' \<Rightarrow> groups_to_user umem' (grouplist + NGROUPS_PER_BLOCK) (cnt - cp_count) bs)"


text \<open>The two-level block table behaves as one array of \<^verbatim>\<open>ngroups\<close> ids.\<close>

definition wf_gi :: "group_info \<Rightarrow> bool" where
  "wf_gi gi \<longleftrightarrow> (\<forall>i < ngroups gi. i div NGROUPS_PER_BLOCK < length (blocks gi) \<and>
     i mod NGROUPS_PER_BLOCK < length (blocks gi ! (i div NGROUPS_PER_BLOCK)))"

lemma ngroups_SET [simp]: "ngroups (SET_GROUP_AT gi i g) = ngroups gi"
  by (simp add: SET_GROUP_AT_def)

lemma length_group_array [simp]: "length (group_array gi) = ngroups gi"
  by (simp add: group_array_def)

lemma wf_gi_SET: "wf_gi gi \<Longrightarrow> i < ngroups gi \<Longrightarrow> wf_gi (SET_GROUP_AT gi i g)"
  by (auto simp: wf_gi_def SET_GROUP_AT_def nth_list_update)

lemma GROUP_AT_SET:
  assumes "wf_gi gi" "i < ngroups gi" "j < ngroups gi"
  shows "GROUP_AT (SET_GROUP_AT gi i g) j = (if i = j then g else GROUP_AT gi j)"
proof (cases "i div NGROUPS_PER_BLOCK = j div NGROUPS_PER_BLOCK")
  case True
  then have "i mod NGROUPS_PER_BLOCK = j mod NGROUPS_PER_BLOCK \<longleftrightarrow> i = j"
    by (metis mod_div_mult_eq)
  with True assms show ?thesis
    by (auto simp: GROUP_AT_def SET_GROUP_AT_def wf_gi_def nth_list_update)
next
  case False
  then show ?thesis by (auto simp: GROUP_AT_def SET_GROUP_AT_def)
qed

lemma group_array_SET:
  "wf_gi gi \<Longrightarrow> i < ngroups gi \<Longrightarrow> group_array (SET_GROUP_AT gi i g) = (group_array gi)[i := g]"
  by (rule nth_equalityI) (auto simp: group_array_def GROUP_AT_SET nth_list_update)

lemma store_groups_array:
  "wf_gi gi \<Longrightarrow> i + length gs = ngroups gi \<Longrightarrow>
   group_array (store_groups gi i gs) = take i (group_array gi) @ gs \<and> wf_gi (store_groups gi i gs) \<and>
   ngroups (store_groups gi i gs) = ngroups gi"
proof (induction gs arbitrary: gi i)
  case (Cons g gs)
  then have "i < ngroups gi" by simp
  with Cons show ?case
    using Cons.IH [of "SET_GROUP_AT gi i g" "Suc i"]
    by (simp add: wf_gi_SET group_array_SET take_Suc_conv_app_nth)
qed simp

lemma alloc_pages_spec:
  "alloc_pages page i n = Some bs \<Longrightarrow> length bs = n \<and> (\<forall>j < n. page (i + j) = Some (bs ! j))"
proof (induction n arbitrary: i bs)
  case (Suc n)
  then obtain b bs' where b: "page i = Some b" "alloc_pages page (Suc i) n = Some bs'" "bs = b # bs'"
    by (auto split: option.splits)
  from Suc.IH [OF b(2)] b show ?case by (auto simp: nth_Cons split: nat.splits)
qed simp

lemma groups_alloc_wf:
  assumes "groups_alloc small page n = Some gi"
    and small: "\<And>sb. small = Some sb \<Longrightarrow> length sb = NGROUPS_SMALL"
    and page: "\<And>i b. page i = Some b \<Longrightarrow> length b = NGROUPS_PER_BLOCK"
  shows "wf_gi gi" and "ngroups gi = n"
proof -
  have div_bound: "i div 1024 < (n + 1023) div 1024" if "i < n" for i
    using that by (simp add: less_eq_Suc_le [symmetric] div_less_iff_less_mult)
  show "ngroups gi = n"
    using assms(1) by (auto simp: groups_alloc_def Let_def split: option.splits if_splits)
  show "wf_gi gi"
  proof (cases "n \<le> NGROUPS_SMALL")
    case True
    with assms(1) obtain sb where "small = Some sb" "blocks gi = [sb]" "ngroups gi = n"
      by (auto simp: groups_alloc_def Let_def split: option.splits)
    with True small [of sb] show ?thesis by (auto simp: wf_gi_def NGROUPS_SMALL_def NGROUPS_PER_BLOCK_def)
  next
    case False
    then have n: "(n + 1023) div 1024 \<noteq> 0" by (simp add: NGROUPS_SMALL_def)
    with assms(1) False obtain bs where
      bs: "alloc_pages page 0 ((n + 1023) div 1024) = Some bs" "blocks gi = bs" "ngroups gi = n"
      by (auto simp: groups_alloc_def Let_def NGROUPS_PER_BLOCK_def add.commute split: option.splits if_splits)
    have "length (bs ! (i div 1024)) = 1024" if "i < n" for i
      using alloc_pages_spec [OF bs(1)] page [of "i div 1024"] div_bound [OF that] by (simp add: NGROUPS_PER_BLOCK_def)
    with alloc_pages_spec [OF bs(1)] bs div_bound show ?thesis
      by (simp add: wf_gi_def NGROUPS_PER_BLOCK_def)
  qed
qed

lemma copy_from_user_Some:
  "copy_from_user umem off n = Some gids \<Longrightarrow>
   length gids = n \<and> (\<forall>i < n. umem (off + i) = Some (gids ! i))"
  by (auto simp: copy_from_user_def split: if_splits)

lemma groups_from_user_spec:
  assumes "groups_from_user umem off cnt bs = Some bs'" and "i < cnt"
    and "i div NGROUPS_PER_BLOCK < length bs"
  shows "umem (off + i) = Some (bs' ! (i div NGROUPS_PER_BLOCK) ! (i mod NGROUPS_PER_BLOCK))"
  using assms
proof (induction umem off cnt bs arbitrary: bs' i rule: groups_from_user.induct)
  case (2 umem off cnt b bs)
  let ?cp = "min NGROUPS_PER_BLOCK cnt"
  obtain gids rest where c: "copy_from_user umem off ?cp = Some gids"
    and r: "groups_from_user umem (off + NGROUPS_PER_BLOCK) (cnt - ?cp) bs = Some rest"
    and bs': "bs' = (gids @ drop ?cp b) # rest"
    using "2.prems"(1) by (auto simp: Let_def split: option.splits)
  note spec = copy_from_user_Some [OF c]
  show ?case
  proof (cases "i < NGROUPS_PER_BLOCK")
    case True
    with spec bs' "2.prems"(2) show ?thesis by (simp add: nth_append)
  next
    case False
    then have cp: "?cp = NGROUPS_PER_BLOCK" using "2.prems"(2) by simp
    have dm: "i div NGROUPS_PER_BLOCK = Suc ((i - NGROUPS_PER_BLOCK) div NGROUPS_PER_BLOCK)"
      "i mod NGROUPS_PER_BLOCK = (i - NGROUPS_PER_BLOCK) mod NGROUPS_PER_BLOCK"
      using False by (simp_all add: le_div_geq le_mod_geq NGROUPS_PER_BLOCK_def)
    have "umem (off + NGROUPS_PER_BLOCK + (i - NGROUPS_PER_BLOCK)) =
        Some (rest ! ((i - NGROUPS_PER_BLOCK) div NGROUPS_PER_BLOCK) ! ((i - NGROUPS_PER_BLOCK) mod NGROUPS_PER_BLOCK))"
      using "2.prems" False cp dm by (intro "2.IH" [OF refl c r]) auto
    with False bs' show ?thesis unfolding dm by simp
  qed
qed simp

lemma length_groups_from_user:
  "groups_from_user umem off cnt bs = Some bs' \<Longrightarrow>
   length bs' = length bs \<and> (\<forall>j < length bs. length (bs ! j) \<le> length (bs' ! j))"
proof (induction umem off cnt bs arbitrary: bs' rule: groups_from_user.induct)
  case (2 umem off cnt b bs)
  let ?cp = "min NGROUPS_PER_BLOCK cnt"
  obtain gids rest where c: "copy_from_user umem off ?cp = Some gids"
    and r: "groups_from_user umem (off + NGROUPS_PER_BLOCK) (cnt - ?cp) bs = Some rest"
    and bs': "bs' = (gids @ drop ?cp b) # rest"
    using "2.prems"(1) by (auto simp: Let_def split: option.splits)
  from copy_from_user_Some [OF c] "2.IH" [OF refl c r] bs' show ?case
    by (auto simp: nth_Cons split: nat.splits)
qed simp

section \<open>Sorting\<close>

function shift_right :: "gid_t list \<Rightarrow> int \<Rightarrow> nat \<Rightarrow> nat \<Rightarrow> gid_t \<Rightarrow> gid_t list" where
  "shift_right a left right stride tmp =
     (if 0 < stride \<and> 0 \<le> left \<and> tmp < a ! nat left
      then shift_right (a[right := a ! nat left]) (left - int stride) (nat left) stride tmp
      else a[right := tmp])"
  by pat_completeness auto
termination
  by (relation "measure (\<lambda>(a, left, right, stride, tmp). nat (left + 1))") auto

declare shift_right.simps [simp del]

fun stride_pass :: "gid_t list \<Rightarrow> nat \<Rightarrow> nat \<Rightarrow> nat \<Rightarrow> gid_t list" where
  "stride_pass a stride base 0 = a"
| "stride_pass a stride base (Suc n) =
     (let right = base + stride; tmp = a ! right
      in stride_pass (shift_right a (int base) right stride tmp) stride (Suc base) n)"

function first_stride :: "nat \<Rightarrow> nat \<Rightarrow> nat" where
  "first_stride gidsetsize stride =
     (if stride < gidsetsize then first_stride gidsetsize (3 * stride + 1) else stride)"
  by pat_completeness auto
termination
  by (relation "measure (\<lambda>(n, s). n - s)") auto

declare first_stride.simps [simp del]

fun stride_loop :: "gid_t list \<Rightarrow> nat \<Rightarrow> gid_t list" where
  "stride_loop a stride =
     (if stride = 0 then a
      else stride_loop (stride_pass a stride 0 (length a - stride)) (stride div 3))"

declare stride_loop.simps [simp del]

definition groups_sort :: "gid_t list \<Rightarrow> gid_t list" where
  "groups_sort a = stride_loop a (first_stride (length a) 1 div 3)"

section \<open>Lemmas\<close>

lemma length_shift_right [simp]: "length (shift_right a left right stride tmp) = length a"
  by (induction a left right stride tmp rule: shift_right.induct) (subst shift_right.simps, simp)

lemma mset_shift_right:
  assumes "left = int right - int stride" "right < length a"
  shows "mset (shift_right a left right stride tmp) = mset (a[right := tmp])"
  using assms
proof (induction a left right stride tmp rule: shift_right.induct)
  case (1 a left right stride tmp)
  show ?case
  proof (cases "0 < stride \<and> 0 \<le> left \<and> tmp < a ! nat left")
    case False
    then show ?thesis by (subst shift_right.simps) auto
  next
    case True
    let ?l = "nat left"
    have l: "?l < right" "?l < length a" using True 1(2,3) by auto
    have "mset (shift_right a left right stride tmp) = mset (a[right := a ! ?l, ?l := tmp])"
      using True 1 l by (subst shift_right.simps) auto
    also have "a[right := a ! ?l, ?l := tmp] = (a[right := tmp])[right := a[right := tmp] ! ?l, ?l := a[right := tmp] ! right]"
      using l 1(3) by (simp add: nth_list_update)
    also have "mset \<dots> = mset (a[right := tmp])"
      using l 1(3) by (subst mset_swap) auto
    finally show ?thesis .
  qed
qed

lemma mset_stride_pass:
  "base + n + stride \<le> length a \<Longrightarrow> mset (stride_pass a stride base n) = mset a
    \<and> length (stride_pass a stride base n) = length a"
proof (induction n arbitrary: a base)
  case (Suc n)
  let ?a = "shift_right a (int base) (base + stride) stride (a ! (base + stride))"
  have "mset ?a = mset a"
    using Suc.prems by (subst mset_shift_right) auto
  with Suc.IH [of "Suc base" ?a] Suc.prems show ?case by (simp add: Let_def)
qed simp

text \<open>With stride one the inner loop inserts the element into the sorted prefix.\<close>

lemma shift_right_insert:
  assumes "sorted p"
  shows "shift_right (p @ h # rest) (int (length p) - 1) (length p) 1 tmp =
    filter (\<lambda>x. x \<le> tmp) p @ tmp # filter (\<lambda>x. tmp < x) p @ rest"
  using assms
proof (induction p arbitrary: h rest rule: rev_induct)
  case Nil
  then show ?case by (subst shift_right.simps) simp
next
  case (snoc l p)
  have sp: "sorted p" and le: "\<forall>x \<in> set p. x \<le> l"
    using snoc.prems by (auto simp: sorted_append)
  show ?case
  proof (cases "tmp < l")
    case True
    then have "shift_right ((p @ [l]) @ h # rest) (int (length (p @ [l])) - 1) (length (p @ [l])) 1 tmp =
        shift_right (p @ l # l # rest) (int (length p) - 1) (length p) 1 tmp"
      by (subst shift_right.simps) (simp add: nth_append list_update_append)
    also have "\<dots> = filter (\<lambda>x. x \<le> tmp) p @ tmp # filter (\<lambda>x. tmp < x) p @ l # rest"
      by (rule snoc.IH [OF sp])
    finally show ?thesis using True by simp
  next
    case False
    then have all: "\<forall>x \<in> set p. x \<le> tmp" using le by auto
    then have "filter (\<lambda>x. x \<le> tmp) p = p" "filter (\<lambda>x. tmp < x) p = []"
      by (auto simp: filter_empty_conv)
    with False show ?thesis
      by (subst shift_right.simps) (simp add: nth_append list_update_append)
  qed
qed

lemma stride_pass_sorts:
  assumes "sorted p" "length rest = n" "base + 1 = length p"
  shows "sorted (stride_pass (p @ rest) 1 base n)"
  using assms
proof (induction n arbitrary: p rest base)
  case 0
  then show ?case by simp
next
  case (Suc n)
  then obtain x rest' where rest: "rest = x # rest'" and n: "length rest' = n"
    by (cases rest) auto
  let ?p = "filter (\<lambda>y. y \<le> x) p @ x # filter (\<lambda>y. x < y) p"
  have "shift_right (p @ rest) (int base) (base + 1) 1 ((p @ rest) ! (base + 1)) = ?p @ rest'"
    using shift_right_insert [OF Suc.prems(1), of x rest' x] Suc.prems(3)
    by (simp add: rest nth_append of_nat_diff flip: Suc.prems(3))
  moreover have "sorted ?p"
    using Suc.prems(1) by (auto simp: sorted_append sorted_wrt_filter intro: order.strict_implies_order)
  moreover have "length ?p = Suc (length p)"
    using sum_length_filter_compl [of "\<lambda>y. y \<le> x" p] by (simp add: not_le)
  ultimately show ?case
    using Suc.IH [of ?p rest' "Suc base"] n Suc.prems(3) by (simp add: Let_def)
qed

lemma mset_stride_loop: "mset (stride_loop a stride) = mset a"
proof (induction stride arbitrary: a rule: less_induct)
  case (less stride)
  have "mset (stride_pass a stride 0 (length a - stride)) = mset a"
    by (cases "stride \<le> length a") (simp_all add: mset_stride_pass)
  then show ?case
    using less [of "stride div 3"] by (subst stride_loop.simps) simp
qed

lemma stride_chain:
  assumes "\<exists>k. s = ((\<lambda>s. 3 * s + 1) ^^ k) 1"
  shows "0 < s" "s = 1 \<or> (\<exists>k. s div 3 = ((\<lambda>s. 3 * s + 1) ^^ k) (1::nat))"
proof -
  obtain k where k: "s = ((\<lambda>s. 3 * s + 1) ^^ k) 1" using assms by blast
  have "0 < ((\<lambda>s. 3 * s + 1) ^^ k) (1::nat)" by (induction k) auto
  then show "0 < s" using k by simp
  show "s = 1 \<or> (\<exists>k. s div 3 = ((\<lambda>s. 3 * s + 1) ^^ k) (1::nat))"
  proof (cases k)
    case (Suc j)
    then have "s div 3 = ((\<lambda>s. 3 * s + 1) ^^ j) 1" using k by simp
    then show ?thesis by blast
  qed (use k in simp)
qed

lemma sorted_stride_loop:
  "\<exists>k. s = ((\<lambda>s. 3 * s + 1) ^^ k) 1 \<Longrightarrow> sorted (stride_loop a s)"
proof (induction s arbitrary: a rule: less_induct)
  case (less s)
  note chain = stride_chain [OF less.prems]
  let ?a = "stride_pass a s 0 (length a - s)"
  have eq: "stride_loop a s = stride_loop ?a (s div 3)"
    using chain(1) by (subst stride_loop.simps) simp
  show ?case
  proof (cases "s = 1")
    case True
    have "sorted ?a"
    proof (cases a)
      case (Cons x xs)
      then show ?thesis using stride_pass_sorts [of "[x]" xs "length xs" 0] True by simp
    qed simp
    then show ?thesis unfolding eq using True by (subst stride_loop.simps) simp
  next
    case False
    with chain less.IH [of "s div 3" ?a] show ?thesis unfolding eq by auto
  qed
qed

lemma first_stride_chain:
  "\<exists>k. s = ((\<lambda>s. 3 * s + 1) ^^ k) 1 \<Longrightarrow> \<exists>k. first_stride n s = ((\<lambda>s. 3 * s + 1) ^^ k) 1"
proof (induction n s rule: first_stride.induct)
  case (1 n s)
  then obtain k where "s = ((\<lambda>s. 3 * s + 1) ^^ k) 1" by blast
  then have "3 * s + 1 = ((\<lambda>s. 3 * s + 1) ^^ Suc k) 1" by simp
  with 1 show ?case by (subst first_stride.simps) metis
qed

lemma first_stride_ge: "n \<le> first_stride n s"
  by (induction n s rule: first_stride.induct) (subst first_stride.simps, simp)

lemma sorted_groups_sort: "sorted (groups_sort a)"
proof -
  have "\<exists>k. (1::nat) = ((\<lambda>s. 3 * s + 1) ^^ k) 1" by (rule exI [of _ 0]) simp
  from first_stride_chain [OF this]
  consider "first_stride (length a) 1 = 1" |
      "\<exists>k. first_stride (length a) 1 div 3 = ((\<lambda>s. 3 * s + 1) ^^ k) 1"
    using stride_chain(2) by blast
  then show ?thesis
  proof cases
    case 1
    then have "length a \<le> 1" using first_stride_ge [of "length a" 1] by simp
    with 1 show ?thesis
      by (auto simp: groups_sort_def stride_loop.simps [of a] sorted01)
  qed (simp add: groups_sort_def sorted_stride_loop)
qed

lemma mset_groups_sort: "mset (groups_sort a) = mset a"
  by (simp add: groups_sort_def mset_stride_loop)

section \<open>Searching\<close>

function groups_bsearch :: "gid_t list \<Rightarrow> gid_t \<Rightarrow> nat \<Rightarrow> nat \<Rightarrow> bool" where
  "groups_bsearch a grp left right =
     (if left < right then
        let mid = (left + right) div 2 in
        if a ! mid < grp then groups_bsearch a grp (mid + 1) right
        else if grp < a ! mid then groups_bsearch a grp left mid
        else True
      else False)"
  by pat_completeness auto
termination
  by (relation "measure (\<lambda>(a, grp, left, right). right - left)") auto

declare groups_bsearch.simps [simp del]

definition groups_search :: "gid_t list option \<Rightarrow> gid_t \<Rightarrow> bool" where
  "groups_search gi grp = (case gi of None \<Rightarrow> False | Some a \<Rightarrow> groups_bsearch a grp 0 (length a))"

lemma groups_bsearch_iff:
  assumes "sorted a" "right \<le> length a"
  shows "groups_bsearch a grp left right \<longleftrightarrow> (\<exists>i. left \<le> i \<and> i < right \<and> a ! i = grp)"
  using assms
proof (induction a grp left right rule: groups_bsearch.induct)
  case (1 a grp left right)
  show ?case
  proof (cases "left < right")
    case False
    then show ?thesis by (subst groups_bsearch.simps) auto
  next
    case True
    let ?m = "(left + right) div 2"
    have m: "left \<le> ?m" "?m < right" using True by auto
    consider "a ! ?m < grp" | "grp < a ! ?m" | "a ! ?m = grp" by fastforce
    then show ?thesis
    proof cases
      case 1
      have "?m < i" if "a ! i = grp" "i < right" for i
      proof (rule ccontr)
        assume "\<not> ?m < i"
        then have "a ! i \<le> a ! ?m" using \<open>sorted a\<close> m \<open>right \<le> length a\<close> by (intro sorted_nth_mono) auto
        with 1 that show False by simp
      qed
      then have "(\<exists>i. left \<le> i \<and> i < right \<and> a ! i = grp) \<longleftrightarrow> (\<exists>i. ?m + 1 \<le> i \<and> i < right \<and> a ! i = grp)"
        using m(1) by (intro iff_exI) force
      with 1 "1.IH"(1) [OF True refl] "1.prems" True show ?thesis
        by (subst groups_bsearch.simps) (simp add: Let_def)
    next
      case 2
      have "i < ?m" if "a ! i = grp" "i < right" for i
      proof (rule ccontr)
        assume "\<not> i < ?m"
        then have "a ! ?m \<le> a ! i" using \<open>sorted a\<close> that \<open>right \<le> length a\<close> by (intro sorted_nth_mono) auto
        with 2 that show False by simp
      qed
      with 2 "1.IH"(2) [OF True refl] "1.prems" True m show ?thesis
        by (subst groups_bsearch.simps) (auto simp: Let_def)
    next
      case 3
      with True m show ?thesis by (subst groups_bsearch.simps) (auto simp: Let_def)
    qed
  qed
qed

lemma groups_search_sorted: "sorted a \<Longrightarrow> groups_search (Some a) grp \<longleftrightarrow> grp \<in> set a"
  by (simp add: groups_search_def groups_bsearch_iff in_set_conv_nth)

section \<open>Credentials and system calls\<close>

record cred =
  cr_uid :: u32
  cr_gid :: gid_t
  cr_suid :: u32
  cr_sgid :: gid_t
  cr_euid :: u32
  cr_egid :: gid_t
  cr_fsuid :: u32
  cr_fsgid :: gid_t
  cr_securebits :: u32
  cr_cap_inheritable :: kernel_cap_t
  cr_cap_permitted :: kernel_cap_t
  cr_cap_effective :: kernel_cap_t
  cr_cap_bset :: kernel_cap_t
  cr_user :: user_struct
  cr_group_info :: group_info

definition init_groups :: group_info where
  "init_groups = \<lparr>ngroups = 0, nblocks = 0, blocks = []\<rparr>"

definition init_cred :: cred where
  "init_cred = \<lparr>cr_uid = 0, cr_gid = 0, cr_suid = 0, cr_sgid = 0, cr_euid = 0, cr_egid = 0,
     cr_fsuid = 0, cr_fsgid = 0, cr_securebits = 0, cr_cap_inheritable = cap_empty_set,
     cr_cap_permitted = CAP_FULL_SET, cr_cap_effective = CAP_FULL_SET, cr_cap_bset = CAP_FULL_SET,
     cr_user = INIT_USER, cr_group_info = init_groups\<rparr>"

definition NGROUPS_MAX :: nat where "NGROUPS_MAX = 65536"

definition sort_group_info :: "group_info \<Rightarrow> group_info" where
  "sort_group_info gi = store_groups gi 0 (groups_sort (group_array gi))"

definition search_group_info :: "group_info \<Rightarrow> gid_t \<Rightarrow> bool" where
  "search_group_info gi grp = groups_search (Some (group_array gi)) grp"

definition set_groups :: "cred \<Rightarrow> group_info \<Rightarrow> cred" where
  "set_groups new group_info = new\<lparr>cr_group_info := sort_group_info group_info\<rparr>"

definition set_current_groups :: "bool \<Rightarrow> cred \<Rightarrow> group_info \<Rightarrow> cred result" where
  "set_current_groups prepare_ok cred group_info =
     (if \<not> prepare_ok then Inl ENOMEM else Inr (set_groups cred group_info))"

text \<open>
  \<open>capable\<close> is the answer of \<^verbatim>\<open>nsown_capable(CAP_SETGID)\<close>, \<open>small\<close> and \<open>page\<close> the memory
  the allocators hand out, \<open>prepare_ok\<close> says whether \<^verbatim>\<open>prepare_creds\<close> gets its memory,
  \<open>umem\<close> is the user's array.
\<close>

definition sys_setgroups ::
  "bool \<Rightarrow> gid_t list option \<Rightarrow> (nat \<Rightarrow> gid_t list option) \<Rightarrow> bool \<Rightarrow> (nat \<Rightarrow> gid_t option) \<Rightarrow>
   cred \<Rightarrow> u32 \<Rightarrow> cred result" where
  "sys_setgroups capable small page prepare_ok umem cred gidsetsize =
     (if \<not> capable then Inl EPERM
      else if NGROUPS_MAX < unat gidsetsize then Inl EINVAL
      else case groups_alloc small page (unat gidsetsize) of
        None \<Rightarrow> Inl ENOMEM
      | Some gi \<Rightarrow>
          (case groups_from_user umem 0 (ngroups gi) (blocks gi) of
             None \<Rightarrow> Inl EFAULT
           | Some bs \<Rightarrow> set_current_groups prepare_ok cred (gi\<lparr>blocks := bs\<rparr>)))"

definition sys_getgroups ::
  "(nat \<Rightarrow> gid_t option) \<Rightarrow> cred \<Rightarrow> u32 \<Rightarrow> (nat \<times> (nat \<Rightarrow> gid_t option)) result" where
  "sys_getgroups umem cred gidsetsize =
     (let gi = cr_group_info cred; i = ngroups gi in
      if sint gidsetsize < 0 then Inl EINVAL
      else if gidsetsize \<noteq> 0 then
        if sint gidsetsize < int i then Inl EINVAL
        else case groups_to_user umem 0 (ngroups gi) (blocks gi) of
               None \<Rightarrow> Inl EFAULT
             | Some umem' \<Rightarrow> Inr (i, umem')
      else Inr (i, umem))"

definition in_group_p :: "cred \<Rightarrow> gid_t \<Rightarrow> bool" where
  "in_group_p cred grp = (if grp \<noteq> cr_fsgid cred then search_group_info (cr_group_info cred) grp else True)"

definition in_egroup_p :: "cred \<Rightarrow> gid_t \<Rightarrow> bool" where
  "in_egroup_p cred grp = (if grp \<noteq> cr_egid cred then search_group_info (cr_group_info cred) grp else True)"

section \<open>The membership interface\<close>

text \<open>
  What the permission checks rely on: a group list is built once from the ids the user
  supplied and then only asked for membership.
\<close>

locale gid_set =
  fixes build :: "gid_t list \<Rightarrow> 's"
    and member :: "'s \<Rightarrow> gid_t \<Rightarrow> bool"
  assumes member_build: "member (build gids) g \<longleftrightarrow> g \<in> set gids"
begin

lemma member_build_cong: "set gids = set gids' \<Longrightarrow> member (build gids) = member (build gids')"
  by (rule ext) (simp add: member_build)

lemma member_build_append:
  "member (build (gids @ gids')) g \<longleftrightarrow> member (build gids) g \<or> member (build gids') g"
  by (simp add: member_build)

lemma not_member_empty: "\<not> member (build []) g"
  by (simp add: member_build)

end

interpretation groups: gid_set groups_sort "\<lambda>a. groups_search (Some a)"
proof
  show "groups_search (Some (groups_sort gids)) g \<longleftrightarrow> g \<in> set gids" for gids g
    using mset_groups_sort [of gids] by (metis groups_search_sorted mset_eq_setD sorted_groups_sort)
qed

lemma length_groups_sort [simp]: "length (groups_sort a) = length a"
  by (metis mset_groups_sort size_mset)

text \<open>The group list of a task is always one the kernel sorted.\<close>

definition cred_ok :: "cred \<Rightarrow> bool" where
  "cred_ok cred \<longleftrightarrow> wf_gi (cr_group_info cred) \<and> sorted (group_array (cr_group_info cred))"

lemma sort_group_info_array:
  assumes "wf_gi gi"
  shows "group_array (sort_group_info gi) = groups_sort (group_array gi)"
    and "wf_gi (sort_group_info gi)" and "ngroups (sort_group_info gi) = ngroups gi"
  using store_groups_array [OF assms, of 0 "groups_sort (group_array gi)"]
  by (simp_all add: sort_group_info_def)

lemma set_groups_ok: "wf_gi gi \<Longrightarrow> cred_ok (set_groups cred gi)"
  by (simp add: cred_ok_def set_groups_def sort_group_info_array sorted_groups_sort)

lemma in_group_p_iff:
  "cred_ok cred \<Longrightarrow>
   in_group_p cred g \<longleftrightarrow> g = cr_fsgid cred \<or> g \<in> set (group_array (cr_group_info cred))"
  by (auto simp: in_group_p_def cred_ok_def search_group_info_def groups_search_sorted)

lemma from_user_array:
  assumes "groups_from_user umem 0 (ngroups gi) (blocks gi) = Some bs" and "wf_gi gi"
  shows "map Some (group_array (gi\<lparr>blocks := bs\<rparr>)) = map umem [0..<ngroups gi]"
    and "wf_gi (gi\<lparr>blocks := bs\<rparr>)"
proof -
  show "map Some (group_array (gi\<lparr>blocks := bs\<rparr>)) = map umem [0..<ngroups gi]"
    using groups_from_user_spec [OF assms(1)] assms(2)
    by (auto simp: group_array_def GROUP_AT_def wf_gi_def)
  show "wf_gi (gi\<lparr>blocks := bs\<rparr>)"
    using length_groups_from_user [OF assms(1)] assms(2) by (fastforce simp: wf_gi_def)
qed

lemma sys_setgroups_Inr:
  assumes "sys_setgroups capable small page prepare_ok umem cred n = Inr cred'"
    and "\<And>sb. small = Some sb \<Longrightarrow> length sb = NGROUPS_SMALL"
    and "\<And>i b. page i = Some b \<Longrightarrow> length b = NGROUPS_PER_BLOCK"
  obtains gids where "map umem [0..<unat n] = map Some gids"
    and "group_array (cr_group_info cred') = groups_sort gids" and "wf_gi (cr_group_info cred')"
    and "cr_fsgid cred' = cr_fsgid cred" and "cr_egid cred' = cr_egid cred"
proof -
  obtain gi bs where gi: "groups_alloc small page (unat n) = Some gi"
    and bs: "groups_from_user umem 0 (ngroups gi) (blocks gi) = Some bs"
    and cred': "cred' = set_groups cred (gi\<lparr>blocks := bs\<rparr>)"
    using assms(1)
    by (auto simp: sys_setgroups_def set_current_groups_def split: if_splits option.splits)
  have wf: "wf_gi gi" "ngroups gi = unat n" using groups_alloc_wf [OF gi assms(2,3)] by simp_all
  note fu = from_user_array [OF bs wf(1)]
  show thesis
    by (rule that [of "group_array (gi\<lparr>blocks := bs\<rparr>)"])
      (use fu wf cred' in \<open>simp_all add: set_groups_def sort_group_info_array\<close>)
qed

section \<open>Properties\<close>

text \<open>C24: the Shell sort of the group list sorts it and keeps exactly its ids.\<close>

theorem groups_sort_correct: "sorted (groups_sort gids) \<and> mset (groups_sort gids) = mset gids"
  by (simp add: sorted_groups_sort mset_groups_sort)

text \<open>C15: after a successful \<^verbatim>\<open>setgroups\<close> the task is in a group exactly when the group is its
  file-system group or one of the ids the user passed, in whatever order they were passed.\<close>

theorem setgroups_in_group:
  assumes "sys_setgroups capable small page prepare_ok umem cred n = Inr cred'"
    and "\<And>sb. small = Some sb \<Longrightarrow> length sb = NGROUPS_SMALL"
    and "\<And>i b. page i = Some b \<Longrightarrow> length b = NGROUPS_PER_BLOCK"
  shows "in_group_p cred' g \<longleftrightarrow> g = cr_fsgid cred \<or> (\<exists>i < unat n. umem i = Some g)"
proof -
  obtain gids where gids: "map umem [0..<unat n] = map Some gids"
    "group_array (cr_group_info cred') = groups_sort gids" "cr_fsgid cred' = cr_fsgid cred"
    by (rule sys_setgroups_Inr [OF assms])
  have "Some g \<in> set (map umem [0..<unat n]) \<longleftrightarrow> g \<in> set gids" unfolding gids by auto
  then have "g \<in> set gids \<longleftrightarrow> (\<exists>i < unat n. umem i = Some g)" by (force simp: image_iff)
  with gids show ?thesis
    by (auto simp: in_group_p_def search_group_info_def groups.member_build)
qed

theorem setgroups_in_group_witness:
  "\<exists>cred'. sys_setgroups True (Some (replicate 32 0)) (\<lambda>_. None) True [0 \<mapsto> 30, 1 \<mapsto> 10, 2 \<mapsto> 20]
     (init_cred\<lparr>cr_fsuid := 0, cr_fsgid := 5\<rparr>) 3 = Inr cred' \<and>
     in_group_p cred' 20 \<and> in_group_p cred' 5 \<and> \<not> in_group_p cred' 40"
proof -
  let ?u = "[0 \<mapsto> 30, 1 \<mapsto> 10, 2 \<mapsto> 20] :: nat \<Rightarrow> gid_t option"
  let ?c = "(init_cred\<lparr>cr_fsuid := 0, cr_fsgid := 5\<rparr>)"
  have "\<exists>cred'. sys_setgroups True (Some (replicate 32 0)) (\<lambda>_. None) True ?u ?c 3 = Inr cred'"
    by (simp add: sys_setgroups_def groups_alloc_def copy_from_user_def set_current_groups_def
        init_cred_def NGROUPS_MAX_def NGROUPS_SMALL_def NGROUPS_PER_BLOCK_def Let_def atLeastLessThan_nat_numeral)
  then obtain cred' where ok: "sys_setgroups True (Some (replicate 32 0)) (\<lambda>_. None) True ?u ?c 3 = Inr cred'"
    by blast
  have "(\<exists>i < 3. ?u i = Some g) \<longleftrightarrow> g = 30 \<or> g = 10 \<or> g = 20" for g
    by (simp add: numeral_3_eq_3 Ex_less_Suc eq_commute [of _ g] disj_ac)
  then have "in_group_p cred' g \<longleftrightarrow> g = 5 \<or> g = 30 \<or> g = 10 \<or> g = 20" for g
    using setgroups_in_group [OF ok, of g] by (simp add: NGROUPS_SMALL_def)
  with ok show ?thesis
    by (intro exI [of _ cred']) simp
qed

lemma copy_to_user_Some:
  "copy_to_user umem off gids = Some umem' \<Longrightarrow>
   (\<forall>i < length gids. umem' (off + i) = Some (gids ! i)) \<and> (\<forall>j < off. umem' j = umem j)"
  by (auto simp: copy_to_user_def split: if_splits)

lemma groups_to_user_below:
  "groups_to_user umem off cnt bs = Some umem' \<Longrightarrow> j < off \<Longrightarrow> umem' j = umem j"
proof (induction umem off cnt bs arbitrary: umem' rule: groups_to_user.induct)
  case (2 umem off cnt b bs)
  then obtain u where u: "copy_to_user umem off (take (min NGROUPS_PER_BLOCK cnt) b) = Some u"
    and r: "groups_to_user u (off + NGROUPS_PER_BLOCK) (cnt - min NGROUPS_PER_BLOCK cnt) bs = Some umem'"
    by (auto simp: Let_def split: option.splits)
  from "2.IH" [OF refl u r] copy_to_user_Some [OF u] "2.prems"(2) show ?case by simp
qed simp

lemma groups_to_user_spec:
  assumes "groups_to_user umem off cnt bs = Some umem'" and "i < cnt"
    and "i div NGROUPS_PER_BLOCK < length bs"
    and "i mod NGROUPS_PER_BLOCK < length (bs ! (i div NGROUPS_PER_BLOCK))"
  shows "umem' (off + i) = Some (bs ! (i div NGROUPS_PER_BLOCK) ! (i mod NGROUPS_PER_BLOCK))"
  using assms
proof (induction umem off cnt bs arbitrary: i umem' rule: groups_to_user.induct)
  case (2 umem off cnt b bs)
  let ?cp = "min NGROUPS_PER_BLOCK cnt"
  obtain u where u: "copy_to_user umem off (take ?cp b) = Some u"
    and r: "groups_to_user u (off + NGROUPS_PER_BLOCK) (cnt - ?cp) bs = Some umem'"
    using "2.prems"(1) by (auto simp: Let_def split: option.splits)
  show ?case
  proof (cases "i < NGROUPS_PER_BLOCK")
    case True
    with "2.prems" groups_to_user_below [OF r, of "off + i"] copy_to_user_Some [OF u] show ?thesis
      by simp
  next
    case False
    have dm: "i div NGROUPS_PER_BLOCK = Suc ((i - NGROUPS_PER_BLOCK) div NGROUPS_PER_BLOCK)"
      "i mod NGROUPS_PER_BLOCK = (i - NGROUPS_PER_BLOCK) mod NGROUPS_PER_BLOCK"
      using False by (simp_all add: le_div_geq le_mod_geq NGROUPS_PER_BLOCK_def)
    have "umem' (off + NGROUPS_PER_BLOCK + (i - NGROUPS_PER_BLOCK)) =
        Some (bs ! ((i - NGROUPS_PER_BLOCK) div NGROUPS_PER_BLOCK) ! ((i - NGROUPS_PER_BLOCK) mod NGROUPS_PER_BLOCK))"
      using "2.prems" False dm by (intro "2.IH" [OF refl u r]) auto
    with False show ?thesis unfolding dm by simp
  qed
qed simp

lemma sys_getgroups_array:
  assumes "sys_getgroups umem cred m = Inr (k, umem')" and "m \<noteq> 0" and "wf_gi (cr_group_info cred)"
  shows "k = ngroups (cr_group_info cred)"
    and "map umem' [0..<k] = map Some (group_array (cr_group_info cred))"
proof -
  let ?gi = "cr_group_info cred"
  have k: "k = ngroups ?gi" and g: "groups_to_user umem 0 (ngroups ?gi) (blocks ?gi) = Some umem'"
    using assms by (auto simp: sys_getgroups_def Let_def split: if_splits option.splits)
  show "k = ngroups ?gi" by (rule k)
  show "map umem' [0..<k] = map Some (group_array ?gi)"
    using groups_to_user_spec [OF g] assms(3) by (auto simp: k group_array_def GROUP_AT_def wf_gi_def)
qed

lemma groups_to_user_mapped:
  "(\<And>i. umem i \<noteq> None) \<Longrightarrow> \<exists>umem'. groups_to_user umem off cnt bs = Some umem'"
proof (induction umem off cnt bs rule: groups_to_user.induct)
  case (2 umem off cnt b bs)
  obtain u where u: "copy_to_user umem off (take (min NGROUPS_PER_BLOCK cnt) b) = Some u" "\<And>i. u i \<noteq> None"
    using "2.prems" by (auto simp: copy_to_user_def)
  from "2.IH" [OF refl u] u(1) show ?case by (auto simp: Let_def)
qed simp

lemma ngroups_store_groups [simp]: "ngroups (store_groups gi i gs) = ngroups gi"
  by (induction gs arbitrary: gi i) simp_all

text \<open>C39: what \<^verbatim>\<open>getgroups\<close> writes to the user after \<^verbatim>\<open>setgroups\<close> is exactly the ids that
  were set, each as often as it was passed, in ascending order.\<close>

theorem getgroups_after_setgroups:
  assumes "sys_setgroups capable small page prepare_ok umem cred n = Inr cred'"
    and "\<And>sb. small = Some sb \<Longrightarrow> length sb = NGROUPS_SMALL"
    and "\<And>i b. page i = Some b \<Longrightarrow> length b = NGROUPS_PER_BLOCK"
    and "sys_getgroups buf cred' m = Inr (k, buf')" and "m \<noteq> 0"
  shows "k = unat n \<and> (\<exists>gids. map buf' [0..<k] = map Some gids \<and> sorted gids \<and>
           mset (map Some gids) = mset (map umem [0..<unat n]))"
proof
  obtain gids where gids: "map umem [0..<unat n] = map Some gids"
    "group_array (cr_group_info cred') = groups_sort gids" "wf_gi (cr_group_info cred')"
    by (rule sys_setgroups_Inr [OF assms(1-3)])
  note gg = sys_getgroups_array [OF assms(4,5) gids(3)]
  have "length gids = unat n" using arg_cong [OF gids(1), of length] by simp
  then show "k = unat n" using gg(1) gids(2) by (metis length_group_array length_groups_sort)
  show "\<exists>gids. map buf' [0..<k] = map Some gids \<and> sorted gids \<and>
      mset (map Some gids) = mset (map umem [0..<unat n])"
    using gg(2) unfolding gids
    by (intro exI [of _ "groups_sort gids"]) (simp add: sorted_groups_sort mset_groups_sort)
qed

theorem getgroups_after_setgroups_witness:
  "\<exists>cred' k buf'.
     sys_setgroups True (Some (replicate 32 0)) (\<lambda>_. None) True [0 \<mapsto> 30, 1 \<mapsto> 10]
       (init_cred\<lparr>cr_fsuid := 0, cr_fsgid := 5\<rparr>) 2 = Inr cred' \<and>
     sys_getgroups (\<lambda>_. Some 0) cred' 8 = Inr (k, buf') \<and> k = 2 \<and>
     (\<exists>gids. map buf' [0..<k] = map Some gids \<and> sorted gids \<and> mset (map Some gids) = {#Some 30, Some 10#})"
proof -
  let ?u = "[0 \<mapsto> 30, 1 \<mapsto> 10] :: nat \<Rightarrow> gid_t option"
  let ?c = "(init_cred\<lparr>cr_fsuid := 0, cr_fsgid := 5\<rparr>)"
  let ?set = "sys_setgroups True (Some (replicate 32 0)) (\<lambda>_. None) True ?u ?c 2"
  have "\<exists>cred'. ?set = Inr cred' \<and> ngroups (cr_group_info cred') = 2"
    by (simp add: sys_setgroups_def groups_alloc_def copy_from_user_def set_current_groups_def
        set_groups_def sort_group_info_def
        NGROUPS_MAX_def NGROUPS_SMALL_def NGROUPS_PER_BLOCK_def Let_def atLeastLessThan_nat_numeral)
  then obtain cred' where set: "?set = Inr cred'" "ngroups (cr_group_info cred') = 2" by blast
  have "\<exists>k buf'. sys_getgroups (\<lambda>_. Some 0) cred' 8 = Inr (k, buf')"
    using groups_to_user_mapped [of "\<lambda>_. Some 0" 0 "ngroups (cr_group_info cred')" "blocks (cr_group_info cred')"]
      set(2) by (auto simp: sys_getgroups_def Let_def)
  then obtain k buf' where get: "sys_getgroups (\<lambda>_. Some 0) cred' 8 = Inr (k, buf')" by blast
  have "k = unat (2 :: u32) \<and> (\<exists>gids. map buf' [0..<k] = map Some gids \<and> sorted gids \<and>
      mset (map Some gids) = mset (map ?u [0..<unat (2 :: u32)]))"
    by (rule getgroups_after_setgroups [OF set(1) _ _ get]) (simp_all add: NGROUPS_SMALL_def)
  moreover have "mset (map ?u [0..<unat (2 :: u32)]) = {#Some 30, Some 10#}" by (simp add: upt_rec)
  ultimately show ?thesis using set(1) get by fastforce
qed

end
