(* ===== verification/Posix_Acl.thy ===== *)
theory Posix_Acl
  imports Cred_Groups
begin

text \<open>
  POSIX access control lists (\<^verbatim>\<open>fs/posix_acl.c\<close>, \<^verbatim>\<open>include/linux/posix_acl.h\<close>) and their
  extended attribute encoding (\<^verbatim>\<open>fs/xattr_acl.c\<close>). An ACL is the list of its entries; the
  functions that change one through a pointer return the changed list. The contract of the
  component is \<open>wf_acl\<close>, the shape of a valid ACL, and \<open>acl_grants\<close>, the access check of the
  POSIX.1e draft; the locale \<open>acl_update\<close> collects what holds of every function that only
  changes permission bits, and is interpreted for the two that do. \<^verbatim>\<open>mode_t\<close> is 16 bits wide,
  as on ARM. Group membership comes from \<open>Cred_Groups\<close>.
\<close>

section \<open>Entries\<close>

datatype acl_tag =
    ACL_USER_OBJ | ACL_USER | ACL_GROUP_OBJ | ACL_GROUP | ACL_MASK | ACL_OTHER
  | ACL_UNKNOWN u16

type_synonym mode_t = u16

record posix_acl_entry =
  e_tag :: acl_tag
  e_perm :: u16
  e_id :: u32

type_synonym posix_acl = "posix_acl_entry list"

definition ACL_UNDEFINED_ID :: u32 where "ACL_UNDEFINED_ID = - 1"
definition S_IRWXU :: mode_t where "S_IRWXU = 448"
definition S_IRWXG :: mode_t where "S_IRWXG = 56"
definition S_IRWXO :: mode_t where "S_IRWXO = 7"
definition S_IRWXUGO :: mode_t where "S_IRWXUGO = S_IRWXU OR S_IRWXG OR S_IRWXO"

text \<open>\<open>alloc_ok\<close> says whether \<^verbatim>\<open>kmemdup\<close> gets its memory; \<^const>\<open>None\<close> is the null pointer.\<close>

definition posix_acl_clone :: "bool \<Rightarrow> posix_acl option \<Rightarrow> posix_acl option" where
  "posix_acl_clone alloc_ok acl =
     (case acl of None \<Rightarrow> None | Some a \<Rightarrow> if alloc_ok then Some a else None)"

section \<open>Validity\<close>

text \<open>The state variable of \<^verbatim>\<open>posix_acl_valid\<close> holds a tag or zero; zero is \<^const>\<open>None\<close>.\<close>

fun valid_loop :: "acl_tag option \<Rightarrow> u32 \<Rightarrow> bool \<Rightarrow> posix_acl \<Rightarrow> unit result" where
  "valid_loop state i needs_mask [] = (if state = None then Inr () else Inl EINVAL)"
| "valid_loop state i needs_mask (pa # acl) =
     (if e_perm pa AND NOT 7 \<noteq> 0 then Inl EINVAL
      else case e_tag pa of
        ACL_USER_OBJ \<Rightarrow>
          if state = Some ACL_USER_OBJ then valid_loop (Some ACL_USER) 0 needs_mask acl else Inl EINVAL
      | ACL_USER \<Rightarrow>
          if state \<noteq> Some ACL_USER then Inl EINVAL
          else if e_id pa = ACL_UNDEFINED_ID \<or> e_id pa < i then Inl EINVAL
          else valid_loop state (e_id pa + 1) True acl
      | ACL_GROUP_OBJ \<Rightarrow>
          if state = Some ACL_USER then valid_loop (Some ACL_GROUP) 0 needs_mask acl else Inl EINVAL
      | ACL_GROUP \<Rightarrow>
          if state \<noteq> Some ACL_GROUP then Inl EINVAL
          else if e_id pa = ACL_UNDEFINED_ID \<or> e_id pa < i then Inl EINVAL
          else valid_loop state (e_id pa + 1) True acl
      | ACL_MASK \<Rightarrow>
          if state \<noteq> Some ACL_GROUP then Inl EINVAL else valid_loop (Some ACL_OTHER) i needs_mask acl
      | ACL_OTHER \<Rightarrow>
          if state = Some ACL_OTHER \<or> state = Some ACL_GROUP \<and> \<not> needs_mask
          then valid_loop None i needs_mask acl else Inl EINVAL
      | ACL_UNKNOWN _ \<Rightarrow> Inl EINVAL)"

definition posix_acl_valid :: "posix_acl \<Rightarrow> unit result" where
  "posix_acl_valid acl = valid_loop (Some ACL_USER_OBJ) 0 False acl"

section \<open>Modes\<close>

fun equiv_loop :: "posix_acl \<Rightarrow> mode_t \<Rightarrow> bool \<Rightarrow> (mode_t \<times> bool) result" where
  "equiv_loop [] mode not_equiv = Inr (mode, not_equiv)"
| "equiv_loop (pa # acl) mode not_equiv =
     (case e_tag pa of
        ACL_USER_OBJ \<Rightarrow> equiv_loop acl (mode OR push_bit 6 (e_perm pa AND S_IRWXO)) not_equiv
      | ACL_GROUP_OBJ \<Rightarrow> equiv_loop acl (mode OR push_bit 3 (e_perm pa AND S_IRWXO)) not_equiv
      | ACL_OTHER \<Rightarrow> equiv_loop acl (mode OR (e_perm pa AND S_IRWXO)) not_equiv
      | ACL_MASK \<Rightarrow>
          equiv_loop acl ((mode AND NOT S_IRWXG) OR push_bit 3 (e_perm pa AND S_IRWXO)) True
      | ACL_USER \<Rightarrow> equiv_loop acl mode True
      | ACL_GROUP \<Rightarrow> equiv_loop acl mode True
      | ACL_UNKNOWN _ \<Rightarrow> Inl EINVAL)"

text \<open>The result is \<^verbatim>\<open>*mode_p\<close> after the call and the value returned.\<close>

definition posix_acl_equiv_mode :: "posix_acl \<Rightarrow> mode_t \<Rightarrow> (mode_t \<times> bool) result" where
  "posix_acl_equiv_mode acl mode_p =
     (case equiv_loop acl 0 False of
        Inl e \<Rightarrow> Inl e
      | Inr (mode, not_equiv) \<Rightarrow> Inr ((mode_p AND NOT S_IRWXUGO) OR mode, not_equiv))"

definition posix_acl_from_mode :: "bool \<Rightarrow> mode_t \<Rightarrow> posix_acl result" where
  "posix_acl_from_mode alloc_ok mode =
     (if \<not> alloc_ok then Inl ENOMEM
      else Inr [\<lparr>e_tag = ACL_USER_OBJ, e_perm = drop_bit 6 (mode AND S_IRWXU), e_id = ACL_UNDEFINED_ID\<rparr>,
                \<lparr>e_tag = ACL_GROUP_OBJ, e_perm = drop_bit 3 (mode AND S_IRWXG), e_id = ACL_UNDEFINED_ID\<rparr>,
                \<lparr>e_tag = ACL_OTHER, e_perm = mode AND S_IRWXO, e_id = ACL_UNDEFINED_ID\<rparr>])"

section \<open>Permission check\<close>

record inode_ids =
  i_uid :: u32
  i_gid :: u32

definition grants :: "u16 \<Rightarrow> u32 \<Rightarrow> bool" where
  "grants perm want \<longleftrightarrow> ucast perm AND want = want"

definition check_perm :: "posix_acl_entry \<Rightarrow> u32 \<Rightarrow> unit result" where
  "check_perm pa want = (if grants (e_perm pa) want then Inr () else Inl EACCES)"

fun mask_loop :: "posix_acl_entry \<Rightarrow> posix_acl \<Rightarrow> u32 \<Rightarrow> unit result" where
  "mask_loop pa [] want = check_perm pa want"
| "mask_loop pa (mask_obj # acl) want =
     (if e_tag mask_obj = ACL_MASK
      then if grants (e_perm pa AND e_perm mask_obj) want then Inr () else Inl EACCES
      else mask_loop pa acl want)"

fun permission_loop :: "cred \<Rightarrow> inode_ids \<Rightarrow> u32 \<Rightarrow> bool \<Rightarrow> posix_acl \<Rightarrow> unit result" where
  "permission_loop cred inode want found [] = Inl EIO"
| "permission_loop cred inode want found (pa # acl) =
     (case e_tag pa of
        ACL_USER_OBJ \<Rightarrow>
          if i_uid inode = cr_fsuid cred then check_perm pa want
          else permission_loop cred inode want found acl
      | ACL_USER \<Rightarrow>
          if e_id pa = cr_fsuid cred then mask_loop pa acl want
          else permission_loop cred inode want found acl
      | ACL_GROUP_OBJ \<Rightarrow>
          if in_group_p cred (i_gid inode) then
            if grants (e_perm pa) want then mask_loop pa acl want
            else permission_loop cred inode want True acl
          else permission_loop cred inode want found acl
      | ACL_GROUP \<Rightarrow>
          if in_group_p cred (e_id pa) then
            if grants (e_perm pa) want then mask_loop pa acl want
            else permission_loop cred inode want True acl
          else permission_loop cred inode want found acl
      | ACL_MASK \<Rightarrow> permission_loop cred inode want found acl
      | ACL_OTHER \<Rightarrow> if found then Inl EACCES else check_perm pa want
      | ACL_UNKNOWN _ \<Rightarrow> Inl EIO)"

definition posix_acl_permission :: "cred \<Rightarrow> inode_ids \<Rightarrow> posix_acl \<Rightarrow> u32 \<Rightarrow> unit result" where
  "posix_acl_permission cred inode acl want = permission_loop cred inode want False acl"

section \<open>Creating and changing modes\<close>

text \<open>
  The pointers \<^verbatim>\<open>group_obj\<close> and \<^verbatim>\<open>mask_obj\<close> are positions in the entry array; the loops return
  the entries as they left them, also when they stop with an error.
\<close>

record masq =
  m_acl :: posix_acl
  m_mode :: mode_t
  m_not_equiv :: bool
  m_group_obj :: "nat option"
  m_mask_obj :: "nat option"

fun create_loop :: "nat \<Rightarrow> nat \<Rightarrow> masq \<Rightarrow> masq + masq" where
  "create_loop i 0 m = Inr m"
| "create_loop i (Suc n) m =
     (let pa = m_acl m ! i in
      case e_tag pa of
        ACL_USER_OBJ \<Rightarrow>
          let perm = e_perm pa AND (drop_bit 6 (m_mode m) OR NOT S_IRWXO) in
          create_loop (Suc i) n
            (m\<lparr>m_acl := (m_acl m)[i := pa\<lparr>e_perm := perm\<rparr>],
               m_mode := m_mode m AND (push_bit 6 perm OR NOT S_IRWXU)\<rparr>)
      | ACL_USER \<Rightarrow> create_loop (Suc i) n (m\<lparr>m_not_equiv := True\<rparr>)
      | ACL_GROUP \<Rightarrow> create_loop (Suc i) n (m\<lparr>m_not_equiv := True\<rparr>)
      | ACL_GROUP_OBJ \<Rightarrow> create_loop (Suc i) n (m\<lparr>m_group_obj := Some i\<rparr>)
      | ACL_OTHER \<Rightarrow>
          let perm = e_perm pa AND (m_mode m OR NOT S_IRWXO) in
          create_loop (Suc i) n
            (m\<lparr>m_acl := (m_acl m)[i := pa\<lparr>e_perm := perm\<rparr>],
               m_mode := m_mode m AND (perm OR NOT S_IRWXO)\<rparr>)
      | ACL_MASK \<Rightarrow> create_loop (Suc i) n (m\<lparr>m_mask_obj := Some i, m_not_equiv := True\<rparr>)
      | ACL_UNKNOWN _ \<Rightarrow> Inl m)"

definition create_group_class :: "nat \<Rightarrow> masq \<Rightarrow> masq" where
  "create_group_class i m =
     (let perm = e_perm (m_acl m ! i) AND (drop_bit 3 (m_mode m) OR NOT S_IRWXO) in
      m\<lparr>m_acl := (m_acl m)[i := (m_acl m ! i)\<lparr>e_perm := perm\<rparr>],
        m_mode := m_mode m AND (push_bit 3 perm OR NOT S_IRWXG)\<rparr>)"

text \<open>The results: the entries, \<^verbatim>\<open>*mode_p\<close>, and the value returned.\<close>

definition posix_acl_create_masq :: "posix_acl \<Rightarrow> mode_t \<Rightarrow> posix_acl \<times> mode_t \<times> bool result" where
  "posix_acl_create_masq acl mode_p =
     (case create_loop 0 (length acl) \<lparr>m_acl = acl, m_mode = mode_p, m_not_equiv = False,
             m_group_obj = None, m_mask_obj = None\<rparr> of
        Inl m \<Rightarrow> (m_acl m, mode_p, Inl EIO)
      | Inr m \<Rightarrow>
          (let finish = (\<lambda>m. (m_acl m, (mode_p AND NOT S_IRWXUGO) OR m_mode m, Inr (m_not_equiv m))) in
           case m_mask_obj m of
             Some i \<Rightarrow> finish (create_group_class i m)
           | None \<Rightarrow>
               (case m_group_obj m of
                  None \<Rightarrow> (m_acl m, mode_p, Inl EIO)
                | Some i \<Rightarrow> finish (create_group_class i m))))"

fun chmod_loop :: "mode_t \<Rightarrow> nat \<Rightarrow> nat \<Rightarrow> posix_acl \<Rightarrow> nat option \<Rightarrow> nat option \<Rightarrow>
    bool \<times> posix_acl \<times> nat option \<times> nat option" where
  "chmod_loop mode i 0 acl group_obj mask_obj = (True, acl, group_obj, mask_obj)"
| "chmod_loop mode i (Suc n) acl group_obj mask_obj =
     (let pa = acl ! i in
      case e_tag pa of
        ACL_USER_OBJ \<Rightarrow>
          chmod_loop mode (Suc i) n (acl[i := pa\<lparr>e_perm := drop_bit 6 (mode AND S_IRWXU)\<rparr>]) group_obj mask_obj
      | ACL_USER \<Rightarrow> chmod_loop mode (Suc i) n acl group_obj mask_obj
      | ACL_GROUP \<Rightarrow> chmod_loop mode (Suc i) n acl group_obj mask_obj
      | ACL_GROUP_OBJ \<Rightarrow> chmod_loop mode (Suc i) n acl (Some i) mask_obj
      | ACL_MASK \<Rightarrow> chmod_loop mode (Suc i) n acl group_obj (Some i)
      | ACL_OTHER \<Rightarrow>
          chmod_loop mode (Suc i) n (acl[i := pa\<lparr>e_perm := mode AND S_IRWXO\<rparr>]) group_obj mask_obj
      | ACL_UNKNOWN _ \<Rightarrow> (False, acl, group_obj, mask_obj))"

definition posix_acl_chmod_masq :: "posix_acl \<Rightarrow> mode_t \<Rightarrow> posix_acl \<times> unit result" where
  "posix_acl_chmod_masq acl mode =
     (case chmod_loop mode 0 (length acl) acl None None of
        (False, acl', _, _) \<Rightarrow> (acl', Inl EIO)
      | (True, acl', group_obj, mask_obj) \<Rightarrow>
          (case mask_obj of
             Some i \<Rightarrow> (acl'[i := (acl' ! i)\<lparr>e_perm := drop_bit 3 (mode AND S_IRWXG)\<rparr>], Inr ())
           | None \<Rightarrow>
               (case group_obj of
                  None \<Rightarrow> (acl', Inl EIO)
                | Some i \<Rightarrow> (acl'[i := (acl' ! i)\<lparr>e_perm := drop_bit 3 (mode AND S_IRWXG)\<rparr>], Inr ()))))"

section \<open>Extended attributes\<close>

definition POSIX_ACL_XATTR_VERSION :: u32 where "POSIX_ACL_XATTR_VERSION = 2"

fun tag_value :: "acl_tag \<Rightarrow> u16" where
  "tag_value ACL_USER_OBJ = 1"
| "tag_value ACL_USER = 2"
| "tag_value ACL_GROUP_OBJ = 4"
| "tag_value ACL_GROUP = 8"
| "tag_value ACL_MASK = 16"
| "tag_value ACL_OTHER = 32"
| "tag_value (ACL_UNKNOWN w) = w"

definition value_tag :: "u16 \<Rightarrow> acl_tag" where
  "value_tag w = (if w = 1 then ACL_USER_OBJ else if w = 2 then ACL_USER else if w = 4 then ACL_GROUP_OBJ
     else if w = 8 then ACL_GROUP else if w = 16 then ACL_MASK else if w = 32 then ACL_OTHER
     else ACL_UNKNOWN w)"

definition cpu_to_le16 :: "u16 \<Rightarrow> u8 list" where
  "cpu_to_le16 w = [ucast w, ucast (drop_bit 8 w)]"

definition cpu_to_le32 :: "u32 \<Rightarrow> u8 list" where
  "cpu_to_le32 w = [ucast w, ucast (drop_bit 8 w), ucast (drop_bit 16 w), ucast (drop_bit 24 w)]"

definition le16_to_cpu :: "u8 list \<Rightarrow> u16" where
  "le16_to_cpu b = ucast (b ! 0) OR push_bit 8 (ucast (b ! 1))"

definition le32_to_cpu :: "u8 list \<Rightarrow> u32" where
  "le32_to_cpu b = ucast (b ! 0) OR push_bit 8 (ucast (b ! 1)) OR push_bit 16 (ucast (b ! 2))
     OR push_bit 24 (ucast (b ! 3))"

definition posix_acl_xattr_size :: "nat \<Rightarrow> nat" where
  "posix_acl_xattr_size n = 4 + n * 8"

definition posix_acl_xattr_count :: "nat \<Rightarrow> nat option" where
  "posix_acl_xattr_count n =
     (if n < 4 then None else if (n - 4) mod 8 \<noteq> 0 then None else Some ((n - 4) div 8))"

definition entry_to_xattr :: "posix_acl_entry \<Rightarrow> u8 list" where
  "entry_to_xattr e = cpu_to_le16 (tag_value (e_tag e)) @ cpu_to_le16 (e_perm e) @ cpu_to_le32 (e_id e)"

text \<open>
  The buffer is what the caller supplied (\<^const>\<open>None\<close> for the null pointer); the value
  returned is the size, the contents come with it.
\<close>

definition posix_acl_to_xattr :: "posix_acl \<Rightarrow> u8 list option \<Rightarrow> (nat \<times> u8 list option) result" where
  "posix_acl_to_xattr acl buffer =
     (let real_size = posix_acl_xattr_size (length acl) in
      case buffer of
        None \<Rightarrow> Inr (real_size, None)
      | Some buf \<Rightarrow>
          if length buf < real_size then Inl ERANGE
          else Inr (real_size, Some (cpu_to_le32 POSIX_ACL_XATTR_VERSION @
                 concat (map entry_to_xattr acl) @ drop real_size buf)))"



fun from_xattr_loop :: "u8 list \<Rightarrow> nat \<Rightarrow> posix_acl result" where
  "from_xattr_loop b 0 = Inr []"
| "from_xattr_loop b (Suc n) =
     (let tag = value_tag (le16_to_cpu (take 2 b)); perm = le16_to_cpu (take 2 (drop 2 b));
          next = (\<lambda>i. map_sum id ((#) \<lparr>e_tag = tag, e_perm = perm, e_id = i\<rparr>) (from_xattr_loop (drop 8 b) n))
      in case tag of
           ACL_USER_OBJ \<Rightarrow> next ACL_UNDEFINED_ID
         | ACL_GROUP_OBJ \<Rightarrow> next ACL_UNDEFINED_ID
         | ACL_MASK \<Rightarrow> next ACL_UNDEFINED_ID
         | ACL_OTHER \<Rightarrow> next ACL_UNDEFINED_ID
         | ACL_USER \<Rightarrow> next (le32_to_cpu (take 4 (drop 4 b)))
         | ACL_GROUP \<Rightarrow> next (le32_to_cpu (take 4 (drop 4 b)))
         | ACL_UNKNOWN _ \<Rightarrow> Inl EINVAL)"

text \<open>\<^term>\<open>Inr None\<close> is the null pointer: no ACL.\<close>

definition posix_acl_from_xattr :: "bool \<Rightarrow> u8 list option \<Rightarrow> posix_acl option result" where
  "posix_acl_from_xattr alloc_ok value =
     (case value of
        None \<Rightarrow> Inr None
      | Some b \<Rightarrow>
          if length b < 4 then Inl EINVAL
          else if le32_to_cpu (take 4 b) \<noteq> POSIX_ACL_XATTR_VERSION then Inl EOPNOTSUPP
          else case posix_acl_xattr_count (length b) of
            None \<Rightarrow> Inl EINVAL
          | Some 0 \<Rightarrow> Inr None
          | Some n \<Rightarrow>
              if \<not> alloc_ok then Inl ENOMEM
              else map_sum id Some (from_xattr_loop (drop 4 b) n))"

section \<open>The shape of a valid ACL\<close>

definition perm_ok :: "posix_acl_entry \<Rightarrow> bool" where
  "perm_ok e \<longleftrightarrow> e_perm e AND NOT 7 = 0"

text \<open>Named entries of one class: ids defined and strictly ascending.\<close>

definition named_ok :: "acl_tag \<Rightarrow> posix_acl \<Rightarrow> bool" where
  "named_ok tag es \<longleftrightarrow> sorted_wrt (<) (map e_id es) \<and>
     (\<forall>e \<in> set es. e_tag e = tag \<and> perm_ok e \<and> e_id e \<noteq> ACL_UNDEFINED_ID)"

text \<open>
  The contract: owner, named users, owning group, named groups, at most one mask, others,
  in this order, with a mask whenever there is a named entry.
\<close>

definition acl_shape ::
  "posix_acl_entry \<Rightarrow> posix_acl \<Rightarrow> posix_acl_entry \<Rightarrow> posix_acl \<Rightarrow> posix_acl \<Rightarrow> posix_acl_entry \<Rightarrow> bool" where
  "acl_shape uo us go gs ms ot \<longleftrightarrow>
     e_tag uo = ACL_USER_OBJ \<and> perm_ok uo \<and> named_ok ACL_USER us \<and>
     e_tag go = ACL_GROUP_OBJ \<and> perm_ok go \<and> named_ok ACL_GROUP gs \<and>
     length ms \<le> 1 \<and> (\<forall>m \<in> set ms. e_tag m = ACL_MASK \<and> perm_ok m) \<and>
     e_tag ot = ACL_OTHER \<and> perm_ok ot \<and> (us \<noteq> [] \<or> gs \<noteq> [] \<longrightarrow> ms \<noteq> [])"

definition wf_acl :: "posix_acl \<Rightarrow> bool" where
  "wf_acl acl \<longleftrightarrow> (\<exists>uo us go gs ms ot. acl = uo # us @ go # gs @ ms @ [ot] \<and> acl_shape uo us go gs ms ot)"

lemma named_ok_Nil [simp]: "named_ok tag []"
  by (simp add: named_ok_def)

lemma named_ok_Cons:
  "named_ok tag (e # es) \<longleftrightarrow> e_tag e = tag \<and> perm_ok e \<and> e_id e \<noteq> ACL_UNDEFINED_ID \<and>
     (\<forall>e' \<in> set es. e_id e < e_id e') \<and> named_ok tag es"
  by (auto simp: named_ok_def)

lemma id_succ_le:
  assumes "i \<noteq> ACL_UNDEFINED_ID"
  shows "i + 1 \<le> j \<longleftrightarrow> i < j"
proof -
  have "1 + i \<noteq> 0" using assms by (simp add: ACL_UNDEFINED_ID_def add_eq_0_iff)
  then have "unat (i + 1) = Suc (unat i)" using unatSuc by (metis add.commute)
  then show ?thesis by (simp add: word_le_nat_alt word_less_nat_alt Suc_le_eq)
qed

lemma valid_done: "valid_loop None i nm acl = Inr () \<longleftrightarrow> acl = []"
  by (cases acl) (auto split: acl_tag.splits)

lemma valid_other:
  "valid_loop (Some ACL_OTHER) i nm acl = Inr () \<longleftrightarrow> (\<exists>ot. acl = [ot] \<and> e_tag ot = ACL_OTHER \<and> perm_ok ot)"
  by (cases acl) (auto simp: valid_done perm_ok_def split: acl_tag.splits)

lemma valid_group:
  assumes "valid_loop (Some ACL_GROUP) i nm acl = Inr ()"
  shows "\<exists>gs ms ot. acl = gs @ ms @ [ot] \<and> named_ok ACL_GROUP gs \<and> (\<forall>e \<in> set gs. i \<le> e_id e) \<and>
    length ms \<le> 1 \<and> (\<forall>m \<in> set ms. e_tag m = ACL_MASK \<and> perm_ok m) \<and>
    e_tag ot = ACL_OTHER \<and> perm_ok ot \<and> (nm \<or> gs \<noteq> [] \<longrightarrow> ms \<noteq> [])"
  using assms
proof (induction acl arbitrary: i nm)
  case (Cons pa acl)
  from Cons.prems consider
      (group) "e_tag pa = ACL_GROUP" "perm_ok pa" "e_id pa \<noteq> ACL_UNDEFINED_ID" "i \<le> e_id pa"
        "valid_loop (Some ACL_GROUP) (e_id pa + 1) True acl = Inr ()"
    | (mask) "e_tag pa = ACL_MASK" "perm_ok pa" "valid_loop (Some ACL_OTHER) i nm acl = Inr ()"
    | (other) "e_tag pa = ACL_OTHER" "perm_ok pa" "\<not> nm" "acl = []"
    by (auto simp: perm_ok_def valid_done not_less split: acl_tag.splits if_splits)
  then show ?case
  proof cases
    case group
    from Cons.IH [OF group(5)] obtain gs ms ot where
      *: "acl = gs @ ms @ [ot]" "named_ok ACL_GROUP gs" "\<forall>e \<in> set gs. e_id pa + 1 \<le> e_id e"
        "length ms \<le> 1" "\<forall>m \<in> set ms. e_tag m = ACL_MASK \<and> perm_ok m"
        "e_tag ot = ACL_OTHER" "perm_ok ot" "ms \<noteq> []" by auto
    with group show ?thesis
      by (intro exI [of _ "pa # gs"] exI [of _ ms] exI [of _ ot])
        (auto simp: named_ok_Cons id_succ_le)
  next
    case mask
    then obtain ot where "acl = [ot]" "e_tag ot = ACL_OTHER" "perm_ok ot" by (auto simp: valid_other)
    with mask show ?thesis by (intro exI [of _ "[]"] exI [of _ "[pa]"] exI [of _ ot]) simp
  next
    case other
    then show ?thesis by (intro exI [of _ "[]"] exI [of _ pa]) simp
  qed
qed simp

lemma valid_user:
  assumes "valid_loop (Some ACL_USER) i nm acl = Inr ()"
  shows "\<exists>us go acl'. acl = us @ go # acl' \<and> named_ok ACL_USER us \<and> (\<forall>e \<in> set us. i \<le> e_id e) \<and>
    e_tag go = ACL_GROUP_OBJ \<and> perm_ok go \<and>
    valid_loop (Some ACL_GROUP) 0 (nm \<or> us \<noteq> []) acl' = Inr ()"
  using assms
proof (induction acl arbitrary: i nm)
  case (Cons pa acl)
  from Cons.prems consider
      (user) "e_tag pa = ACL_USER" "perm_ok pa" "e_id pa \<noteq> ACL_UNDEFINED_ID" "i \<le> e_id pa"
        "valid_loop (Some ACL_USER) (e_id pa + 1) True acl = Inr ()"
    | (group_obj) "e_tag pa = ACL_GROUP_OBJ" "perm_ok pa" "valid_loop (Some ACL_GROUP) 0 nm acl = Inr ()"
    by (auto simp: perm_ok_def not_less split: acl_tag.splits if_splits)
  then show ?case
  proof cases
    case user
    from Cons.IH [OF user(5)] obtain us go acl' where
      *: "acl = us @ go # acl'" "named_ok ACL_USER us" "\<forall>e \<in> set us. e_id pa + 1 \<le> e_id e"
        "e_tag go = ACL_GROUP_OBJ" "perm_ok go" "valid_loop (Some ACL_GROUP) 0 True acl' = Inr ()" by auto
    with user show ?thesis
      by (intro exI [of _ "pa # us"] exI [of _ go] exI [of _ acl'])
        (auto simp: named_ok_Cons id_succ_le)
  next
    case group_obj
    then show ?thesis by (intro exI [of _ "[]"] exI [of _ pa] exI [of _ acl]) simp
  qed
qed simp

lemma valid_named_intro:
  assumes "named_ok tag es" "\<forall>e \<in> set es. i \<le> e_id e" "tag = ACL_USER \<or> tag = ACL_GROUP"
  shows "valid_loop (Some tag) i nm (es @ rest) =
    valid_loop (Some tag) (if es = [] then i else e_id (last es) + 1) (nm \<or> es \<noteq> []) rest"
  using assms
  by (induction es arbitrary: i nm) (auto simp: named_ok_Cons perm_ok_def id_succ_le leD)

lemma posix_acl_valid_imp_wf:
  assumes "posix_acl_valid acl = Inr ()"
  shows "wf_acl acl"
proof -
  obtain uo acl1 where uo: "acl = uo # acl1" "e_tag uo = ACL_USER_OBJ" "perm_ok uo"
    "valid_loop (Some ACL_USER) 0 False acl1 = Inr ()"
    using assms by (cases acl) (auto simp: posix_acl_valid_def perm_ok_def split: acl_tag.splits if_splits)
  from valid_user [OF uo(4)] obtain us go acl2 where us: "acl1 = us @ go # acl2" "named_ok ACL_USER us"
    "e_tag go = ACL_GROUP_OBJ" "perm_ok go" "valid_loop (Some ACL_GROUP) 0 (us \<noteq> []) acl2 = Inr ()"
    by auto
  from valid_group [OF us(5)] uo us show ?thesis
    unfolding wf_acl_def acl_shape_def by fastforce
qed

lemma wf_imp_posix_acl_valid:
  assumes "wf_acl acl"
  shows "posix_acl_valid acl = Inr ()"
proof -
  obtain uo us go gs ms ot where acl: "acl = uo # us @ go # gs @ ms @ [ot]"
    and sh: "acl_shape uo us go gs ms ot" using assms by (auto simp: wf_acl_def)
  from sh have "ms = [] \<or> (\<exists>m. ms = [m])" by (cases ms) (auto simp: acl_shape_def)
  with sh show ?thesis
    by (auto simp: acl posix_acl_valid_def acl_shape_def perm_ok_def valid_named_intro)
qed

lemma posix_acl_valid_wf: "posix_acl_valid acl = Inr () \<longleftrightarrow> wf_acl acl"
  using posix_acl_valid_imp_wf wf_imp_posix_acl_valid by blast

section \<open>The order of the tags\<close>

text \<open>Tags are ordered by their numbers; tags that are not known come last.\<close>

fun tag_key :: "acl_tag \<Rightarrow> nat" where
  "tag_key ACL_USER_OBJ = 0x01"
| "tag_key ACL_USER = 0x02"
| "tag_key ACL_GROUP_OBJ = 0x04"
| "tag_key ACL_GROUP = 0x08"
| "tag_key ACL_MASK = 0x10"
| "tag_key ACL_OTHER = 0x20"
| "tag_key (ACL_UNKNOWN v) = 0x40 + unat v"

lemma tag_key_inject: "tag_key a = tag_key b \<longleftrightarrow> a = b"
  by (cases a; cases b) (auto simp: word_unat_eq_iff)

instantiation acl_tag :: linorder
begin

definition less_eq_acl_tag :: "acl_tag \<Rightarrow> acl_tag \<Rightarrow> bool" where
  "less_eq_acl_tag a b \<longleftrightarrow> tag_key a \<le> tag_key b"

definition less_acl_tag :: "acl_tag \<Rightarrow> acl_tag \<Rightarrow> bool" where
  "less_acl_tag a b \<longleftrightarrow> tag_key a < tag_key b"

instance
  by standard (auto simp: less_eq_acl_tag_def less_acl_tag_def tag_key_inject)

end

text \<open>The entries of a valid list are sorted by their tags.\<close>

lemma sorted_const: "\<forall>e\<in>set es. e_tag e = t \<Longrightarrow> sorted (map e_tag es)"
  by (induction es) auto

lemma valid_tags_sorted:
  assumes "posix_acl_valid acl = Inr ()"
  shows "sorted (map e_tag acl)"
proof -
  obtain uo us go gs ms ot where acl: "acl = uo # us @ go # gs @ ms @ [ot]" and sh: "acl_shape uo us go gs ms ot"
    using assms by (auto simp: posix_acl_valid_wf wf_acl_def)
  have tags: "\<forall>e\<in>set us. e_tag e = ACL_USER" "\<forall>e\<in>set gs. e_tag e = ACL_GROUP" "\<forall>e\<in>set ms. e_tag e = ACL_MASK"
    using sh by (auto simp: acl_shape_def named_ok_def)
  then show ?thesis
    using sh sorted_const [OF tags(1)] sorted_const [OF tags(2)] sorted_const [OF tags(3)]
    by (auto simp: acl acl_shape_def sorted_append less_eq_acl_tag_def)
qed

section \<open>What the permission check decides\<close>

definition user_match :: "cred \<Rightarrow> posix_acl_entry \<Rightarrow> bool" where
  "user_match cred e \<longleftrightarrow> e_tag e = ACL_USER \<and> e_id e = cr_fsuid cred"

definition group_match :: "cred \<Rightarrow> inode_ids \<Rightarrow> posix_acl_entry \<Rightarrow> bool" where
  "group_match cred inode e \<longleftrightarrow>
     e_tag e = ACL_GROUP_OBJ \<and> in_group_p cred (i_gid inode) \<or>
     e_tag e = ACL_GROUP \<and> in_group_p cred (e_id e)"

definition within_mask :: "posix_acl \<Rightarrow> u32 \<Rightarrow> bool" where
  "within_mask acl want \<longleftrightarrow> (\<forall>m \<in> set acl. e_tag m = ACL_MASK \<longrightarrow> grants (e_perm m) want)"

text \<open>
  The access check of the POSIX.1e draft: the owner entry for the owner; else the entry of
  the user, within the mask; else, if any group entry applies, one of those that apply
  must grant the access within the mask; else the entry for others.
\<close>

definition acl_grants :: "cred \<Rightarrow> inode_ids \<Rightarrow> posix_acl \<Rightarrow> u32 \<Rightarrow> bool" where
  "acl_grants cred inode acl want =
     (if i_uid inode = cr_fsuid cred
      then \<exists>e \<in> set acl. e_tag e = ACL_USER_OBJ \<and> grants (e_perm e) want
      else if \<exists>e \<in> set acl. user_match cred e
      then (\<exists>e \<in> set acl. user_match cred e \<and> grants (e_perm e) want) \<and> within_mask acl want
      else if \<exists>e \<in> set acl. group_match cred inode e
      then (\<exists>e \<in> set acl. group_match cred inode e \<and> grants (e_perm e) want) \<and> within_mask acl want
      else \<exists>e \<in> set acl. e_tag e = ACL_OTHER \<and> grants (e_perm e) want)"

definition verdict :: "bool \<Rightarrow> unit result" where
  "verdict b = (if b then Inr () else Inl EACCES)"

lemma grants_and: "grants (a AND b) want \<longleftrightarrow> grants a want \<and> grants b want"
proof -
  have "ucast (a AND b) AND want = want \<longleftrightarrow> (ucast a AND want = want) \<and> (ucast b AND want = want)"
    unfolding bit_eq_iff by (auto simp: bit_simps)
  then show ?thesis by (simp add: grants_def)
qed

lemma mask_loop_verdict:
  assumes "\<forall>e \<in> set es. e_tag e \<noteq> ACL_MASK" "length ms \<le> 1" "\<forall>m \<in> set ms. e_tag m = ACL_MASK"
    "e_tag ot = ACL_OTHER"
  shows "mask_loop pa (es @ ms @ [ot]) want =
    verdict (grants (e_perm pa) want \<and> (\<forall>m \<in> set ms. grants (e_perm m) want))"
proof -
  from assms(2) consider "ms = []" | m where "ms = [m]" by (cases ms) auto
  then show ?thesis using assms
    by cases (induction es, auto simp: verdict_def grants_and check_perm_def)+
qed

lemma permission_group_step:
  "e_tag e = ACL_GROUP_OBJ \<or> e_tag e = ACL_GROUP \<Longrightarrow>
   permission_loop cred inode want found (e # acl) =
     (if group_match cred inode e
      then if grants (e_perm e) want then mask_loop e acl want else permission_loop cred inode want True acl
      else permission_loop cred inode want found acl)"
  by (auto simp: group_match_def)

lemma permission_groups:
  assumes "\<forall>e \<in> set gs. e_tag e = ACL_GROUP_OBJ \<or> e_tag e = ACL_GROUP" "length ms \<le> 1"
    "\<forall>m \<in> set ms. e_tag m = ACL_MASK" "e_tag ot = ACL_OTHER"
  shows "permission_loop cred inode want found (gs @ ms @ [ot]) = verdict
    (if \<exists>e \<in> set gs. group_match cred inode e \<and> grants (e_perm e) want
     then \<forall>m \<in> set ms. grants (e_perm m) want
     else \<not> found \<and> (\<forall>e \<in> set gs. \<not> group_match cred inode e) \<and> grants (e_perm ot) want)"
  using assms
proof (induction gs arbitrary: found)
  case Nil
  then consider "ms = []" | m where "ms = [m]" by (cases ms) auto
  then show ?case using Nil by cases (auto simp: verdict_def check_perm_def)
next
  case (Cons e gs)
  then have ml: "mask_loop e (gs @ ms @ [ot]) want =
      verdict (grants (e_perm e) want \<and> (\<forall>m \<in> set ms. grants (e_perm m) want))"
    by (intro mask_loop_verdict) auto
  from Cons.prems have tag: "e_tag e = ACL_GROUP_OBJ \<or> e_tag e = ACL_GROUP" by simp
  from Cons.prems show ?case
    by (cases "group_match cred inode e"; cases "grants (e_perm e) want")
      (auto simp: permission_group_step [OF tag] ml Cons.IH simp del: permission_loop.simps)
qed

lemma permission_users:
  assumes "\<forall>e \<in> set us. e_tag e = ACL_USER" "\<forall>e \<in> set us. e_id e \<noteq> cr_fsuid cred"
  shows "permission_loop cred inode want found (us @ rest) = permission_loop cred inode want found rest"
  using assms by (induction us) auto

lemma permission_user_hit:
  assumes "\<forall>e \<in> set us. e_tag e = ACL_USER" "e_tag u = ACL_USER" "\<forall>e \<in> set us. e_id e \<noteq> cr_fsuid cred"
    "e_id u = cr_fsuid cred"
  shows "permission_loop cred inode want found (us @ u # rest) = mask_loop u rest want"
  using assms by (simp add: permission_users)

lemma posix_acl_permission_spec:
  assumes "wf_acl acl"
  shows "posix_acl_permission cred inode acl want = verdict (acl_grants cred inode acl want)"
proof -
  obtain uo us go gs ms ot where acl: "acl = uo # us @ (go # gs) @ ms @ [ot]"
    and sh: "acl_shape uo us go gs ms ot" using assms by (auto simp: wf_acl_def)
  from sh have tags: "e_tag uo = ACL_USER_OBJ" "\<forall>e \<in> set us. e_tag e = ACL_USER" "e_tag go = ACL_GROUP_OBJ"
    "\<forall>e \<in> set gs. e_tag e = ACL_GROUP" "\<forall>m \<in> set ms. e_tag m = ACL_MASK" "e_tag ot = ACL_OTHER"
    "length ms \<le> 1" by (auto simp: acl_shape_def named_ok_def)
  have mask: "within_mask acl want \<longleftrightarrow> (\<forall>m \<in> set ms. grants (e_perm m) want)"
    using tags by (auto simp: within_mask_def acl)
  have um: "(\<exists>e \<in> set acl. user_match cred e \<and> P e) \<longleftrightarrow> (\<exists>e \<in> set us. e_id e = cr_fsuid cred \<and> P e)" for P
    using tags by (auto simp: user_match_def acl)
  have gm: "(\<exists>e \<in> set acl. group_match cred inode e \<and> P e) \<longleftrightarrow>
      (\<exists>e \<in> set (go # gs). group_match cred inode e \<and> P e)" for P
    using tags by (auto simp: group_match_def acl)
  have obj: "(\<exists>e \<in> set acl. e_tag e = ACL_USER_OBJ \<and> P e) \<longleftrightarrow> P uo"
    and oth: "(\<exists>e \<in> set acl. e_tag e = ACL_OTHER \<and> P e) \<longleftrightarrow> P ot" for P
    using tags by (auto simp: acl)
  note spec = acl_grants_def obj oth mask um gm um [of "\<lambda>_. True", simplified] gm [of "\<lambda>_. True", simplified]
  consider (owner) "i_uid inode = cr_fsuid cred"
    | (user) "i_uid inode \<noteq> cr_fsuid cred" "\<exists>e \<in> set us. e_id e = cr_fsuid cred"
    | (rest) "i_uid inode \<noteq> cr_fsuid cred" "\<forall>e \<in> set us. e_id e \<noteq> cr_fsuid cred" by auto
  then show ?thesis
  proof cases
    case owner
    then have "posix_acl_permission cred inode acl want = check_perm uo want"
      using tags by (simp add: posix_acl_permission_def acl)
    with owner show ?thesis by (simp add: spec verdict_def check_perm_def)
  next
    case user
    then obtain us1 u us2 where us: "us = us1 @ u # us2" "e_id u = cr_fsuid cred" 
      "\<forall>e \<in> set us1. e_id e \<noteq> cr_fsuid cred" using split_list_first_prop [OF user(2)] by blast
    have uniq: "\<forall>e \<in> set us2. e_id e \<noteq> cr_fsuid cred"
      using sh us by (auto simp: acl_shape_def named_ok_def sorted_wrt_append)
    have "posix_acl_permission cred inode acl want = mask_loop u ((us2 @ go # gs) @ ms @ [ot]) want"
      using tags us user(1) by (simp add: posix_acl_permission_def acl permission_user_hit)
    also have "\<dots> = verdict (grants (e_perm u) want \<and> (\<forall>m \<in> set ms. grants (e_perm m) want))"
      using tags us(1) by (intro mask_loop_verdict) auto
    moreover have "(\<exists>e \<in> set us. e_id e = cr_fsuid cred \<and> grants (e_perm e) want) \<longleftrightarrow> grants (e_perm u) want"
      using us uniq by auto
    ultimately show ?thesis using user by (simp add: spec)
  next
    case rest
    have "posix_acl_permission cred inode acl want =
        permission_loop cred inode want False ((go # gs) @ ms @ [ot])"
      using tags rest by (simp add: posix_acl_permission_def acl permission_users del: append_Cons)
    also have "\<dots> = verdict
      (if \<exists>e \<in> set (go # gs). group_match cred inode e \<and> grants (e_perm e) want
       then \<forall>m \<in> set ms. grants (e_perm m) want
       else \<not> False \<and> (\<forall>e \<in> set (go # gs). \<not> group_match cred inode e) \<and> grants (e_perm ot) want)"
      using tags by (intro permission_groups) auto
    also have "\<dots> = verdict (acl_grants cred inode acl want)"
      using rest by (intro arg_cong [of _ _ verdict]) (simp only: spec, auto)
    finally show ?thesis .
  qed
qed

section \<open>Mode bits\<close>

lemma bit_S_IRWX [simp]:
  "bit S_IRWXO n \<longleftrightarrow> n < 3" "bit S_IRWXG n \<longleftrightarrow> 3 \<le> n \<and> n < 6" "bit S_IRWXU n \<longleftrightarrow> 6 \<le> n \<and> n < 9"
  "bit S_IRWXUGO n \<longleftrightarrow> n < 9"
proof -
  have O: "S_IRWXO = mask 3" and G: "S_IRWXG = push_bit 3 (mask 3)" and U: "S_IRWXU = push_bit 6 (mask 3)"
    by (simp_all add: S_IRWXO_def S_IRWXG_def S_IRWXU_def mask_eq_exp_minus_1 push_bit_eq_mult)
  show "bit S_IRWXO n \<longleftrightarrow> n < 3" "bit S_IRWXG n \<longleftrightarrow> 3 \<le> n \<and> n < 6" "bit S_IRWXU n \<longleftrightarrow> 6 \<le> n \<and> n < 9"
    by (auto simp: O G U bit_simps)
  then show "bit S_IRWXUGO n \<longleftrightarrow> n < 9" by (auto simp: S_IRWXUGO_def bit_simps)
qed

lemma perm_ok_bit: "perm_ok e \<longleftrightarrow> (\<forall>n. bit (e_perm e) n \<longrightarrow> n < 3)"
proof -
  have "bit (7 :: u16) n \<longleftrightarrow> n < 3" for n using bit_S_IRWX(1) by (simp add: S_IRWXO_def)
  moreover have "n < 16" if "bit (e_perm e) n" for n using bit_imp_le_length [OF that] by simp
  ultimately show ?thesis
    unfolding perm_ok_def bit_eq_iff by (auto simp: bit_simps)
qed

definition group_class :: "posix_acl_entry \<Rightarrow> posix_acl \<Rightarrow> posix_acl_entry" where
  "group_class go ms = (case ms of [] \<Rightarrow> go | m # _ \<Rightarrow> m)"

text \<open>The nine mode bits an ACL stands for: owner, group class, others.\<close>

definition mode_bits :: "u16 \<Rightarrow> u16 \<Rightarrow> u16 \<Rightarrow> mode_t" where
  "mode_bits u g ot = push_bit 6 (u AND S_IRWXO) OR push_bit 3 (g AND S_IRWXO) OR (ot AND S_IRWXO)"

lemma equiv_named:
  "\<forall>e \<in> set es. e_tag e = ACL_USER \<or> e_tag e = ACL_GROUP \<Longrightarrow>
   equiv_loop (es @ rest) mode ne = equiv_loop rest mode (ne \<or> es \<noteq> [])"
  by (induction es arbitrary: ne) (auto)

lemma mask_cases: "length ms \<le> 1 \<Longrightarrow> (ms = [] \<Longrightarrow> P) \<Longrightarrow> (\<And>m. ms = [m] \<Longrightarrow> P) \<Longrightarrow> P"
  by (cases ms) auto

lemma acl_shape_tags:
  assumes "acl_shape uo us go gs ms ot"
  shows "e_tag uo = ACL_USER_OBJ" "e_tag go = ACL_GROUP_OBJ" "e_tag ot = ACL_OTHER" "length ms \<le> 1"
    "\<forall>e \<in> set us. e_tag e = ACL_USER \<or> e_tag e = ACL_GROUP"
    "\<forall>e \<in> set gs. e_tag e = ACL_USER \<or> e_tag e = ACL_GROUP" "\<forall>m \<in> set ms. e_tag m = ACL_MASK"
  using assms by (auto simp: acl_shape_def named_ok_def)

lemma equiv_mode_shape:
  assumes "acl_shape uo us go gs ms ot"
  shows "posix_acl_equiv_mode (uo # us @ go # gs @ ms @ [ot]) mode_p =
    Inr ((mode_p AND NOT S_IRWXUGO) OR mode_bits (e_perm uo) (e_perm (group_class go ms)) (e_perm ot),
         us \<noteq> [] \<or> gs \<noteq> [] \<or> ms \<noteq> [])"
proof -
  note t = acl_shape_tags [OF assms]
  have *: "(push_bit 6 (u AND S_IRWXO) OR push_bit 3 (g AND S_IRWXO)) AND NOT S_IRWXG OR
      push_bit 3 (m AND S_IRWXO) OR (ot AND S_IRWXO) = mode_bits u m ot" for u g m ot :: u16
    by (rule bit_eqI) (auto simp: mode_bits_def bit_simps)
  from t(4) show ?thesis
    by (rule mask_cases)
      (use t * in \<open>simp_all add: posix_acl_equiv_mode_def equiv_named group_class_def or.assoc mode_bits_def\<close>)
qed

lemma mode_bits_from_mode:
  "mode_bits (drop_bit 6 (mode AND S_IRWXU)) (drop_bit 3 (mode AND S_IRWXG)) (mode AND S_IRWXO) = mode AND S_IRWXUGO"
proof (rule bit_eqI)
  fix n
  show "bit (mode_bits (drop_bit 6 (mode AND S_IRWXU)) (drop_bit 3 (mode AND S_IRWXG)) (mode AND S_IRWXO)) n \<longleftrightarrow>
      bit (mode AND S_IRWXUGO) n"
    by (cases "n < 6") (auto simp: mode_bits_def bit_simps)
qed

lemma from_mode_shape:
  "\<exists>uo go ot. posix_acl_from_mode True mode = Inr [uo, go, ot] \<and> acl_shape uo [] go [] [] ot \<and>
     mode_bits (e_perm uo) (e_perm go) (e_perm ot) = mode AND S_IRWXUGO"
proof -
  let ?uo = "\<lparr>e_tag = ACL_USER_OBJ, e_perm = drop_bit 6 (mode AND S_IRWXU), e_id = ACL_UNDEFINED_ID\<rparr>"
  let ?go = "\<lparr>e_tag = ACL_GROUP_OBJ, e_perm = drop_bit 3 (mode AND S_IRWXG), e_id = ACL_UNDEFINED_ID\<rparr>"
  let ?ot = "\<lparr>e_tag = ACL_OTHER, e_perm = mode AND S_IRWXO, e_id = ACL_UNDEFINED_ID\<rparr>"
  have "acl_shape ?uo [] ?go [] [] ?ot"
    by (auto simp: acl_shape_def perm_ok_bit bit_simps)
  with mode_bits_from_mode [of mode] show ?thesis by (simp add: posix_acl_from_mode_def del: drop_bit_and)
qed

section \<open>Changing permissions only\<close>

text \<open>An update that keeps tags and ids, and permissions within the three bits.\<close>

definition perm_frame :: "posix_acl_entry \<Rightarrow> posix_acl_entry \<Rightarrow> bool" where
  "perm_frame e e' \<longleftrightarrow> e_tag e' = e_tag e \<and> e_id e' = e_id e \<and> (perm_ok e \<longrightarrow> perm_ok e')"

lemma frame_refl: "list_all2 perm_frame acl acl"
  by (simp add: list_all2_same perm_frame_def)

lemma frame_trans:
  "list_all2 perm_frame a b \<Longrightarrow> list_all2 perm_frame b c \<Longrightarrow> list_all2 perm_frame a c"
  by (rule list_all2_trans [of perm_frame perm_frame perm_frame]) (auto simp: perm_frame_def)

lemma frame_update:
  assumes "perm_ok (acl ! i) \<Longrightarrow> perm_ok ((acl ! i)\<lparr>e_perm := p\<rparr>)"
  shows "list_all2 perm_frame acl (acl[i := (acl ! i)\<lparr>e_perm := p\<rparr>])"
proof (cases "i < length acl")
  case True
  with assms show ?thesis by (auto simp: list_all2_conv_all_nth perm_frame_def nth_list_update)
qed (simp add: frame_refl not_less list_update_beyond)

lemma valid_loop_frame:
  "list_all2 perm_frame acl acl' \<Longrightarrow> valid_loop st i nm acl = Inr () \<Longrightarrow> valid_loop st i nm acl' = Inr ()"
proof (induction acl acl' arbitrary: st i nm rule: list_all2_induct)
  case (Cons e acl e' acl')
  then show ?case
    by (cases "e_tag e") (auto simp: perm_frame_def perm_ok_def split: if_splits)
qed simp

locale acl_update =
  fixes upd :: "posix_acl \<Rightarrow> posix_acl"
  assumes upd_frame: "list_all2 perm_frame acl (upd acl)"
begin

lemma upd_valid: "posix_acl_valid acl = Inr () \<Longrightarrow> posix_acl_valid (upd acl) = Inr ()"
  unfolding posix_acl_valid_def by (rule valid_loop_frame [OF upd_frame])

lemma upd_wf: "wf_acl acl \<Longrightarrow> wf_acl (upd acl)"
  using upd_valid by (simp add: posix_acl_valid_wf)

lemma upd_tags: "map e_tag (upd acl) = map e_tag acl" and upd_ids: "map e_id (upd acl) = map e_id acl"
  using upd_frame [of acl] by (auto simp: list_all2_conv_all_nth perm_frame_def intro!: nth_equalityI)

end

lemma frame_and: "perm_ok e \<Longrightarrow> perm_ok (e\<lparr>e_perm := e_perm e AND q\<rparr>)"
  by (auto simp: perm_ok_bit bit_simps)

lemma create_loop_frame: "list_all2 perm_frame (m_acl m) (m_acl (case_sum id id (create_loop i n m)))"
proof (induction n arbitrary: i m)
  case (Suc n)
  have step: "list_all2 perm_frame (m_acl m)
      (m_acl (case_sum id id (create_loop (Suc i) n
        (m\<lparr>m_acl := (m_acl m)[i := (m_acl m ! i)\<lparr>e_perm := e_perm (m_acl m ! i) AND q\<rparr>], m_mode := w\<rparr>))))" for q w
    by (rule frame_trans [OF _ Suc.IH]) (simp add: frame_update frame_and)
  have keep: "list_all2 perm_frame (m_acl m) (m_acl (case_sum id id (create_loop (Suc i) n m')))"
    if "m_acl m' = m_acl m" for m'
    using Suc.IH [of m'] that by simp
  show ?case
    by (cases "e_tag (m_acl m ! i)") (simp_all only: create_loop.simps Let_def acl_tag.case step keep,
        simp_all add: keep frame_refl)
qed (simp add: frame_refl not_less list_update_beyond)

lemma create_group_class_frame: "list_all2 perm_frame (m_acl m) (m_acl (create_group_class i m))"
  by (simp add: create_group_class_def Let_def frame_update frame_and)

interpretation create: acl_update "\<lambda>acl. fst (posix_acl_create_masq acl mode)" for mode
proof
  fix acl
  let ?m = "\<lparr>m_acl = acl, m_mode = mode, m_not_equiv = False, m_group_obj = None, m_mask_obj = None\<rparr>"
  show "list_all2 perm_frame acl (fst (posix_acl_create_masq acl mode))"
    using create_loop_frame [of ?m 0 "length acl"]
    by (auto simp: posix_acl_create_masq_def Let_def split: sum.splits option.splits
        intro: frame_trans create_group_class_frame)
qed

lemma chmod_loop_frame:
  "chmod_loop mode i n acl go mo = (ok, acl', go', mo') \<Longrightarrow> list_all2 perm_frame acl acl'"
proof (induction mode i n acl go mo arbitrary: ok acl' go' mo' rule: chmod_loop.induct)
  case (1 mode i acl go mo)
  then show ?case by (simp add: frame_refl)
next
  case (2 mode i n acl go mo)
  have u: "list_all2 perm_frame acl (acl[i := (acl ! i)\<lparr>e_perm := drop_bit 6 (mode AND S_IRWXU)\<rparr>])"
    by (rule frame_update) (auto simp: perm_ok_bit bit_simps)
  have o: "list_all2 perm_frame acl (acl[i := (acl ! i)\<lparr>e_perm := mode AND S_IRWXO\<rparr>])"
    by (rule frame_update) (auto simp: perm_ok_bit bit_simps)
  show ?case
    by (cases "e_tag (acl ! i)")
      (use 2 in \<open>auto simp: Let_def frame_refl intro: frame_trans [OF u] frame_trans [OF o]\<close>)
qed

interpretation chmod: acl_update "\<lambda>acl. fst (posix_acl_chmod_masq acl mode)" for mode
proof
  fix acl
  have g: "list_all2 perm_frame xs (xs[i := (xs ! i)\<lparr>e_perm := drop_bit 3 (mode AND S_IRWXG)\<rparr>])" for xs i
    by (rule frame_update) (auto simp: perm_ok_bit bit_simps)
  show "list_all2 perm_frame acl (fst (posix_acl_chmod_masq acl mode))"
    by (auto simp: posix_acl_chmod_masq_def split: prod.splits bool.splits option.splits
        simp del: drop_bit_and
        dest: chmod_loop_frame intro: frame_trans g)
qed

lemma create_named:
  "\<forall>e \<in> set es. e_tag e = ACL_USER \<or> e_tag e = ACL_GROUP \<Longrightarrow> m_acl m = pre @ es @ post \<Longrightarrow>
   create_loop (length pre) (length es + n) m =
   create_loop (length pre + length es) n (m\<lparr>m_not_equiv := m_not_equiv m \<or> es \<noteq> []\<rparr>)"
proof (induction es arbitrary: pre m)
  case (Cons e es)
  have "create_loop (length pre) (length (e # es) + n) m =
      create_loop (length (pre @ [e])) (length es + n) (m\<lparr>m_not_equiv := True\<rparr>)"
    using Cons.prems by (auto simp: nth_append)
  also have "\<dots> = create_loop (length (pre @ [e]) + length es) n (m\<lparr>m_not_equiv := True\<rparr>)"
    using Cons.prems by (subst Cons.IH) auto
  finally show ?case by simp
qed simp

lemma chmod_named:
  "\<forall>e \<in> set es. e_tag e = ACL_USER \<or> e_tag e = ACL_GROUP \<Longrightarrow>
   chmod_loop mode (length pre) (length es + n) (pre @ es @ post) go mo =
   chmod_loop mode (length pre + length es) n (pre @ es @ post) go mo"
proof (induction es arbitrary: pre)
  case (Cons e es)
  have "chmod_loop mode (length pre) (length (e # es) + n) (pre @ (e # es) @ post) go mo =
      chmod_loop mode (length (pre @ [e])) (length es + n) ((pre @ [e]) @ es @ post) go mo"
    using Cons.prems by (auto simp: nth_append)
  also have "\<dots> = chmod_loop mode (length (pre @ [e]) + length es) n ((pre @ [e]) @ es @ post) go mo"
    using Cons.prems by (intro Cons.IH) auto
  finally show ?case by simp
qed simp

definition and_perm :: "posix_acl_entry \<Rightarrow> u16 \<Rightarrow> posix_acl_entry" where
  "and_perm e q = e\<lparr>e_perm := e_perm e AND q\<rparr>"

definition set_perm :: "posix_acl_entry \<Rightarrow> u16 \<Rightarrow> posix_acl_entry" where
  "set_perm e q = e\<lparr>e_perm := q\<rparr>"

lemma e_perm_and_perm: "e_perm (and_perm e q) = e_perm e AND q"
  by (simp add: and_perm_def)

lemma chmod_shape:
  assumes "acl_shape uo us go gs ms ot"
    and "gq = drop_bit 3 (mode AND S_IRWXG)"
  shows "posix_acl_chmod_masq (uo # us @ go # gs @ ms @ [ot]) mode =
     (set_perm uo (drop_bit 6 (mode AND S_IRWXU)) # us @ (if ms = [] then set_perm go gq else go) # gs @
      map (\<lambda>m. set_perm m gq) ms @ [set_perm ot (mode AND S_IRWXO)], Inr ())"
proof -
  note t = acl_shape_tags [OF assms(1)]
  let ?uo = "set_perm uo (drop_bit 6 (mode AND S_IRWXU))"
  let ?ot = "set_perm ot (mode AND S_IRWXO)"
  have 1: "chmod_loop mode 0 (Suc (length us + Suc (length gs + n))) (uo # us @ go # gs @ post) None None =
      chmod_loop mode (length (?uo # us @ go # gs)) n (?uo # us @ go # gs @ post) (Some (Suc (length us))) None"
    for n post
    using t chmod_named [of us mode "[?uo]" "Suc (length gs + n)" "go # gs @ post" None None]
      chmod_named [of gs mode "?uo # us @ [go]" n post "Some (Suc (length us))" None]
    by (simp add: set_perm_def nth_append)
  show ?thesis
  proof (rule mask_cases [OF t(4)])
    assume "ms = []"
    then show ?thesis using t 1 [of 1 "[ot]"]
      by (simp add: posix_acl_chmod_masq_def set_perm_def nth_append list_update_append assms(2))
  next
    fix m
    assume "ms = [m]"
    then show ?thesis using t 1 [of 2 "[m, ot]"]
      by (simp add: posix_acl_chmod_masq_def set_perm_def nth_append list_update_append numeral_2_eq_2 assms(2))
  qed
qed

lemma create_shape:
  fixes mode
  defines "uq \<equiv> drop_bit 6 mode OR NOT S_IRWXO"
  assumes "acl_shape uo us go gs ms ot"
    and "mode1 = mode AND (push_bit 6 (e_perm (and_perm uo uq)) OR NOT S_IRWXU)"
    and "oq = mode1 OR NOT S_IRWXO"
    and "mode2 = mode1 AND (e_perm (and_perm ot oq) OR NOT S_IRWXO)"
    and "gq = drop_bit 3 mode2 OR NOT S_IRWXO"
    and "mode3 = mode2 AND (push_bit 3 (e_perm (group_class go ms) AND gq) OR NOT S_IRWXG)"
  shows "posix_acl_create_masq (uo # us @ go # gs @ ms @ [ot]) mode =
     (and_perm uo uq # us @ (if ms = [] then and_perm go gq else go) # gs @ map (\<lambda>m. and_perm m gq) ms @
      [and_perm ot oq], (mode AND NOT S_IRWXUGO) OR mode3, Inr (us \<noteq> [] \<or> gs \<noteq> [] \<or> ms \<noteq> []))"
proof -
  note t = acl_shape_tags [OF assms(2)]
  let ?uo = "and_perm uo uq"
  let ?m0 = "\<lambda>post. \<lparr>m_acl = uo # us @ go # gs @ post, m_mode = mode, m_not_equiv = False,
             m_group_obj = None, m_mask_obj = None\<rparr>"
  let ?m1 = "\<lambda>post b g. \<lparr>m_acl = ?uo # us @ go # gs @ post, m_mode = mode1, m_not_equiv = b,
             m_group_obj = g, m_mask_obj = None\<rparr>"
  have 1: "create_loop 0 (Suc (length us + Suc (length gs + n))) (?m0 post) =
      create_loop (length (?uo # us @ go # gs)) n (?m1 post (us \<noteq> [] \<or> gs \<noteq> []) (Some (Suc (length us))))"
    for n post
  proof -
    have first: "create_loop 0 (Suc K) (?m0 post) = create_loop (length [?uo]) K (?m1 post False None)" for K
      using t by (simp add: and_perm_def assms(3) uq_def Let_def)
    have go: "create_loop (length [?uo] + length us) (Suc K) (?m1 post b None) =
        create_loop (length (?uo # us @ [go])) K (?m1 post b (Some (Suc (length us))))" for K b
      using t by (simp add: nth_append)
    have "create_loop 0 (Suc (length us + Suc (length gs + n))) (?m0 post) =
        create_loop (length [?uo]) (length us + Suc (length gs + n)) (?m1 post False None)"
      by (rule first)
    also have "\<dots> = create_loop (length [?uo] + length us) (Suc (length gs + n)) (?m1 post (us \<noteq> []) None)"
      by (subst create_named [OF t(5)]) auto
    also have "\<dots> = create_loop (length (?uo # us @ [go])) (length gs + n)
        (?m1 post (us \<noteq> []) (Some (Suc (length us))))"
      by (rule go)
    also have "\<dots> = create_loop (length (?uo # us @ [go]) + length gs) n
        (?m1 post (us \<noteq> [] \<or> gs \<noteq> []) (Some (Suc (length us))))"
      by (subst create_named [OF t(6)]) auto
    finally show ?thesis by simp
  qed
  show ?thesis
  proof (rule mask_cases [OF t(4)])
    assume "ms = []"
    then show ?thesis using t 1 [of 1 "[ot]"]
      by (simp add: posix_acl_create_masq_def create_group_class_def group_class_def and_perm_def
          nth_append list_update_append Let_def assms)
  next
    fix m
    assume "ms = [m]"
    then show ?thesis using t 1 [of 2 "[m, ot]"]
      by (simp add: posix_acl_create_masq_def create_group_class_def group_class_def and_perm_def
          nth_append list_update_append numeral_2_eq_2 Let_def assms)
  qed
qed

lemma create_bits:
  fixes mode u g ot :: u16
  assumes "\<And>n. bit u n \<Longrightarrow> n < 3" "\<And>n. bit g n \<Longrightarrow> n < 3" "\<And>n. bit ot n \<Longrightarrow> n < 3"
    and "u' = u AND (drop_bit 6 mode OR NOT S_IRWXO)"
    and "mode1 = mode AND (push_bit 6 u' OR NOT S_IRWXU)"
    and "ot' = ot AND (mode1 OR NOT S_IRWXO)"
    and "mode2 = mode1 AND (ot' OR NOT S_IRWXO)"
    and "g' = g AND (drop_bit 3 mode2 OR NOT S_IRWXO)"
    and "mode3 = mode2 AND (push_bit 3 g' OR NOT S_IRWXG)"
  shows "(mode AND NOT S_IRWXUGO) OR mode3 = mode AND (mode_bits u g ot OR NOT S_IRWXUGO)"
    and "(mode AND NOT S_IRWXUGO) OR mode_bits u' g' ot' = mode AND (mode_bits u g ot OR NOT S_IRWXUGO)"
proof -
  have u': "bit u' n \<longleftrightarrow> bit u n \<and> bit mode (n + 6)" for n
    using assms(1) [of n] by (auto simp: assms(4) bit_simps add.commute)
  have m1: "bit mode1 n \<longleftrightarrow> bit mode n \<and> (6 \<le> n \<and> n < 9 \<longrightarrow> bit u (n - 6))" for n
    using bit_imp_le_length [of mode n] by (auto simp: assms(5) bit_simps u')
  have ot': "bit ot' n \<longleftrightarrow> bit ot n \<and> bit mode n" for n
    using assms(3) [of n] bit_imp_le_length [of ot n] by (auto simp: assms(6) bit_simps m1)
  have m2: "bit mode2 n \<longleftrightarrow> bit mode1 n \<and> (n < 3 \<longrightarrow> bit ot n)" for n
    using bit_imp_le_length [of mode n] by (auto simp: assms(7) bit_simps ot' m1)
  have g': "bit g' n \<longleftrightarrow> bit g n \<and> bit mode (n + 3)" for n
    using assms(2) [of n] bit_imp_le_length [of g n] by (auto simp: assms(8) bit_simps m1 m2 add.commute)
  have m3: "bit mode3 n \<longleftrightarrow> bit mode2 n \<and> (3 \<le> n \<and> n < 6 \<longrightarrow> bit g (n - 3))" for n
    using bit_imp_le_length [of mode n] by (auto simp: assms(9) bit_simps m1 m2 g')
  note b = mode_bits_def bit_simps u' m1 ot' m2 g' m3
  have split: "n < 3 \<or> 3 \<le> n \<and> n < 6 \<or> 6 \<le> n \<and> n < 9 \<or> 9 \<le> n" for n :: nat by arith
  show "(mode AND NOT S_IRWXUGO) OR mode3 = mode AND (mode_bits u g ot OR NOT S_IRWXUGO)"
  proof (rule bit_eqI)
    fix n
    show "bit ((mode AND NOT S_IRWXUGO) OR mode3) n \<longleftrightarrow>
        bit (mode AND (mode_bits u g ot OR NOT S_IRWXUGO)) n"
      using split [of n] by (elim disjE conjE; cases "bit mode n") (auto simp: b dest: bit_imp_le_length)
  qed
  show "(mode AND NOT S_IRWXUGO) OR mode_bits u' g' ot' = mode AND (mode_bits u g ot OR NOT S_IRWXUGO)"
  proof (rule bit_eqI)
    fix n
    show "bit ((mode AND NOT S_IRWXUGO) OR mode_bits u' g' ot') n \<longleftrightarrow>
        bit (mode AND (mode_bits u g ot OR NOT S_IRWXUGO)) n"
      using split [of n] by (elim disjE conjE; cases "bit mode n") (auto simp: b dest: bit_imp_le_length)
  qed
qed


lemma create_masq_modes:
  assumes "wf_acl acl"
  shows "\<exists>acl' granted ne. posix_acl_equiv_mode acl 0 = Inr (granted, ne) \<and>
    posix_acl_create_masq acl mode = (acl', mode AND (granted OR NOT S_IRWXUGO), Inr ne) \<and>
    posix_acl_equiv_mode acl' mode = Inr (mode AND (granted OR NOT S_IRWXUGO), ne)"
proof -
  obtain uo us go gs ms ot where acl: "acl = uo # us @ go # gs @ ms @ [ot]"
    and sh: "acl_shape uo us go gs ms ot" using assms by (auto simp: wf_acl_def)
  define u' m1 where "u' = e_perm uo AND (drop_bit 6 mode OR NOT S_IRWXO)"
    and "m1 = mode AND (push_bit 6 u' OR NOT S_IRWXU)"
  define ot' m2 where "ot' = e_perm ot AND (m1 OR NOT S_IRWXO)" and "m2 = m1 AND (ot' OR NOT S_IRWXO)"
  define g' m3 where "g' = e_perm (group_class go ms) AND (drop_bit 3 m2 OR NOT S_IRWXO)"
    and "m3 = m2 AND (push_bit 3 g' OR NOT S_IRWXG)"
  note defs = u'_def m1_def ot'_def m2_def g'_def m3_def
  let ?uo = "and_perm uo (drop_bit 6 mode OR NOT S_IRWXO)"
  let ?gq = "drop_bit 3 m2 OR NOT S_IRWXO"
  let ?go = "if ms = [] then and_perm go ?gq else go"
  let ?ms = "map (\<lambda>m. and_perm m ?gq) ms"
  let ?ot = "and_perm ot (m1 OR NOT S_IRWXO)"
  have p: "e_perm ?uo = u'" "e_perm ?ot = ot'" "e_perm (group_class ?go ?ms) = g'"
    by (simp_all only: defs and_perm_def) (auto simp: group_class_def and_perm_def split: list.splits)
  have c: "posix_acl_create_masq acl mode = (?uo # us @ ?go # gs @ ?ms @ [?ot],
       (mode AND NOT S_IRWXUGO) OR m3, Inr (us \<noteq> [] \<or> gs \<noteq> [] \<or> ms \<noteq> []))"
    unfolding acl by (rule create_shape [OF sh]) (simp_all only: defs e_perm_and_perm)
  have sh': "acl_shape ?uo us ?go gs ?ms ?ot"
    using sh by (auto simp: acl_shape_def and_perm_def frame_and)
  have ok: "perm_ok uo" "perm_ok (group_class go ms)" "perm_ok ot"
    using sh by (auto simp: acl_shape_def group_class_def split: list.splits)
  note bits = create_bits [OF _ _ _ u'_def m1_def ot'_def m2_def g'_def m3_def]
  have "(mode AND NOT S_IRWXUGO) OR m3 = mode AND (mode_bits (e_perm uo) (e_perm (group_class go ms)) (e_perm ot) OR NOT S_IRWXUGO)"
    "(mode AND NOT S_IRWXUGO) OR mode_bits u' g' ot' = mode AND (mode_bits (e_perm uo) (e_perm (group_class go ms)) (e_perm ot) OR NOT S_IRWXUGO)"
    using ok by (auto simp: perm_ok_bit intro!: bits)
  then show ?thesis
    using equiv_mode_shape [OF sh, of 0] equiv_mode_shape [OF sh', of mode] c
    by (simp add: acl p)
qed

lemma chmod_masq_modes:
  assumes "wf_acl acl"
  shows "\<exists>acl' ne. posix_acl_chmod_masq acl mode = (acl', Inr ()) \<and>
    posix_acl_equiv_mode acl' m = Inr ((m AND NOT S_IRWXUGO) OR (mode AND S_IRWXUGO), ne)"
proof -
  obtain uo us go gs ms ot where acl: "acl = uo # us @ go # gs @ ms @ [ot]"
    and sh: "acl_shape uo us go gs ms ot" using assms by (auto simp: wf_acl_def)
  let ?gq = "drop_bit 3 (mode AND S_IRWXG)"
  let ?uo = "set_perm uo (drop_bit 6 (mode AND S_IRWXU))"
  let ?go = "if ms = [] then set_perm go ?gq else go"
  let ?ms = "map (\<lambda>m. set_perm m ?gq) ms"
  let ?ot = "set_perm ot (mode AND S_IRWXO)"
  have sh': "acl_shape ?uo us ?go gs ?ms ?ot"
    using sh by (auto simp: acl_shape_def set_perm_def perm_ok_bit bit_simps)
  have p: "e_perm ?uo = drop_bit 6 (mode AND S_IRWXU)" "e_perm (group_class ?go ?ms) = ?gq"
    "e_perm ?ot = mode AND S_IRWXO"
    by (auto simp: group_class_def set_perm_def split: list.splits)
  have "posix_acl_chmod_masq acl mode = (?uo # us @ ?go # gs @ ?ms @ [?ot], Inr ())"
    unfolding acl by (rule chmod_shape [OF sh refl])
  with equiv_mode_shape [OF sh', of m] mode_bits_from_mode [of mode] show ?thesis
    by (simp add: p del: drop_bit_and)
qed

section \<open>Extended attribute encoding\<close>

lemma le16_roundtrip [simp]: "le16_to_cpu (cpu_to_le16 w) = w"
proof (rule bit_eqI)
  fix n
  show "bit (le16_to_cpu (cpu_to_le16 w)) n \<longleftrightarrow> bit w n"
    using bit_imp_le_length [of w n]
    by (cases "n < 8") (auto simp: le16_to_cpu_def cpu_to_le16_def bit_simps)
qed

lemma le32_roundtrip [simp]: "le32_to_cpu (cpu_to_le32 w) = w"
proof (rule bit_eqI)
  fix n :: nat
  have "n < 8 \<or> 8 \<le> n \<and> n < 16 \<or> 16 \<le> n \<and> n < 24 \<or> 24 \<le> n" by arith
  then show "bit (le32_to_cpu (cpu_to_le32 w)) n \<longleftrightarrow> bit w n"
    using bit_imp_le_length [of w n]
    by (elim disjE conjE) (auto simp: le32_to_cpu_def cpu_to_le32_def bit_simps)
qed

lemma length_le [simp]: "length (cpu_to_le16 w) = 2" "length (cpu_to_le32 v) = 4"
  by (simp_all add: cpu_to_le16_def cpu_to_le32_def)

lemma length_entry_to_xattr [simp]: "length (entry_to_xattr e) = 8"
  by (simp add: entry_to_xattr_def)

lemma length_entries_to_xattr [simp]: "length (concat (map entry_to_xattr acl)) = length acl * 8"
  by (induction acl) simp_all

text \<open>Entries as the decoder builds them: a known tag, and an id only where it means something.\<close>

definition xattr_canonical :: "posix_acl_entry \<Rightarrow> bool" where
  "xattr_canonical e \<longleftrightarrow>
     (e_tag e = ACL_USER \<or> e_tag e = ACL_GROUP \<or>
      e_tag e \<in> {ACL_USER_OBJ, ACL_GROUP_OBJ, ACL_MASK, ACL_OTHER} \<and> e_id e = ACL_UNDEFINED_ID)"

lemma from_xattr_loop_roundtrip:
  "\<forall>e \<in> set acl. xattr_canonical e \<Longrightarrow>
   from_xattr_loop (concat (map entry_to_xattr acl)) (length acl) = Inr acl"
proof (induction acl)
  case (Cons e acl)
  let ?b = "concat (map entry_to_xattr (e # acl))"
  have parts: "le16_to_cpu (take 2 ?b) = tag_value (e_tag e)" "le16_to_cpu (take 2 (drop 2 ?b)) = e_perm e"
    "le32_to_cpu (take 4 (drop 4 ?b)) = e_id e" "drop 8 ?b = concat (map entry_to_xattr acl)"
    by (simp_all add: entry_to_xattr_def)
  have e: "xattr_canonical e" "from_xattr_loop (concat (map entry_to_xattr acl)) (length acl) = Inr acl"
    using Cons by auto
  have vt: "value_tag (tag_value (e_tag e)) = e_tag e"
    using e(1) by (auto simp: xattr_canonical_def value_tag_def)
  have "from_xattr_loop ?b (Suc (length acl)) =
      (case e_tag e of
         ACL_UNKNOWN _ \<Rightarrow> Inl EINVAL
       | ACL_USER \<Rightarrow> Inr (e # acl)
       | ACL_GROUP \<Rightarrow> Inr (e # acl)
       | _ \<Rightarrow> Inr (e\<lparr>e_id := ACL_UNDEFINED_ID\<rparr> # acl))"
    unfolding from_xattr_loop.simps parts vt Let_def e(2) by (cases e) (simp split: acl_tag.splits)
  moreover have "e\<lparr>e_id := ACL_UNDEFINED_ID\<rparr> = e" if "e_id e = ACL_UNDEFINED_ID"
    using that by (cases e) simp
  ultimately show ?case using e(1) by (auto simp: xattr_canonical_def simp del: from_xattr_loop.simps)
qed simp

lemma xattr_roundtrip:
  assumes "\<forall>e \<in> set acl. xattr_canonical e" "acl \<noteq> []" "length buf = posix_acl_xattr_size (length acl)"
  shows "\<exists>b. posix_acl_to_xattr acl (Some buf) = Inr (length buf, Some b) \<and>
    posix_acl_from_xattr True (Some b) = Inr (Some acl)"
proof -
  let ?b = "cpu_to_le32 POSIX_ACL_XATTR_VERSION @ concat (map entry_to_xattr acl)"
  have "length ?b = 4 + length acl * 8" by simp
  then have "posix_acl_xattr_count (length ?b) = Some (length acl)"
    by (simp add: posix_acl_xattr_count_def)
  moreover obtain k where k: "length acl = Suc k" using assms(2) by (cases acl) auto
  moreover have "\<not> length ?b < 4" by simp
  ultimately have "posix_acl_from_xattr True (Some ?b) = Inr (Some acl)"
    using from_xattr_loop_roundtrip [OF assms(1)]
    by (simp add: posix_acl_from_xattr_def del: from_xattr_loop.simps length_append)
  then show ?thesis
    using assms(3) by (intro exI [of _ ?b]) (simp add: posix_acl_to_xattr_def posix_acl_xattr_size_def)
qed

section \<open>Properties\<close>

text \<open>C33: \<^verbatim>\<open>posix_acl_valid\<close> accepts exactly the ACLs of the documented shape: owner, named users,
  owning group, named groups, at most one mask, others, with ascending defined ids within each
  class, and a mask as soon as there is a named entry.\<close>

theorem posix_acl_valid_iff: "posix_acl_valid acl = Inr () \<longleftrightarrow> wf_acl acl"
  by (rule posix_acl_valid_wf)

text \<open>C7: on a valid ACL the permission check decides the POSIX.1e algorithm; it grants or
  denies and never reports a damaged list.\<close>

theorem posix_acl_permission_correct:
  assumes "posix_acl_valid acl = Inr ()"
  shows "posix_acl_permission cred inode acl want = verdict (acl_grants cred inode acl want)"
  using assms by (simp add: posix_acl_valid_wf posix_acl_permission_spec)

definition example_acl :: posix_acl where
  "example_acl =
     [\<lparr>e_tag = ACL_USER_OBJ, e_perm = 6, e_id = ACL_UNDEFINED_ID\<rparr>,
      \<lparr>e_tag = ACL_USER, e_perm = 6, e_id = 1000\<rparr>,
      \<lparr>e_tag = ACL_GROUP_OBJ, e_perm = 4, e_id = ACL_UNDEFINED_ID\<rparr>,
      \<lparr>e_tag = ACL_MASK, e_perm = 4, e_id = ACL_UNDEFINED_ID\<rparr>,
      \<lparr>e_tag = ACL_OTHER, e_perm = 0, e_id = ACL_UNDEFINED_ID\<rparr>]"

lemma example_acl_valid: "posix_acl_valid example_acl = Inr ()"
  by (simp add: example_acl_def posix_acl_valid_def ACL_UNDEFINED_ID_def)

theorem posix_acl_permission_correct_witness:
  "posix_acl_permission (init_cred\<lparr>cr_fsuid := 1000, cr_fsgid := 5\<rparr>)
     \<lparr>i_uid = 0, i_gid = 0\<rparr> example_acl 2 = Inl EACCES"
  unfolding posix_acl_permission_correct [OF example_acl_valid]
  by (simp add: verdict_def acl_grants_def example_acl_def user_match_def within_mask_def grants_def)

text \<open>the ACL made from a file mode is valid, is equivalent to a mode, and gives the nine
  permission bits back.\<close>

theorem from_mode_equiv_mode:
  "\<exists>acl. posix_acl_from_mode True mode = Inr acl \<and> posix_acl_valid acl = Inr () \<and>
     posix_acl_equiv_mode acl m = Inr ((m AND NOT S_IRWXUGO) OR (mode AND S_IRWXUGO), False)"
proof -
  obtain uo go ot where s: "posix_acl_from_mode True mode = Inr [uo, go, ot]" "acl_shape uo [] go [] [] ot"
    "mode_bits (e_perm uo) (e_perm go) (e_perm ot) = mode AND S_IRWXUGO"
    using from_mode_shape by blast
  have "wf_acl [uo, go, ot]" unfolding wf_acl_def
    by (rule exI [of _ uo], rule exI [of _ "[]"], rule exI [of _ go], rule exI [of _ "[]"],
        rule exI [of _ "[]"], rule exI [of _ ot]) (simp add: s(2))
  with s equiv_mode_shape [OF s(2), of m] show ?thesis
    by (simp add: posix_acl_valid_wf group_class_def)
qed

text \<open>C25: creating a file under a valid default ACL leaves a valid ACL with the same tags and
  ids; the resulting mode keeps exactly the requested bits that the ACL granted, and the new ACL
  stands for exactly that mode.\<close>

theorem create_masq_correct:
  assumes "posix_acl_valid acl = Inr ()"
  shows "\<exists>acl' granted ne. posix_acl_equiv_mode acl 0 = Inr (granted, ne) \<and>
    posix_acl_create_masq acl mode = (acl', mode AND (granted OR NOT S_IRWXUGO), Inr ne) \<and>
    posix_acl_valid acl' = Inr () \<and> map e_tag acl' = map e_tag acl \<and> map e_id acl' = map e_id acl \<and>
    posix_acl_equiv_mode acl' mode = Inr (mode AND (granted OR NOT S_IRWXUGO), ne)"
proof -
  obtain acl' granted ne where *: "posix_acl_equiv_mode acl 0 = Inr (granted, ne)"
    "posix_acl_create_masq acl mode = (acl', mode AND (granted OR NOT S_IRWXUGO), Inr ne)"
    "posix_acl_equiv_mode acl' mode = Inr (mode AND (granted OR NOT S_IRWXUGO), ne)"
    using create_masq_modes assms by (metis posix_acl_valid_wf)
  then have "acl' = fst (posix_acl_create_masq acl mode)" by simp
  with * assms show ?thesis using create.upd_valid create.upd_tags create.upd_ids by metis
qed

theorem create_masq_correct_witness:
  "\<exists>acl' granted ne. posix_acl_equiv_mode example_acl 0 = Inr (granted, ne) \<and>
    posix_acl_create_masq example_acl 384 = (acl', 384 AND (granted OR NOT S_IRWXUGO), Inr ne) \<and>
    posix_acl_valid acl' = Inr () \<and> map e_tag acl' = map e_tag example_acl \<and>
    map e_id acl' = map e_id example_acl \<and>
    posix_acl_equiv_mode acl' 384 = Inr (384 AND (granted OR NOT S_IRWXUGO), ne)"
  by (rule create_masq_correct [OF example_acl_valid])

text \<open>C29: changing the mode of a file with a valid ACL leaves a valid ACL with the same tags
  and ids that stands for exactly the new permission bits.\<close>

theorem chmod_masq_correct:
  assumes "posix_acl_valid acl = Inr ()"
  shows "\<exists>acl' ne. posix_acl_chmod_masq acl mode = (acl', Inr ()) \<and> posix_acl_valid acl' = Inr () \<and>
    map e_tag acl' = map e_tag acl \<and> map e_id acl' = map e_id acl \<and>
    posix_acl_equiv_mode acl' m = Inr ((m AND NOT S_IRWXUGO) OR (mode AND S_IRWXUGO), ne)"
proof -
  obtain acl' ne where *: "posix_acl_chmod_masq acl mode = (acl', Inr ())"
    "posix_acl_equiv_mode acl' m = Inr ((m AND NOT S_IRWXUGO) OR (mode AND S_IRWXUGO), ne)"
    using chmod_masq_modes assms by (metis posix_acl_valid_wf)
  then have "acl' = fst (posix_acl_chmod_masq acl mode)" by simp
  with * assms show ?thesis using chmod.upd_valid chmod.upd_tags chmod.upd_ids by metis
qed

theorem chmod_masq_correct_witness:
  "\<exists>acl' ne. posix_acl_chmod_masq example_acl 420 = (acl', Inr ()) \<and> posix_acl_valid acl' = Inr () \<and>
    map e_tag acl' = map e_tag example_acl \<and> map e_id acl' = map e_id example_acl \<and>
    posix_acl_equiv_mode acl' 0 = Inr ((0 AND NOT S_IRWXUGO) OR (420 AND S_IRWXUGO), ne)"
  by (rule chmod_masq_correct [OF example_acl_valid])

text \<open>C35: an ACL written to its extended attribute and read back is the same ACL.\<close>

theorem acl_xattr_roundtrip:
  assumes "\<forall>e \<in> set acl. xattr_canonical e" "acl \<noteq> []" "length buf = posix_acl_xattr_size (length acl)"
  shows "\<exists>b. posix_acl_to_xattr acl (Some buf) = Inr (length buf, Some b) \<and>
    posix_acl_from_xattr True (Some b) = Inr (Some acl)"
  by (rule xattr_roundtrip [OF assms])

theorem acl_xattr_roundtrip_witness:
  "\<exists>b. posix_acl_to_xattr example_acl (Some (replicate 44 0)) = Inr (44, Some b) \<and>
    posix_acl_from_xattr True (Some b) = Inr (Some example_acl)"
  using acl_xattr_roundtrip [of example_acl "replicate 44 0"]
  by (simp add: example_acl_def xattr_canonical_def posix_acl_xattr_size_def)

end
