(* ===== verification/Commoncap.thy ===== *)
theory Commoncap
  imports Cred_Groups
begin

text \<open>
  The capability security module (\<^verbatim>\<open>security/commoncap.c\<close>), the capability checks of
  \<^verbatim>\<open>kernel/capability.c\<close>, the set-id system calls of \<^verbatim>\<open>kernel/sys.c\<close> and the credential part
  of \<^verbatim>\<open>prepare_binprm\<close> in \<^verbatim>\<open>fs/exec.c\<close>. Each call maps the credentials of the current task to
  the ones it commits. \<open>id_step\<close> is one successful call, \<open>exec_step\<close> one program execution,
  \<open>reachable_cred\<close> everything a task can become from \<open>init_cred\<close>; the invariants are proved by
  rule induction from one frame lemma per call. The build is the one with
  \<^verbatim>\<open>CONFIG_ANDROID_PARANOID_NETWORK\<close>, as the sources require. Auditing and the
  \<^verbatim>\<open>PF_SUPERPRIV\<close> accounting flag are not modelled.
\<close>

section \<open>Capability checks\<close>

definition AID_NET_RAW :: gid_t where "AID_NET_RAW = 3004"
definition AID_NET_ADMIN :: gid_t where "AID_NET_ADMIN = 3005"

definition issecure :: "cred \<Rightarrow> nat \<Rightarrow> bool" where
  "issecure current x \<longleftrightarrow> issecure_mask x AND cr_securebits current \<noteq> 0"

text \<open>
  The loop over the namespaces from the target up to the initial one. The first test applies
  to the creator of a namespace other than the initial one.
\<close>

fun cap_capable_loop :: "cred \<Rightarrow> user_namespace \<Rightarrow> nat \<Rightarrow> unit result" where
  "cap_capable_loop cred Init_user_ns cap =
     (if u_ns (cr_user cred) = Init_user_ns
      then if cap_raised (cr_cap_effective cred) cap then Inr () else Inl EPERM
      else Inl EPERM)"
| "cap_capable_loop cred (User_ns (User_struct uid ns)) cap =
     (if User_struct uid ns = cr_user cred then Inr ()
      else if u_ns (cr_user cred) = User_ns (User_struct uid ns)
      then if cap_raised (cr_cap_effective cred) cap then Inr () else Inl EPERM
      else cap_capable_loop cred ns cap)"

definition cap_capable :: "cred \<Rightarrow> cred \<Rightarrow> user_namespace \<Rightarrow> nat \<Rightarrow> unit result" where
  "cap_capable current cred targ_ns cap =
     (if cap = CAP_NET_RAW \<and> in_egroup_p current AID_NET_RAW then Inr ()
      else if cap = CAP_NET_ADMIN \<and> in_egroup_p current AID_NET_ADMIN then Inr ()
      else cap_capable_loop cred targ_ns cap)"

text \<open>The kernel stops on an invalid capability number; every caller passes a constant.\<close>

definition ns_capable :: "cred \<Rightarrow> user_namespace \<Rightarrow> nat \<Rightarrow> bool" where
  "ns_capable current ns cap \<longleftrightarrow> cap_capable current current ns cap = Inr ()"

definition capable :: "cred \<Rightarrow> nat \<Rightarrow> bool" where
  "capable current cap \<longleftrightarrow> ns_capable current Init_user_ns cap"

definition nsown_capable :: "cred \<Rightarrow> nat \<Rightarrow> bool" where
  "nsown_capable current cap \<longleftrightarrow> ns_capable current (u_ns (cr_user current)) cap"

definition cap_ptrace_access_check :: "cred \<Rightarrow> cred \<Rightarrow> unit result" where
  "cap_ptrace_access_check current child_cred =
     (if u_ns (cr_user current) = u_ns (cr_user child_cred) \<and>
         cap_issubset (cr_cap_permitted child_cred) (cr_cap_permitted current) then Inr ()
      else if ns_capable current (u_ns (cr_user child_cred)) CAP_SYS_PTRACE then Inr ()
      else Inl EPERM)"

definition cap_ptrace_traceme :: "cred \<Rightarrow> cred \<Rightarrow> unit result" where
  "cap_ptrace_traceme current parent =
     (if u_ns (cr_user parent) = u_ns (cr_user current) \<and>
         cap_issubset (cr_cap_permitted current) (cr_cap_permitted parent) then Inr ()
      else if cap_capable current parent (u_ns (cr_user current)) CAP_SYS_PTRACE = Inr () then Inr ()
      else Inl EPERM)"

definition cap_safe_nice :: "cred \<Rightarrow> cred \<Rightarrow> unit result" where
  "cap_safe_nice current p =
     (let is_subset = cap_issubset (cr_cap_permitted p) (cr_cap_permitted current) in
      if \<not> is_subset \<and> \<not> capable current CAP_SYS_NICE then Inl EPERM else Inr ())"

section \<open>Setting capabilities\<close>

definition cap_inh_is_capped :: "cred \<Rightarrow> bool" where
  "cap_inh_is_capped current \<longleftrightarrow>
     cap_capable current current (u_ns (cr_user current)) CAP_SETPCAP \<noteq> Inr ()"

text \<open>The current credentials are also the old ones in every call.\<close>

definition cap_capset ::
  "cred \<Rightarrow> cred \<Rightarrow> kernel_cap_t \<Rightarrow> kernel_cap_t \<Rightarrow> kernel_cap_t \<Rightarrow> cred result" where
  "cap_capset new old effective inheritable permitted =
     (if cap_inh_is_capped old \<and>
         \<not> cap_issubset inheritable (cap_combine (cr_cap_inheritable old) (cr_cap_permitted old))
      then Inl EPERM
      else if \<not> cap_issubset inheritable (cap_combine (cr_cap_inheritable old) (cr_cap_bset old))
      then Inl EPERM
      else if \<not> cap_issubset permitted (cr_cap_permitted old) then Inl EPERM
      else if \<not> cap_issubset effective permitted then Inl EPERM
      else Inr (new\<lparr>cr_cap_effective := effective, cr_cap_inheritable := inheritable,
                    cr_cap_permitted := permitted\<rparr>))"

section \<open>Following uid changes\<close>

datatype setid_flag = LSM_SETID_ID | LSM_SETID_RE | LSM_SETID_RES | LSM_SETID_FS

definition cap_emulate_setxuid :: "cred \<Rightarrow> cred \<Rightarrow> cred" where
  "cap_emulate_setxuid new old =
     (let new = (if (cr_uid old = 0 \<or> cr_euid old = 0 \<or> cr_suid old = 0) \<and>
                    (cr_uid new \<noteq> 0 \<and> cr_euid new \<noteq> 0 \<and> cr_suid new \<noteq> 0) \<and>
                    \<not> issecure old SECURE_KEEP_CAPS
                 then new\<lparr>cr_cap_permitted := cap_empty_set, cr_cap_effective := cap_empty_set\<rparr>
                 else new);
          new = (if cr_euid old = 0 \<and> cr_euid new \<noteq> 0
                 then new\<lparr>cr_cap_effective := cap_empty_set\<rparr> else new)
      in if cr_euid old \<noteq> 0 \<and> cr_euid new = 0
         then new\<lparr>cr_cap_effective := cr_cap_permitted new\<rparr> else new)"

fun cap_task_fix_setuid :: "cred \<Rightarrow> cred \<Rightarrow> setid_flag \<Rightarrow> cred result" where
  "cap_task_fix_setuid new old LSM_SETID_FS =
     Inr (if \<not> issecure old SECURE_NO_SETUID_FIXUP
          then let new = (if cr_fsuid old = 0 \<and> cr_fsuid new \<noteq> 0
                          then new\<lparr>cr_cap_effective := cap_drop_fs_set (cr_cap_effective new)\<rparr>
                          else new)
               in if cr_fsuid old \<noteq> 0 \<and> cr_fsuid new = 0
                  then new\<lparr>cr_cap_effective :=
                             cap_raise_fs_set (cr_cap_effective new) (cr_cap_permitted new)\<rparr>
                  else new
          else new)"
| "cap_task_fix_setuid new old _ =
     Inr (if \<not> issecure old SECURE_NO_SETUID_FIXUP then cap_emulate_setxuid new old else new)"

section \<open>Process control\<close>

datatype prctl_option =
    PR_CAPBSET_READ | PR_CAPBSET_DROP | PR_SET_SECUREBITS | PR_GET_SECUREBITS
  | PR_GET_KEEPCAPS | PR_SET_KEEPCAPS | PR_OTHER

definition cap_prctl_drop :: "cred \<Rightarrow> cred \<Rightarrow> u32 \<Rightarrow> cred result" where
  "cap_prctl_drop current new cap =
     (if \<not> capable current CAP_SETPCAP then Inl EPERM
      else if \<not> cap_valid (unat cap) then Inl EINVAL
      else Inr (new\<lparr>cr_cap_bset := cap_lower (cr_cap_bset new) (unat cap)\<rparr>))"

text \<open>The result: the value returned, and the credentials committed if there are any.\<close>

fun cap_task_prctl :: "bool \<Rightarrow> cred \<Rightarrow> prctl_option \<Rightarrow> u32 \<Rightarrow> (u32 \<times> cred option) result" where
  "cap_task_prctl prepare_ok current PR_CAPBSET_READ arg2 =
     (if \<not> prepare_ok then Inl ENOMEM
      else if \<not> cap_valid (unat arg2) then Inl EINVAL
      else Inr (if cap_raised (cr_cap_bset current) (unat arg2) then 1 else 0, None))"
| "cap_task_prctl prepare_ok current PR_CAPBSET_DROP arg2 =
     (if \<not> prepare_ok then Inl ENOMEM
      else case cap_prctl_drop current current arg2 of
             Inl e \<Rightarrow> Inl e
           | Inr new \<Rightarrow> Inr (0, Some new))"
| "cap_task_prctl prepare_ok current PR_SET_SECUREBITS arg2 =
     (if \<not> prepare_ok then Inl ENOMEM
      else if drop_bit 1 (cr_securebits current AND SECURE_ALL_LOCKS) AND
                (cr_securebits current XOR arg2) \<noteq> 0 \<or>
              cr_securebits current AND SECURE_ALL_LOCKS AND NOT arg2 \<noteq> 0 \<or>
              arg2 AND NOT (SECURE_ALL_LOCKS OR SECURE_ALL_BITS) \<noteq> 0 \<or>
              cap_capable current current (u_ns (cr_user current)) CAP_SETPCAP \<noteq> Inr ()
      then Inl EPERM
      else Inr (0, Some (current\<lparr>cr_securebits := arg2\<rparr>)))"
| "cap_task_prctl prepare_ok current PR_GET_SECUREBITS arg2 =
     (if \<not> prepare_ok then Inl ENOMEM else Inr (cr_securebits current, None))"
| "cap_task_prctl prepare_ok current PR_GET_KEEPCAPS arg2 =
     (if \<not> prepare_ok then Inl ENOMEM
      else Inr (if issecure current SECURE_KEEP_CAPS then 1 else 0, None))"
| "cap_task_prctl prepare_ok current PR_SET_KEEPCAPS arg2 =
     (if \<not> prepare_ok then Inl ENOMEM
      else if arg2 > 1 then Inl EINVAL
      else if issecure current SECURE_KEEP_CAPS_LOCKED then Inl EPERM
      else Inr (0, Some (current\<lparr>cr_securebits :=
             (if arg2 \<noteq> 0 then cr_securebits current OR issecure_mask SECURE_KEEP_CAPS
              else cr_securebits current AND NOT (issecure_mask SECURE_KEEP_CAPS))\<rparr>)))"
| "cap_task_prctl prepare_ok current PR_OTHER arg2 =
     (if \<not> prepare_ok then Inl ENOMEM else Inl ENOSYS)"

section \<open>Program execution\<close>

definition VFS_CAP_REVISION_MASK :: u32 where "VFS_CAP_REVISION_MASK = 0xFF000000"
definition VFS_CAP_FLAGS_EFFECTIVE :: u32 where "VFS_CAP_FLAGS_EFFECTIVE = 1"
definition VFS_CAP_REVISION_1 :: u32 where "VFS_CAP_REVISION_1 = 0x01000000"
definition VFS_CAP_REVISION_2 :: u32 where "VFS_CAP_REVISION_2 = 0x02000000"

record cpu_vfs_cap_data =
  magic_etc :: u32
  vc_permitted :: kernel_cap_t
  vc_inheritable :: kernel_cap_t

definition get_le32 :: "u8 list \<Rightarrow> nat \<Rightarrow> u32" where
  "get_le32 b i = ucast (b ! i) OR push_bit 8 (ucast (b ! (i + 1))) OR
     push_bit 16 (ucast (b ! (i + 2))) OR push_bit 24 (ucast (b ! (i + 3)))"

text \<open>
  The argument is what the inode's \<^verbatim>\<open>getxattr\<close> operation yields for the capability attribute:
  \<^const>\<open>None\<close> when there is no such operation, else an error or the bytes (at most 20 of them).
\<close>

definition get_vfs_caps_from_disk :: "u8 list result option \<Rightarrow> cpu_vfs_cap_data result" where
  "get_vfs_caps_from_disk getxattr =
     (case getxattr of
        None \<Rightarrow> Inl ENODATA
      | Some (Inl e) \<Rightarrow> if e = ENODATA \<or> e = EOPNOTSUPP then Inl ENODATA else Inl e
      | Some (Inr caps) \<Rightarrow>
          if length caps < 4 then Inl EINVAL
          else let magic = get_le32 caps 0 in
            if magic AND VFS_CAP_REVISION_MASK = VFS_CAP_REVISION_1 then
              if length caps \<noteq> 12 then Inl EINVAL
              else Inr \<lparr>magic_etc = magic, vc_permitted = (get_le32 caps 4, 0),
                        vc_inheritable = (get_le32 caps 8, 0)\<rparr>
            else if magic AND VFS_CAP_REVISION_MASK = VFS_CAP_REVISION_2 then
              if length caps \<noteq> 20 then Inl EINVAL
              else Inr \<lparr>magic_etc = magic, vc_permitted = (get_le32 caps 4, get_le32 caps 12),
                        vc_inheritable = (get_le32 caps 8, get_le32 caps 16)\<rparr>
            else Inl EINVAL)"

text \<open>The new credentials, the value of the effective flag, and the error if there is one.\<close>

definition bprm_caps_from_vfs_caps ::
  "cpu_vfs_cap_data \<Rightarrow> cred \<Rightarrow> bool \<Rightarrow> cred \<times> bool \<times> errno option" where
  "bprm_caps_from_vfs_caps caps new effective =
     (let effective = (effective \<or> magic_etc caps AND VFS_CAP_FLAGS_EFFECTIVE \<noteq> 0);
          pP = cap_combine (cap_intersect (cr_cap_bset new) (vc_permitted caps))
                           (cap_intersect (cr_cap_inheritable new) (vc_inheritable caps));
          ret = (if cap_issubset (vc_permitted caps) pP then None else Some EPERM)
      in (new\<lparr>cr_cap_permitted := pP\<rparr>, effective, if effective then ret else None))"

record linux_binprm =
  b_nosuid :: bool          \<comment> \<open>the file system is mounted \<^verbatim>\<open>MNT_NOSUID\<close>\<close>
  b_mode :: u16
  b_uid :: u32
  b_gid :: u32
  b_getxattr :: "u8 list result option"
  b_unsafe :: u32
  b_has_fop :: bool

definition bprm_clear_caps :: "cred \<Rightarrow> cred" where
  "bprm_clear_caps new = new\<lparr>cr_cap_permitted := cap_empty_set\<rparr>"

text \<open>\<open>file_caps_enabled\<close> is the kernel's boot parameter of that name.\<close>

definition get_file_caps :: "bool \<Rightarrow> linux_binprm \<Rightarrow> cred \<Rightarrow> bool \<Rightarrow> cred \<times> bool \<times> errno option" where
  "get_file_caps file_caps_enabled bprm new effective =
     (let new = bprm_clear_caps new in
      if \<not> file_caps_enabled then (new, effective, None)
      else if b_nosuid bprm then (new, effective, None)
      else case get_vfs_caps_from_disk (b_getxattr bprm) of
        Inl e \<Rightarrow> if e = ENODATA then (new, effective, None) else (bprm_clear_caps new, effective, Some e)
      | Inr vcaps \<Rightarrow>
          (case bprm_caps_from_vfs_caps vcaps new effective of
             (new, effective, None) \<Rightarrow> (new, effective, None)
           | (new, effective, Some e) \<Rightarrow> (bprm_clear_caps new, effective, Some e)))"

definition LSM_UNSAFE_PTRACE_CAP :: u32 where "LSM_UNSAFE_PTRACE_CAP = 4"

definition bprm_root_caps :: "cred \<Rightarrow> cred \<Rightarrow> bool \<Rightarrow> cred \<times> bool" where
  "bprm_root_caps old new effective =
     (if issecure old SECURE_NOROOT then (new, effective)
      else if effective \<and> cr_uid new \<noteq> 0 \<and> cr_euid new = 0 then (new, effective)
      else (if cr_euid new = 0 \<or> cr_uid new = 0
            then new\<lparr>cr_cap_permitted := cap_combine (cr_cap_bset old) (cr_cap_inheritable old)\<rparr>
            else new, effective \<or> cr_euid new = 0))"

definition bprm_downgrade :: "linux_binprm \<Rightarrow> cred \<Rightarrow> cred \<Rightarrow> cred" where
  "bprm_downgrade bprm old new =
     (if (cr_euid new \<noteq> cr_uid old \<or> cr_egid new \<noteq> cr_gid old \<or>
          \<not> cap_issubset (cr_cap_permitted new) (cr_cap_permitted old)) \<and>
         b_unsafe bprm AND NOT LSM_UNSAFE_PTRACE_CAP \<noteq> 0
      then let new = (if \<not> capable old CAP_SETUID
                      then new\<lparr>cr_euid := cr_uid new, cr_egid := cr_gid new\<rparr> else new)
           in new\<lparr>cr_cap_permitted := cap_intersect (cr_cap_permitted new) (cr_cap_permitted old)\<rparr>
      else new)"

text \<open>\<open>audit\<close> is the answer of the audit subsystem, which may fail for want of memory.\<close>

definition cap_bprm_set_creds ::
  "bool \<Rightarrow> unit result \<Rightarrow> cred \<Rightarrow> linux_binprm \<Rightarrow> cred \<Rightarrow> (cred \<times> bool) result" where
  "cap_bprm_set_creds file_caps_enabled audit old bprm new =
     (case get_file_caps file_caps_enabled bprm new False of
        (_, _, Some e) \<Rightarrow> Inl e
      | (new, effective, None) \<Rightarrow>
          (let (new, effective) = bprm_root_caps old new effective;
               new = bprm_downgrade bprm old new;
               new = new\<lparr>cr_suid := cr_euid new, cr_fsuid := cr_euid new,
                         cr_sgid := cr_egid new, cr_fsgid := cr_egid new\<rparr>;
               new = new\<lparr>cr_cap_effective := (if effective then cr_cap_permitted new else cap_empty_set)\<rparr>;
               new' = new\<lparr>cr_securebits := cr_securebits new AND NOT (issecure_mask SECURE_KEEP_CAPS)\<rparr>
           in if \<not> cap_isclear (cr_cap_effective new) \<and>
                 (\<not> cap_issubset CAP_FULL_SET (cr_cap_effective new) \<or> cr_euid new \<noteq> 0 \<or>
                  cr_uid new \<noteq> 0 \<or> issecure old SECURE_NOROOT)
              then case audit of Inl e \<Rightarrow> Inl e | Inr _ \<Rightarrow> Inr (new', effective)
              else Inr (new', effective)))"

definition cap_bprm_secureexec :: "cred \<Rightarrow> bool \<Rightarrow> bool" where
  "cap_bprm_secureexec current cap_effective =
     (if cr_uid current \<noteq> 0 \<and> (cap_effective \<or> \<not> cap_isclear (cr_cap_permitted current)) then True
      else cr_euid current \<noteq> cr_uid current \<or> cr_egid current \<noteq> cr_gid current)"

text \<open>The part of \<^verbatim>\<open>prepare_binprm\<close> that sets up credentials, ending in the security hook.\<close>

definition S_ISUID :: u16 where "S_ISUID = 0x800"
definition S_ISGID :: u16 where "S_ISGID = 0x400"
definition S_IXGRP :: u16 where "S_IXGRP = 8"

definition prepare_binprm ::
  "bool \<Rightarrow> unit result \<Rightarrow> cred \<Rightarrow> linux_binprm \<Rightarrow> cred \<Rightarrow> (cred \<times> bool) result" where
  "prepare_binprm file_caps_enabled audit current bprm new =
     (if \<not> b_has_fop bprm then Inl EACCES
      else let new = new\<lparr>cr_euid := cr_euid current, cr_egid := cr_egid current\<rparr>;
               new = (if \<not> b_nosuid bprm \<and> b_mode bprm AND S_ISUID \<noteq> 0
                      then new\<lparr>cr_euid := b_uid bprm\<rparr> else new);
               new = (if \<not> b_nosuid bprm \<and>
                         b_mode bprm AND (S_ISGID OR S_IXGRP) = S_ISGID OR S_IXGRP
                      then new\<lparr>cr_egid := b_gid bprm\<rparr> else new)
           in cap_bprm_set_creds file_caps_enabled audit current bprm new)"

section \<open>The set-id system calls\<close>

text \<open>
  What the calls find in their environment: whether the two allocations succeed, and whether
  the new user is at its process limit. \<open>NONE_ID\<close> is \<^verbatim>\<open>(uid_t) -1\<close>, the id that asks for no
  change. A call returns the credentials it commits.
\<close>

record id_env =
  prepare_ok :: bool
  alloc_uid_ok :: bool
  at_nproc_limit :: bool

definition NONE_ID :: u32 where "NONE_ID = - 1"

definition sys_setregid :: "id_env \<Rightarrow> cred \<Rightarrow> gid_t \<Rightarrow> gid_t \<Rightarrow> cred result" where
  "sys_setregid env old rgid egid =
     (if \<not> prepare_ok env then Inl ENOMEM
      else if rgid \<noteq> NONE_ID \<and>
              \<not> (cr_gid old = rgid \<or> cr_egid old = rgid \<or> nsown_capable old CAP_SETGID) then Inl EPERM
      else if egid \<noteq> NONE_ID \<and>
              \<not> (cr_gid old = egid \<or> cr_egid old = egid \<or> cr_sgid old = egid \<or>
                 nsown_capable old CAP_SETGID) then Inl EPERM
      else let new = (if rgid \<noteq> NONE_ID then old\<lparr>cr_gid := rgid\<rparr> else old);
               new = (if egid \<noteq> NONE_ID then new\<lparr>cr_egid := egid\<rparr> else new);
               new = (if rgid \<noteq> NONE_ID \<or> (egid \<noteq> NONE_ID \<and> egid \<noteq> cr_gid old)
                      then new\<lparr>cr_sgid := cr_egid new\<rparr> else new)
           in Inr (new\<lparr>cr_fsgid := cr_egid new\<rparr>))"

definition sys_setgid :: "id_env \<Rightarrow> cred \<Rightarrow> gid_t \<Rightarrow> cred result" where
  "sys_setgid env old gid =
     (if \<not> prepare_ok env then Inl ENOMEM
      else if nsown_capable old CAP_SETGID
      then Inr (old\<lparr>cr_gid := gid, cr_egid := gid, cr_sgid := gid, cr_fsgid := gid\<rparr>)
      else if gid = cr_gid old \<or> gid = cr_sgid old then Inr (old\<lparr>cr_egid := gid, cr_fsgid := gid\<rparr>)
      else Inl EPERM)"

definition set_user :: "id_env \<Rightarrow> cred \<Rightarrow> cred \<Rightarrow> cred result" where
  "set_user env current new =
     (let new_user = User_struct (cr_uid new) (u_ns (cr_user current)) in
      if \<not> alloc_uid_ok env then Inl EAGAIN
      else if at_nproc_limit env \<and> new_user \<noteq> INIT_USER then Inl EAGAIN
      else Inr (new\<lparr>cr_user := new_user\<rparr>))"

definition sys_setreuid :: "id_env \<Rightarrow> cred \<Rightarrow> u32 \<Rightarrow> u32 \<Rightarrow> cred result" where
  "sys_setreuid env old ruid euid =
     (if \<not> prepare_ok env then Inl ENOMEM
      else if ruid \<noteq> NONE_ID \<and> cr_uid old \<noteq> ruid \<and> cr_euid old \<noteq> ruid \<and> \<not> nsown_capable old CAP_SETUID
      then Inl EPERM
      else if euid \<noteq> NONE_ID \<and> cr_uid old \<noteq> euid \<and> cr_euid old \<noteq> euid \<and> cr_suid old \<noteq> euid \<and>
              \<not> nsown_capable old CAP_SETUID
      then Inl EPERM
      else let new = (if ruid \<noteq> NONE_ID then old\<lparr>cr_uid := ruid\<rparr> else old);
               new = (if euid \<noteq> NONE_ID then new\<lparr>cr_euid := euid\<rparr> else new)
           in case (if cr_uid new \<noteq> cr_uid old then set_user env old new else Inr new) of
                Inl e \<Rightarrow> Inl e
              | Inr new \<Rightarrow>
                  (let new = (if ruid \<noteq> NONE_ID \<or> (euid \<noteq> NONE_ID \<and> euid \<noteq> cr_uid old)
                              then new\<lparr>cr_suid := cr_euid new\<rparr> else new);
                       new = new\<lparr>cr_fsuid := cr_euid new\<rparr>
                   in cap_task_fix_setuid new old LSM_SETID_RE))"

definition sys_setuid :: "id_env \<Rightarrow> cred \<Rightarrow> u32 \<Rightarrow> cred result" where
  "sys_setuid env old uid =
     (if \<not> prepare_ok env then Inl ENOMEM
      else case (if nsown_capable old CAP_SETUID
                 then let new = old\<lparr>cr_suid := uid, cr_uid := uid\<rparr>
                      in if uid \<noteq> cr_uid old then set_user env old new else Inr new
                 else if uid \<noteq> cr_uid old \<and> uid \<noteq> cr_suid old then Inl EPERM
                 else Inr old) of
             Inl e \<Rightarrow> Inl e
           | Inr new \<Rightarrow>
               cap_task_fix_setuid (new\<lparr>cr_fsuid := uid, cr_euid := uid\<rparr>) old LSM_SETID_ID)"

definition sys_setresuid :: "id_env \<Rightarrow> cred \<Rightarrow> u32 \<Rightarrow> u32 \<Rightarrow> u32 \<Rightarrow> cred result" where
  "sys_setresuid env old ruid euid suid =
     (let own = (\<lambda>u. u = cr_uid old \<or> u = cr_euid old \<or> u = cr_suid old) in
      if \<not> prepare_ok env then Inl ENOMEM
      else if \<not> nsown_capable old CAP_SETUID \<and>
              (ruid \<noteq> NONE_ID \<and> \<not> own ruid \<or> euid \<noteq> NONE_ID \<and> \<not> own euid \<or>
               suid \<noteq> NONE_ID \<and> \<not> own suid)
      then Inl EPERM
      else case (if ruid \<noteq> NONE_ID
                 then let new = old\<lparr>cr_uid := ruid\<rparr>
                      in if ruid \<noteq> cr_uid old then set_user env old new else Inr new
                 else Inr old) of
             Inl e \<Rightarrow> Inl e
           | Inr new \<Rightarrow>
               (let new = (if euid \<noteq> NONE_ID then new\<lparr>cr_euid := euid\<rparr> else new);
                    new = (if suid \<noteq> NONE_ID then new\<lparr>cr_suid := suid\<rparr> else new);
                    new = new\<lparr>cr_fsuid := cr_euid new\<rparr>
                in cap_task_fix_setuid new old LSM_SETID_RES))"

definition sys_setresgid :: "id_env \<Rightarrow> cred \<Rightarrow> gid_t \<Rightarrow> gid_t \<Rightarrow> gid_t \<Rightarrow> cred result" where
  "sys_setresgid env old rgid egid sgid =
     (let own = (\<lambda>g. g = cr_gid old \<or> g = cr_egid old \<or> g = cr_sgid old) in
      if \<not> prepare_ok env then Inl ENOMEM
      else if \<not> nsown_capable old CAP_SETGID \<and>
              (rgid \<noteq> NONE_ID \<and> \<not> own rgid \<or> egid \<noteq> NONE_ID \<and> \<not> own egid \<or>
               sgid \<noteq> NONE_ID \<and> \<not> own sgid)
      then Inl EPERM
      else let new = (if rgid \<noteq> NONE_ID then old\<lparr>cr_gid := rgid\<rparr> else old);
               new = (if egid \<noteq> NONE_ID then new\<lparr>cr_egid := egid\<rparr> else new);
               new = (if sgid \<noteq> NONE_ID then new\<lparr>cr_sgid := sgid\<rparr> else new)
           in Inr (new\<lparr>cr_fsgid := cr_egid new\<rparr>))"

text \<open>These two return the previous id in every case.\<close>

definition sys_setfsuid :: "id_env \<Rightarrow> cred \<Rightarrow> u32 \<Rightarrow> u32 \<times> cred" where
  "sys_setfsuid env old uid =
     (if \<not> prepare_ok env then (cr_fsuid old, old)
      else if (uid = cr_uid old \<or> uid = cr_euid old \<or> uid = cr_suid old \<or> uid = cr_fsuid old \<or>
               nsown_capable old CAP_SETUID) \<and> uid \<noteq> cr_fsuid old
      then case cap_task_fix_setuid (old\<lparr>cr_fsuid := uid\<rparr>) old LSM_SETID_FS of
             Inl e \<Rightarrow> (cr_fsuid old, old)
           | Inr new \<Rightarrow> (cr_fsuid old, new)
      else (cr_fsuid old, old))"

definition sys_setfsgid :: "id_env \<Rightarrow> cred \<Rightarrow> gid_t \<Rightarrow> gid_t \<times> cred" where
  "sys_setfsgid env old gid =
     (if \<not> prepare_ok env then (cr_fsgid old, old)
      else if (gid = cr_gid old \<or> gid = cr_egid old \<or> gid = cr_sgid old \<or> gid = cr_fsgid old \<or>
               nsown_capable old CAP_SETGID) \<and> gid \<noteq> cr_fsgid old
      then (cr_fsgid old, old\<lparr>cr_fsgid := gid\<rparr>)
      else (cr_fsgid old, old))"

section \<open>A task changing its credentials\<close>

text \<open>One successful call that does not execute a new program; and one that does.\<close>

inductive id_step :: "cred \<Rightarrow> cred \<Rightarrow> bool" where
  setregid: "sys_setregid env c rgid egid = Inr c' \<Longrightarrow> id_step c c'"
| setgid: "sys_setgid env c gid = Inr c' \<Longrightarrow> id_step c c'"
| setreuid: "sys_setreuid env c ruid euid = Inr c' \<Longrightarrow> id_step c c'"
| setuid: "sys_setuid env c uid = Inr c' \<Longrightarrow> id_step c c'"
| setresuid: "sys_setresuid env c ruid euid suid = Inr c' \<Longrightarrow> id_step c c'"
| setresgid: "sys_setresgid env c rgid egid sgid = Inr c' \<Longrightarrow> id_step c c'"
| setfsuid: "sys_setfsuid env c uid = (old, c') \<Longrightarrow> id_step c c'"
| setfsgid: "sys_setfsgid env c gid = (old, c') \<Longrightarrow> id_step c c'"
| setgroups: "sys_setgroups (nsown_capable c CAP_SETGID) small page ok umem c n = Inr c' \<Longrightarrow> id_step c c'"
| capset: "cap_capset c c e i p = Inr c' \<Longrightarrow> id_step c c'"
| prctl: "cap_task_prctl ok c opt arg2 = Inr (r, Some c') \<Longrightarrow> id_step c c'"

inductive exec_step :: "cred \<Rightarrow> cred \<Rightarrow> bool" where
  exec: "prepare_binprm file_caps audit c bprm c = Inr (c', eff) \<Longrightarrow> exec_step c c'"

inductive reachable_cred :: "cred \<Rightarrow> bool" where
  init: "reachable_cred init_cred"
| id: "reachable_cred c \<Longrightarrow> id_step c c' \<Longrightarrow> reachable_cred c'"
| exec: "reachable_cred c \<Longrightarrow> exec_step c c' \<Longrightarrow> reachable_cred c'"

inductive_cases exec_stepE: "exec_step c c'"

section \<open>Own-namespace checks read the effective set\<close>

lemma ns_not_own_creator: "u \<noteq> User_struct uid (User_ns u)"
proof
  assume "u = User_struct uid (User_ns u)"
  then have "size u = size (User_struct uid (User_ns u))" by simp
  then show False by simp
qed

lemma nsown_capable_iff:
  assumes "cap \<noteq> CAP_NET_RAW" "cap \<noteq> CAP_NET_ADMIN"
  shows "nsown_capable c cap \<longleftrightarrow> cap_raised (cr_cap_effective c) cap"
proof (cases "u_ns (cr_user c)")
  case (User_ns u)
  obtain uid ns where u: "u = User_struct uid ns" by (cases u)
  have "u \<noteq> cr_user c" using User_ns ns_not_own_creator by (cases "cr_user c") auto
  with assms User_ns u show ?thesis
    by (simp add: nsown_capable_def ns_capable_def cap_capable_def)
qed (use assms in \<open>simp add: nsown_capable_def ns_capable_def cap_capable_def\<close>)

lemma setuid_setgid_setpcap_not_net:
  "CAP_SETUID \<noteq> CAP_NET_RAW" "CAP_SETUID \<noteq> CAP_NET_ADMIN" "CAP_SETGID \<noteq> CAP_NET_RAW"
  "CAP_SETGID \<noteq> CAP_NET_ADMIN" "CAP_SETPCAP \<noteq> CAP_NET_RAW" "CAP_SETPCAP \<noteq> CAP_NET_ADMIN"
  by (simp_all add: cap_numbers)

lemmas nsown_raised = nsown_capable_iff [OF setuid_setgid_setpcap_not_net(1,2)]
  nsown_capable_iff [OF setuid_setgid_setpcap_not_net(3,4)]

lemma not_raised_clear: "cap_isclear c \<Longrightarrow> \<not> cap_raised c cap"
  by (simp add: cap_isclear_def cap_raised_def cap_word_def)

section \<open>What one call can do to the capability sets\<close>

text \<open>
  The frame of every call except execution: nothing is added to the permitted or to the
  bounding set, and an effective set within the permitted set stays so.
\<close>

definition cap_frame :: "cred \<Rightarrow> cred \<Rightarrow> bool" where
  "cap_frame c c' \<longleftrightarrow> cap_issubset (cr_cap_permitted c') (cr_cap_permitted c) \<and>
     cap_issubset (cr_cap_bset c') (cr_cap_bset c) \<and>
     (cap_issubset (cr_cap_effective c) (cr_cap_permitted c) \<longrightarrow>
      cap_issubset (cr_cap_effective c') (cr_cap_permitted c'))"

definition same_caps :: "cred \<Rightarrow> cred \<Rightarrow> bool" where
  "same_caps c c' \<longleftrightarrow> cr_cap_permitted c' = cr_cap_permitted c \<and>
     cr_cap_effective c' = cr_cap_effective c \<and> cr_cap_bset c' = cr_cap_bset c"

lemma same_caps_frame: "same_caps c c' \<Longrightarrow> cap_frame c c'"
  by (simp add: same_caps_def cap_frame_def caps.subset_refl)

lemma cap_frame_refl: "cap_frame c c"
  by (simp add: cap_frame_def caps.subset_refl)

lemma cap_frame_trans: "cap_frame a b \<Longrightarrow> cap_frame b c \<Longrightarrow> cap_frame a c"
  unfolding cap_frame_def using caps.subset_trans by blast

lemma cap_emulate_setxuid_frame: "cap_frame new (cap_emulate_setxuid new old)"
  by (auto simp: cap_frame_def cap_emulate_setxuid_def Let_def caps.subset_refl caps.clear_subset)

lemma cap_fix_fsuid_frame: "cap_task_fix_setuid new old LSM_SETID_FS = Inr new' \<Longrightarrow> cap_frame new new'"
  by (auto simp: Let_def cap_frame_def caps.subset_refl cap_drop_fs_set_def cap_raise_fs_set_def
      caps.drop_subset caps.raise_subset split: if_splits)

lemma cap_task_fix_setuid_frame: "cap_task_fix_setuid new old f = Inr new' \<Longrightarrow> cap_frame new new'"
  by (cases f)
    (auto simp: cap_emulate_setxuid_frame cap_frame_refl cap_fix_fsuid_frame
      simp del: cap_task_fix_setuid.simps(1) split: if_splits)

lemma fix_setuid_from:
  assumes "cap_task_fix_setuid new old f = Inr c'" "same_caps old new"
  shows "cap_frame old c'"
  using cap_frame_trans [OF same_caps_frame [OF assms(2)] cap_task_fix_setuid_frame [OF assms(1)]] .

lemma set_user_Inr:
  "set_user env old new = Inr new' \<Longrightarrow> new' = new\<lparr>cr_user := User_struct (cr_uid new) (u_ns (cr_user old))\<rparr>"
  by (auto simp: set_user_def Let_def split: if_splits)

lemma setreuid_frame: "sys_setreuid env c ruid euid = Inr c' \<Longrightarrow> cap_frame c c'"
  unfolding sys_setreuid_def Let_def
  by (auto split: if_splits sum.splits dest!: set_user_Inr elim!: fix_setuid_from simp: same_caps_def
      simp del: cap_task_fix_setuid.simps)

lemma setuid_frame: "sys_setuid env c uid = Inr c' \<Longrightarrow> cap_frame c c'"
  unfolding sys_setuid_def Let_def
  by (auto split: if_splits sum.splits dest!: set_user_Inr elim!: fix_setuid_from simp: same_caps_def
      simp del: cap_task_fix_setuid.simps)

lemma setresuid_frame: "sys_setresuid env c ruid euid suid = Inr c' \<Longrightarrow> cap_frame c c'"
  unfolding sys_setresuid_def Let_def
  by (auto split: if_splits sum.splits dest!: set_user_Inr elim!: fix_setuid_from simp: same_caps_def
      simp del: cap_task_fix_setuid.simps)

lemma setfsuid_frame: "sys_setfsuid env c uid = (r, c') \<Longrightarrow> cap_frame c c'"
  unfolding sys_setfsuid_def
  by (auto split: if_splits sum.splits elim!: fix_setuid_from simp: same_caps_def cap_frame_refl
      simp del: cap_task_fix_setuid.simps)

lemma gid_calls_same:
  "sys_setregid env c rgid egid = Inr c' \<Longrightarrow> same_caps c c'"
  "sys_setgid env c gid = Inr c' \<Longrightarrow> same_caps c c'"
  "sys_setresgid env c rgid egid sgid = Inr c' \<Longrightarrow> same_caps c c'"
  "sys_setfsgid env c gid = (r, c') \<Longrightarrow> same_caps c c'"
  "sys_setgroups cap small page ok umem c n = Inr c' \<Longrightarrow> same_caps c c'"
  by (auto simp: sys_setregid_def sys_setgid_def sys_setresgid_def sys_setfsgid_def sys_setgroups_def
      set_current_groups_def set_groups_def Let_def same_caps_def split: if_splits option.splits)

lemma capset_frame: "cap_capset c c e i p = Inr c' \<Longrightarrow> cap_frame c c'"
  by (auto simp: cap_capset_def cap_frame_def caps.subset_refl split: if_splits)

lemma prctl_frame: "cap_task_prctl ok c opt arg2 = Inr (r, Some c') \<Longrightarrow> cap_frame c c'"
  by (cases opt)
    (auto simp: cap_prctl_drop_def cap_frame_def caps.subset_refl cap_issubset_iff caps_of_lower
      cap_valid_def CAP_LAST_CAP_def split: if_splits sum.splits)

lemma id_step_frame: "id_step c c' \<Longrightarrow> cap_frame c c'"
  by (induction rule: id_step.induct)
    (blast intro: same_caps_frame gid_calls_same setreuid_frame setuid_frame setresuid_frame
      setfsuid_frame capset_frame prctl_frame)+

lemma id_steps_frame: "id_step\<^sup>*\<^sup>* c c' \<Longrightarrow> cap_frame c c'"
  by (induction rule: rtranclp_induct) (blast intro: cap_frame_refl cap_frame_trans id_step_frame)+

section \<open>Execution\<close>

lemma get_file_caps_bound:
  assumes "get_file_caps fc bprm new eff = (new', eff', err)"
  shows "cap_issubset (cr_cap_permitted new') (cap_combine (cr_cap_bset new) (cr_cap_inheritable new))"
    and "new' = new\<lparr>cr_cap_permitted := cr_cap_permitted new'\<rparr>"
  using assms
  by (auto simp: get_file_caps_def Let_def bprm_clear_caps_def bprm_caps_from_vfs_caps_def
      caps.clear_subset cap_issubset_iff caps_of_combine caps_of_intersect caps_of_empty
      split: if_splits sum.splits prod.splits option.splits)

lemma bprm_root_caps_bound:
  assumes "bprm_root_caps old new eff = (new', eff')"
    and "cap_issubset (cr_cap_permitted new) (cap_combine (cr_cap_bset old) (cr_cap_inheritable old))"
  shows "cap_issubset (cr_cap_permitted new') (cap_combine (cr_cap_bset old) (cr_cap_inheritable old))"
    and "new' = new\<lparr>cr_cap_permitted := cr_cap_permitted new'\<rparr>"
  using assms by (auto simp: bprm_root_caps_def caps.subset_refl split: if_splits)

lemma bprm_downgrade_bound:
  "cap_issubset (cr_cap_permitted (bprm_downgrade bprm old new)) (cr_cap_permitted new)"
  "cr_cap_bset (bprm_downgrade bprm old new) = cr_cap_bset new"
  "cr_securebits (bprm_downgrade bprm old new) = cr_securebits new"
  by (auto simp: bprm_downgrade_def Let_def caps.subset_refl caps.intersect_subset)

lemma cap_bprm_bound:
  assumes "cap_bprm_set_creds fc audit old bprm new = Inr (new', eff)"
    and "cr_cap_bset new = cr_cap_bset old" "cr_cap_inheritable new = cr_cap_inheritable old"
  shows "cap_issubset (cr_cap_permitted new') (cap_combine (cr_cap_bset old) (cr_cap_inheritable old))"
    and "cap_issubset (cr_cap_effective new') (cr_cap_permitted new')"
    and "cr_cap_bset new' = cr_cap_bset old"
proof -
  obtain new1 eff1 where fc: "get_file_caps fc bprm new False = (new1, eff1, None)"
    using assms(1) by (auto simp: cap_bprm_set_creds_def split: prod.splits option.splits)
  obtain new2 eff2 where rc: "bprm_root_caps old new1 eff1 = (new2, eff2)" by force
  let ?new3 = "bprm_downgrade bprm old new2"
  have new': "cr_cap_permitted new' = cr_cap_permitted ?new3" "cr_cap_bset new' = cr_cap_bset ?new3"
    "cr_cap_effective new' = (if eff2 then cr_cap_permitted ?new3 else cap_empty_set)"
    using assms(1) fc rc
    by (auto simp: cap_bprm_set_creds_def Let_def split: if_splits sum.splits)
  note b1 = get_file_caps_bound [OF fc]
  have b1': "cap_issubset (cr_cap_permitted new1) (cap_combine (cr_cap_bset old) (cr_cap_inheritable old))"
    using b1(1) assms(2,3) by simp
  note b2 = bprm_root_caps_bound [OF rc b1']
  show "cap_issubset (cr_cap_permitted new') (cap_combine (cr_cap_bset old) (cr_cap_inheritable old))"
    using caps.subset_trans [OF bprm_downgrade_bound(1) b2(1)] new'(1) by simp
  show "cap_issubset (cr_cap_effective new') (cr_cap_permitted new')"
    using new' by (simp add: caps.subset_refl caps.clear_subset)
  have "cr_cap_bset new2 = cr_cap_bset new1" "cr_cap_bset new1 = cr_cap_bset new"
    using arg_cong [OF b2(2), of cr_cap_bset] arg_cong [OF b1(2), of cr_cap_bset] by simp_all
  then show "cr_cap_bset new' = cr_cap_bset old"
    using new'(2) bprm_downgrade_bound(2) assms(2) by simp
qed

lemma exec_step_bound:
  assumes "exec_step c c'"
  shows "cap_issubset (cr_cap_permitted c') (cap_combine (cr_cap_bset c) (cr_cap_inheritable c))"
    and "cap_issubset (cr_cap_effective c') (cr_cap_permitted c')"
    and "cr_cap_bset c' = cr_cap_bset c"
proof -
  obtain fc audit bprm new eff where
    "cap_bprm_set_creds fc audit c bprm new = Inr (c', eff)"
    "cr_cap_bset new = cr_cap_bset c" "cr_cap_inheritable new = cr_cap_inheritable c"
    using assms by (fastforce elim!: exec_stepE simp: prepare_binprm_def Let_def split: if_splits)
  from cap_bprm_bound [OF this] show
    "cap_issubset (cr_cap_permitted c') (cap_combine (cr_cap_bset c) (cr_cap_inheritable c))"
    "cap_issubset (cr_cap_effective c') (cr_cap_permitted c')"
    "cr_cap_bset c' = cr_cap_bset c" .
qed

lemma reachable_effective_permitted:
  "reachable_cred c \<Longrightarrow> cap_issubset (cr_cap_effective c) (cr_cap_permitted c)"
proof (induction rule: reachable_cred.induct)
  case init
  then show ?case by (simp add: init_cred_def caps.subset_refl)
next
  case (id c c')
  then show ?case using id_step_frame by (auto simp: cap_frame_def)
next
  case (exec c c')
  then show ?case using exec_step_bound by blast
qed

section \<open>A task without privilege\<close>

definition uids :: "cred \<Rightarrow> u32 set" where
  "uids c = {cr_uid c, cr_euid c, cr_suid c, cr_fsuid c}"

text \<open>All four uids are the same user's, and no capability is permitted or in effect.\<close>

definition unprivileged :: "u32 \<Rightarrow> cred \<Rightarrow> bool" where
  "unprivileged u c \<longleftrightarrow> uids c = {u} \<and> cap_isclear (cr_cap_permitted c) \<and> cap_isclear (cr_cap_effective c)"

lemma subset_clear: "cap_issubset a b \<Longrightarrow> cap_isclear b \<Longrightarrow> cap_isclear a"
  by (auto simp: cap_issubset_iff caps_of_eq_empty [symmetric])

lemma clear_subset_of: "cap_isclear a \<Longrightarrow> cap_issubset a b"
  by (auto simp: cap_issubset_iff caps_of_eq_empty [symmetric])

lemma fix_setuid_ids:
  "cap_task_fix_setuid new old f = Inr new' \<Longrightarrow> cr_uid new' = cr_uid new \<and> cr_euid new' = cr_euid new \<and>
     cr_suid new' = cr_suid new \<and> cr_fsuid new' = cr_fsuid new \<and> cr_securebits new' = cr_securebits new"
  by (cases f) (auto simp: Let_def cap_emulate_setxuid_def split: if_splits)

lemma unprivileged_no_setuid: "unprivileged u c \<Longrightarrow> \<not> nsown_capable c CAP_SETUID"
  by (simp add: unprivileged_def nsown_raised not_raised_clear)

lemma uid_calls_keep:
  assumes "uids c = {u}" "\<not> nsown_capable c CAP_SETUID"
  shows "sys_setreuid env c ruid euid = Inr c' \<Longrightarrow> uids c' = {u}"
    and "sys_setuid env c uid = Inr c' \<Longrightarrow> uids c' = {u}"
    and "sys_setresuid env c ruid euid suid = Inr c' \<Longrightarrow> uids c' = {u}"
    and "sys_setfsuid env c uid = (r, c') \<Longrightarrow> uids c' = {u}"
proof -
  have eq: "cr_uid c = u" "cr_euid c = u" "cr_suid c = u" "cr_fsuid c = u"
    using assms(1) by (auto simp: uids_def)
  show "sys_setreuid env c ruid euid = Inr c' \<Longrightarrow> uids c' = {u}"
    unfolding sys_setreuid_def Let_def
    by (auto split: if_splits sum.splits dest!: set_user_Inr fix_setuid_ids
        simp: assms(2) eq uids_def simp del: cap_task_fix_setuid.simps)
  show "sys_setuid env c uid = Inr c' \<Longrightarrow> uids c' = {u}"
    unfolding sys_setuid_def Let_def
    by (auto split: if_splits sum.splits dest!: set_user_Inr fix_setuid_ids
        simp: assms(2) eq uids_def simp del: cap_task_fix_setuid.simps)
  show "sys_setresuid env c ruid euid suid = Inr c' \<Longrightarrow> uids c' = {u}"
    unfolding sys_setresuid_def Let_def
    by (auto split: if_splits sum.splits dest!: set_user_Inr fix_setuid_ids
        simp: assms(2) eq uids_def simp del: cap_task_fix_setuid.simps)
  show "sys_setfsuid env c uid = (r, c') \<Longrightarrow> uids c' = {u}"
    using assms(1) unfolding sys_setfsuid_def
    by (auto split: if_splits sum.splits dest!: fix_setuid_ids
        simp: assms(2) uids_def simp del: cap_task_fix_setuid.simps)
qed

definition same_uids :: "cred \<Rightarrow> cred \<Rightarrow> bool" where
  "same_uids c c' \<longleftrightarrow> cr_uid c' = cr_uid c \<and> cr_euid c' = cr_euid c \<and> cr_suid c' = cr_suid c \<and>
     cr_fsuid c' = cr_fsuid c"

lemma same_uids_uids: "same_uids c c' \<Longrightarrow> uids c' = uids c"
  by (simp add: same_uids_def uids_def)

lemma gid_calls_shape:
  "sys_setregid env c rgid egid = Inr c' \<Longrightarrow> \<exists>g e s f. c' = c\<lparr>cr_gid := g, cr_egid := e, cr_sgid := s, cr_fsgid := f\<rparr>"
  "sys_setgid env c gid = Inr c' \<Longrightarrow> \<exists>g e s f. c' = c\<lparr>cr_gid := g, cr_egid := e, cr_sgid := s, cr_fsgid := f\<rparr>"
  "sys_setresgid env c rgid egid sgid = Inr c' \<Longrightarrow>
   \<exists>g e s f. c' = c\<lparr>cr_gid := g, cr_egid := e, cr_sgid := s, cr_fsgid := f\<rparr>"
  "sys_setfsgid env c gid = (r, c') \<Longrightarrow> \<exists>g e s f. c' = c\<lparr>cr_gid := g, cr_egid := e, cr_sgid := s, cr_fsgid := f\<rparr>"
     apply (cases c, auto simp: sys_setregid_def Let_def split: if_splits)[1]
    apply (cases c, auto simp: sys_setgid_def split: if_splits)[1]
   apply (cases c, auto simp: sys_setresgid_def Let_def split: if_splits)[1]
  apply (cases c, auto simp: sys_setfsgid_def split: if_splits)[1]
  done

lemma setgroups_shape: "sys_setgroups cap small page ok umem c n = Inr c' \<Longrightarrow> \<exists>gi. c' = c\<lparr>cr_group_info := gi\<rparr>"
  by (auto simp: sys_setgroups_def set_current_groups_def set_groups_def split: if_splits option.splits)

lemma capset_shape:
  "cap_capset c c e i p = Inr c' \<Longrightarrow>
   c' = c\<lparr>cr_cap_effective := e, cr_cap_inheritable := i, cr_cap_permitted := p\<rparr>"
  by (auto simp: cap_capset_def split: if_splits)

lemma other_calls_keep:
  "sys_setregid env c rgid egid = Inr c' \<Longrightarrow> same_uids c c' \<and> cr_securebits c' = cr_securebits c"
  "sys_setgid env c gid = Inr c' \<Longrightarrow> same_uids c c' \<and> cr_securebits c' = cr_securebits c"
  "sys_setresgid env c rgid egid sgid = Inr c' \<Longrightarrow> same_uids c c' \<and> cr_securebits c' = cr_securebits c"
  "sys_setfsgid env c gid = (r, c') \<Longrightarrow> same_uids c c' \<and> cr_securebits c' = cr_securebits c"
  "sys_setgroups cap small page ok umem c n = Inr c' \<Longrightarrow> same_uids c c' \<and> cr_securebits c' = cr_securebits c"
  "cap_capset c c e i p = Inr c' \<Longrightarrow> same_uids c c' \<and> cr_securebits c' = cr_securebits c"
  by (force simp: same_uids_def dest: gid_calls_shape setgroups_shape capset_shape)+

lemmas other_calls_uids = other_calls_keep [THEN conjunct1, THEN same_uids_uids]
lemmas other_calls_securebits = other_calls_keep [THEN conjunct2]

lemma prctl_uids: "cap_task_prctl ok c opt arg2 = Inr (r, Some c') \<Longrightarrow> uids c' = uids c"
  by (rule same_uids_uids, cases opt)
    (auto simp: cap_prctl_drop_def same_uids_def split: if_splits sum.splits)

lemma unprivileged_step:
  assumes "id_step c c'" "unprivileged u c"
  shows "unprivileged u c'"
proof -
  have u: "uids c = {u}" and ns: "\<not> nsown_capable c CAP_SETUID"
    using assms(2) unprivileged_no_setuid by (auto simp: unprivileged_def)
  from assms(1) have "uids c' = {u}"
    by cases (use u in \<open>simp_all add: uid_calls_keep [OF u ns] other_calls_uids prctl_uids\<close>)
  moreover have "cap_frame c c'" by (rule id_step_frame [OF assms(1)])
  ultimately show ?thesis
    using assms(2) by (auto simp: unprivileged_def cap_frame_def clear_subset_of intro: subset_clear)
qed

lemma unprivileged_steps: "id_step\<^sup>*\<^sup>* c c' \<Longrightarrow> unprivileged u c \<Longrightarrow> unprivileged u c'"
  by (induction rule: rtranclp_induct) (blast intro: unprivileged_step)+

lemma cap_empty_isclear [simp]: "cap_isclear cap_empty_set"
  by (simp add: cap_isclear_def cap_empty_set_def)

lemma setuid_drops:
  assumes "sys_setuid env c u = Inr c'" "u \<noteq> 0" "nsown_capable c CAP_SETUID"
    and "0 \<in> {cr_uid c, cr_euid c, cr_suid c}"
    and "\<not> issecure c SECURE_KEEP_CAPS" "\<not> issecure c SECURE_NO_SETUID_FIXUP"
  shows "unprivileged u c'"
proof -
  obtain new where "cap_task_fix_setuid (new\<lparr>cr_fsuid := u, cr_euid := u\<rparr>) c LSM_SETID_ID = Inr c'"
    "cr_uid new = u" "cr_suid new = u"
    using assms(1,3)
    by (auto simp: sys_setuid_def Let_def split: if_splits sum.splits dest!: set_user_Inr
        simp del: cap_task_fix_setuid.simps)
  with assms(2,4-6) show ?thesis
    by (auto simp: unprivileged_def uids_def cap_emulate_setxuid_def Let_def split: if_splits)
qed

section \<open>Securebits locks\<close>

lemma locks_bits: "bit SECURE_ALL_LOCKS n \<longleftrightarrow> n = 1 \<or> n = 3 \<or> n = 5"
  by (simp only: SECURE_ALL_LOCKS_def SECURE_ALL_BITS_def issecure_mask_def secure_numbers
      bit_push_bit_iff bit_or_iff bit_1_iff) auto

lemma issecure_bit: "k < 32 \<Longrightarrow> issecure c k \<longleftrightarrow> bit (cr_securebits c) k"
  by (metis and.commute and_exp_eq_0_iff_not_bit issecure_def issecure_mask_def push_bit_of_1)

definition locks_kept :: "u32 \<Rightarrow> u32 \<Rightarrow> bool" where
  "locks_kept sb sb' \<longleftrightarrow> (\<forall>b \<in> {SECURE_NOROOT, SECURE_NO_SETUID_FIXUP, SECURE_KEEP_CAPS}.
     bit sb (b + 1) \<longrightarrow> bit sb' (b + 1) \<and> (bit sb' b \<longleftrightarrow> bit sb b))"

lemma set_securebits_locks:
  assumes "drop_bit 1 (sb AND SECURE_ALL_LOCKS) AND (sb XOR arg) = 0" "sb AND SECURE_ALL_LOCKS AND NOT arg = 0"
  shows "locks_kept sb arg"
proof -
  have 1: "bit sb (n + 1) \<Longrightarrow> n = 0 \<or> n = 2 \<or> n = 4 \<Longrightarrow> bit arg n = bit sb n" for n
    using arg_cong [OF assms(1), of "\<lambda>w. bit w n"] by (auto simp: bit_simps locks_bits)
  have 2: "bit sb n \<Longrightarrow> n = 1 \<or> n = 3 \<or> n = 5 \<Longrightarrow> bit arg n" for n
    using arg_cong [OF assms(2), of "\<lambda>w. bit w n"] by (auto simp: bit_simps locks_bits)
  show ?thesis
    using 1 [of 0] 1 [of 2] 1 [of 4] 2 [of 1] 2 [of 3] 2 [of 5]
    by (auto simp: locks_kept_def secure_numbers)
qed

lemma prctl_locks:
  assumes "cap_task_prctl ok c opt arg2 = Inr (r, Some c')"
  shows "locks_kept (cr_securebits c) (cr_securebits c')"
proof (cases opt)
  case PR_SET_SECUREBITS
  with assms have "drop_bit 1 (cr_securebits c AND SECURE_ALL_LOCKS) AND (cr_securebits c XOR arg2) = 0"
    "cr_securebits c AND SECURE_ALL_LOCKS AND NOT arg2 = 0" "cr_securebits c' = arg2"
    by (auto split: if_splits)
  then show ?thesis using set_securebits_locks by simp
next
  case PR_SET_KEEPCAPS
  with assms have "\<not> issecure c SECURE_KEEP_CAPS_LOCKED"
    "cr_securebits c' = cr_securebits c OR issecure_mask SECURE_KEEP_CAPS \<or>
     cr_securebits c' = cr_securebits c AND NOT (issecure_mask SECURE_KEEP_CAPS)"
    by (auto split: if_splits)
  then show ?thesis
    by (auto simp: locks_kept_def secure_numbers issecure_bit issecure_mask_def bit_simps)
qed (use assms in \<open>auto simp: cap_prctl_drop_def locks_kept_def split: if_splits sum.splits\<close>)

lemma calls_securebits:
  "sys_setreuid env c ruid euid = Inr c' \<Longrightarrow> cr_securebits c' = cr_securebits c"
  "sys_setuid env c uid = Inr c' \<Longrightarrow> cr_securebits c' = cr_securebits c"
  "sys_setresuid env c ruid euid suid = Inr c' \<Longrightarrow> cr_securebits c' = cr_securebits c"
  "sys_setfsuid env c uid = (r, c') \<Longrightarrow> cr_securebits c' = cr_securebits c"
  unfolding sys_setreuid_def sys_setuid_def sys_setresuid_def sys_setfsuid_def Let_def
  by (auto split: if_splits sum.splits dest!: set_user_Inr fix_setuid_ids
      simp del: cap_task_fix_setuid.simps)

lemma id_step_locks:
  assumes "id_step c c'"
  shows "locks_kept (cr_securebits c) (cr_securebits c')"
proof -
  have refl: "cr_securebits c' = cr_securebits c \<Longrightarrow> ?thesis" by (simp add: locks_kept_def)
  from assms show ?thesis
    by cases (blast intro: refl calls_securebits other_calls_securebits prctl_locks)+
qed

lemma locks_kept_trans: "locks_kept a b \<Longrightarrow> locks_kept b c \<Longrightarrow> locks_kept a c"
  by (auto simp: locks_kept_def)

lemma id_steps_locks: "id_step\<^sup>*\<^sup>* c c' \<Longrightarrow> locks_kept (cr_securebits c) (cr_securebits c')"
  by (induction rule: rtranclp_induct) (auto simp: locks_kept_def dest!: id_step_locks)

section \<open>Properties\<close>

text \<open>C10: a task that starts as the first one and then makes any sequence of id, capability and
  exec calls never has an effective capability outside its permitted set.\<close>

theorem effective_within_permitted:
  "reachable_cred c \<Longrightarrow> cap_issubset (cr_cap_effective c) (cr_cap_permitted c)"
  by (rule reachable_effective_permitted)

definition ok_env :: id_env where
  "ok_env = \<lparr>prepare_ok = True, alloc_uid_ok = True, at_nproc_limit = False\<rparr>"

definition user_cred :: cred where
  "user_cred = init_cred\<lparr>cr_uid := 1000, cr_euid := 1000, cr_suid := 1000, cr_fsuid := 1000,
     cr_cap_permitted := cap_empty_set, cr_cap_effective := cap_empty_set,
     cr_user := User_struct 1000 Init_user_ns\<rparr>"

lemma init_nsown: "nsown_capable init_cred CAP_SETUID"
  unfolding nsown_raised by (simp add: cap_raised_iff init_cred_def CAP_FULL_SET_def CAP_SETUID_def bit_simps)

lemma setuid_from_init: "sys_setuid ok_env init_cred 1000 = Inr user_cred"
proof -
  have "set_user ok_env init_cred (init_cred\<lparr>cr_suid := 1000, cr_uid := 1000\<rparr>) =
      Inr (init_cred\<lparr>cr_suid := 1000, cr_uid := 1000, cr_user := User_struct 1000 Init_user_ns\<rparr>)"
    by (simp add: set_user_def ok_env_def init_cred_def INIT_USER_def)
  moreover have "\<not> issecure init_cred SECURE_KEEP_CAPS" "\<not> issecure init_cred SECURE_NO_SETUID_FIXUP"
    by (simp_all add: issecure_def init_cred_def)
  ultimately show ?thesis
    by (simp add: sys_setuid_def init_nsown user_cred_def)
      (simp add: init_cred_def ok_env_def cap_emulate_setxuid_def)
qed

theorem effective_within_permitted_witness:
  "cap_issubset (cr_cap_effective user_cred) (cr_cap_permitted user_cred)"
proof (rule effective_within_permitted)
  have "id_step init_cred user_cred" by (rule id_step.setuid [OF setuid_from_init])
  with reachable_cred.init show "reachable_cred user_cred" by (rule reachable_cred.id)
qed

text \<open>C6: when a task with \<^verbatim>\<open>CAP_SETUID\<close> and a zero real, effective or saved uid, and with neither
  \<^verbatim>\<open>SECURE_KEEP_CAPS\<close> nor \<^verbatim>\<open>SECURE_NO_SETUID_FIXUP\<close> set, calls \<^verbatim>\<open>setuid\<close> for a user other than root,
  all its uids become that user's and it loses every capability; and no sequence of further calls
  short of executing a program gives it another uid or any capability back.\<close>

theorem setuid_drop_is_permanent:
  assumes "sys_setuid env c u = Inr c'" "u \<noteq> 0" "nsown_capable c CAP_SETUID"
    and "0 \<in> {cr_uid c, cr_euid c, cr_suid c}"
    and "\<not> issecure c SECURE_KEEP_CAPS" "\<not> issecure c SECURE_NO_SETUID_FIXUP"
    and "id_step\<^sup>*\<^sup>* c' c''"
  shows "unprivileged u c''"
  using unprivileged_steps [OF assms(7) setuid_drops [OF assms(1-6)]] .

theorem setuid_drop_is_permanent_witness: "unprivileged 1000 user_cred"
  by (rule setuid_drop_is_permanent [OF setuid_from_init _ init_nsown])
    (simp_all add: init_cred_def issecure_def)

text \<open>no sequence of calls without an exec adds to the permitted or to the bounding set.\<close>

theorem no_gain_without_exec:
  "id_step\<^sup>*\<^sup>* c c' \<Longrightarrow> cap_issubset (cr_cap_permitted c') (cr_cap_permitted c) \<and>
     cap_issubset (cr_cap_bset c') (cr_cap_bset c)"
  using id_steps_frame by (auto simp: cap_frame_def)

theorem no_gain_without_exec_witness:
  "cap_issubset (cr_cap_permitted user_cred) (cr_cap_permitted init_cred) \<and>
   cap_issubset (cr_cap_bset user_cred) (cr_cap_bset init_cred)"
  by (rule no_gain_without_exec) (blast intro: id_step.setuid setuid_from_init)

text \<open>C21: whatever file is executed, whatever its mode bits and file capabilities, the new
  permitted set stays within the bounding and the inheritable set, and the bounding set stays.\<close>

theorem exec_gain_bounded:
  assumes "exec_step c c'"
  shows "cap_issubset (cr_cap_permitted c') (cap_combine (cr_cap_bset c) (cr_cap_inheritable c)) \<and>
    cr_cap_bset c' = cr_cap_bset c"
  using exec_step_bound [OF assms] by blast

definition suid_root_file :: linux_binprm where
  "suid_root_file = \<lparr>b_nosuid = False, b_mode = 0x9ED, b_uid = 0, b_gid = 0, b_getxattr = None,
     b_unsafe = 0, b_has_fop = True\<rparr>"

lemma exec_suid_root:
  "\<exists>c'. exec_step user_cred c' \<and> cr_euid c' = 0 \<and> cr_cap_permitted c' = CAP_FULL_SET"
proof -
  let ?new = "user_cred\<lparr>cr_euid := 0, cr_cap_permitted := cap_empty_set\<rparr>"
  have new: "prepare_binprm True (Inr ()) user_cred suid_root_file user_cred =
      cap_bprm_set_creds True (Inr ()) user_cred suid_root_file (user_cred\<lparr>cr_euid := 0\<rparr>)"
    by (simp add: prepare_binprm_def suid_root_file_def S_ISUID_def S_ISGID_def S_IXGRP_def user_cred_def init_cred_def)
  have fc: "get_file_caps True suid_root_file (user_cred\<lparr>cr_euid := 0\<rparr>) False = (?new, False, None)"
    by (simp add: get_file_caps_def suid_root_file_def bprm_clear_caps_def get_vfs_caps_from_disk_def)
  have "cap_combine CAP_FULL_SET cap_empty_set = CAP_FULL_SET"
    by (simp add: cap_combine_def CAP_FULL_SET_def cap_empty_set_def)
  then have rc: "bprm_root_caps user_cred ?new False = (?new\<lparr>cr_cap_permitted := CAP_FULL_SET\<rparr>, True)"
    by (simp add: bprm_root_caps_def issecure_def user_cred_def init_cred_def)
  have dg: "bprm_downgrade suid_root_file user_cred new = new" for new
    by (simp add: bprm_downgrade_def suid_root_file_def)
  have "\<exists>c' e. cap_bprm_set_creds True (Inr ()) user_cred suid_root_file (user_cred\<lparr>cr_euid := 0\<rparr>) = Inr (c', e) \<and>
      cr_euid c' = 0 \<and> cr_cap_permitted c' = CAP_FULL_SET"
    by (auto simp: cap_bprm_set_creds_def fc rc dg Let_def)
  with new show ?thesis by (metis exec_step.exec)
qed

theorem exec_gain_bounded_witness:
  "\<exists>c'. exec_step user_cred c' \<and> cr_cap_permitted c' = CAP_FULL_SET \<and>
     cap_issubset (cr_cap_permitted c') (cap_combine (cr_cap_bset user_cred) (cr_cap_inheritable user_cred))"
  using exec_suid_root exec_gain_bounded by blast

text \<open>C37: a securebit that is locked keeps its value and stays locked through every sequence of
  calls without an exec.\<close>

theorem securebits_locks_hold:
  "id_step\<^sup>*\<^sup>* c c' \<Longrightarrow> locks_kept (cr_securebits c) (cr_securebits c')"
  by (rule id_steps_locks)

text \<open>The initial credentials with \<^verbatim>\<open>SECURE_NOROOT\<close> set and locked, and the same after \<^verbatim>\<open>PR_SET_KEEPCAPS\<close>.\<close>

definition locked_cred :: cred where
  "locked_cred = init_cred\<lparr>cr_securebits := 3\<rparr>"

definition keepcaps_cred :: cred where
  "keepcaps_cred = init_cred\<lparr>cr_securebits := 0x13\<rparr>"

lemma locked_cred_steps: "id_step init_cred locked_cred" "id_step locked_cred keepcaps_cred"
proof -
  have "CAP_SETPCAP \<noteq> CAP_NET_RAW" "CAP_SETPCAP \<noteq> CAP_NET_ADMIN" by (simp_all add: cap_numbers)
  then have "nsown_capable init_cred CAP_SETPCAP"
    using nsown_capable_iff by (simp add: cap_raised_iff init_cred_def CAP_FULL_SET_def CAP_SETPCAP_def bit_simps)
  then have "cap_task_prctl True init_cred PR_SET_SECUREBITS 3 = Inr (0, Some locked_cred)"
    by (simp add: locked_cred_def nsown_capable_def ns_capable_def SECURE_ALL_LOCKS_def SECURE_ALL_BITS_def
        issecure_mask_def secure_numbers) (simp add: init_cred_def)
  then show "id_step init_cred locked_cred" by (rule id_step.prctl)
  have "cap_task_prctl True locked_cred PR_SET_KEEPCAPS 1 = Inr (0, Some keepcaps_cred)"
    by (simp add: locked_cred_def keepcaps_cred_def issecure_def issecure_mask_def secure_numbers)
  then show "id_step locked_cred keepcaps_cred" by (rule id_step.prctl)
qed

theorem securebits_locks_hold_witness:
  "bit (cr_securebits locked_cred) 1 \<and> bit (cr_securebits keepcaps_cred) 1 \<and> bit (cr_securebits keepcaps_cred) 0"
proof -
  have "bit (cr_securebits locked_cred) 0" "bit (cr_securebits locked_cred) 1"
    by (simp_all add: locked_cred_def bit_iff_odd)
  then show ?thesis
    using securebits_locks_hold [OF r_into_rtranclp [of id_step, OF locked_cred_steps(2)]]
    by (simp add: locks_kept_def secure_numbers)
qed

text \<open>the check for the two network capabilities looks at the effective group of the calling
  task, not at the credentials it is asked about: there is a caller for which every task appears
  to hold \<^verbatim>\<open>CAP_NET_RAW\<close>.\<close>

theorem cap_capable_reads_caller:
  "\<exists>current. \<forall>cred ns. cap_capable current cred ns CAP_NET_RAW = Inr ()"
  by (rule exI [of _ "init_cred\<lparr>cr_egid := AID_NET_RAW\<rparr>"]) (simp add: cap_capable_def in_egroup_p_def)

end
