(* ===== verification/Vfs_Permission.thy ===== *)
theory Vfs_Permission
  imports Posix_Acl Commoncap
begin

text \<open>
  The permission checks of the file system layer (\<^verbatim>\<open>fs/namei.c\<close>): the mode bit check with its
  call to the file system's ACL check, the two override capabilities, and the entry point
  \<^verbatim>\<open>inode_permission\<close>. The ACL check is the one of \<^verbatim>\<open>fs/ext4/acl.c\<close> in its blocking form; the
  non-blocking path walk (\<^verbatim>\<open>IPERM_FLAG_RCU\<close>) is not modelled. The theorems relate the layer to the
  POSIX.1e check of \<open>Posix_Acl\<close> and to the capabilities of \<open>Commoncap\<close>.
\<close>

section \<open>Permission checks of the file system layer\<close>

definition MAY_EXEC :: u32 where "MAY_EXEC = 1"
definition MAY_WRITE :: u32 where "MAY_WRITE = 2"
definition MAY_READ :: u32 where "MAY_READ = 4"

lemmas may_defs = MAY_EXEC_def MAY_WRITE_def MAY_READ_def

datatype file_kind = S_IFREG | S_IFDIR | S_IFLNK | S_IFOTHER

text \<open>
  An inode as the checks see it: its mode bits and file kind, owner, namespace, the mount and
  inode flags, and the function pointers \<^verbatim>\<open>permission\<close> and \<^verbatim>\<open>check_acl\<close> (\<^const>\<open>None\<close> if null).
\<close>

record inode =
  i_mode :: u16
  i_kind :: file_kind
  i_ids :: inode_ids
  i_userns :: user_namespace
  i_posixacl :: bool
  i_rdonly :: bool
  i_immutable :: bool
  i_check_acl :: "(u32 \<Rightarrow> unit result) option"
  i_permission :: "(u32 \<Rightarrow> unit result) option"

definition acl_permission_check :: "cred \<Rightarrow> inode \<Rightarrow> u32 \<Rightarrow> unit result" where
  "acl_permission_check cred inode msk =
     (let mode = (ucast (i_mode inode) :: u32);
          msk = msk AND (MAY_READ OR MAY_WRITE OR MAY_EXEC);
          check = (\<lambda>mode. if msk AND NOT mode = 0 then Inr () else Inl EACCES) in
      if u_ns (cr_user cred) \<noteq> i_userns inode then check mode
      else if cr_fsuid cred = i_uid (i_ids inode) then check (drop_bit 6 mode)
      else
        (let group = (\<lambda>_. check (if in_group_p cred (i_gid (i_ids inode)) then drop_bit 3 mode else mode)) in
         case i_check_acl inode of
           None \<Rightarrow> group ()
         | Some check_acl \<Rightarrow>
             if i_posixacl inode \<and> i_mode inode AND S_IRWXG \<noteq> 0
             then case check_acl msk of
                    Inl EAGAIN \<Rightarrow> group ()
                  | r \<Rightarrow> r
             else group ()))"

definition execute_ok :: "inode \<Rightarrow> bool" where
  "execute_ok inode \<longleftrightarrow> i_mode inode AND 73 \<noteq> 0 \<or> i_kind inode = S_IFDIR"

definition generic_permission :: "cred \<Rightarrow> inode \<Rightarrow> u32 \<Rightarrow> unit result" where
  "generic_permission cred inode msk =
     (case acl_permission_check cred inode msk of
        Inl EACCES \<Rightarrow>
          (if (msk AND MAY_EXEC = 0 \<or> execute_ok inode) \<and> ns_capable cred (i_userns inode) CAP_DAC_OVERRIDE
           then Inr ()
           else let msk = msk AND (MAY_READ OR MAY_WRITE OR MAY_EXEC) in
             if (msk = MAY_READ \<or> i_kind inode = S_IFDIR \<and> msk AND MAY_WRITE = 0) \<and>
                ns_capable cred (i_userns inode) CAP_DAC_READ_SEARCH
             then Inr () else Inl EACCES)
      | r \<Rightarrow> r)"

text \<open>\<open>hook\<close> is the verdict of the device controller and of the security module, in this order.\<close>

definition inode_permission :: "unit result \<Rightarrow> cred \<Rightarrow> inode \<Rightarrow> u32 \<Rightarrow> unit result" where
  "inode_permission hook cred inode msk =
     (if msk AND MAY_WRITE \<noteq> 0 \<and> i_rdonly inode \<and> i_kind inode \<in> {S_IFREG, S_IFDIR, S_IFLNK}
      then Inl EROFS
      else if msk AND MAY_WRITE \<noteq> 0 \<and> i_immutable inode then Inl EACCES
      else case (case i_permission inode of
                   Some permission \<Rightarrow> permission msk
                 | None \<Rightarrow> generic_permission cred inode msk) of
             Inl e \<Rightarrow> Inl e
           | Inr _ \<Rightarrow> hook)"

text \<open>
  The \<^verbatim>\<open>check_acl\<close> operation of a file system with ACLs: the ACL comes from the inode, or there
  is none, or it cannot be read.
\<close>

definition ext4_check_acl :: "posix_acl option result \<Rightarrow> cred \<Rightarrow> inode_ids \<Rightarrow> u32 \<Rightarrow> unit result" where
  "ext4_check_acl get_acl cred ids msk =
     (case get_acl of
        Inl e \<Rightarrow> Inl e
      | Inr None \<Rightarrow> Inl EAGAIN
      | Inr (Some acl) \<Rightarrow> posix_acl_permission cred ids acl msk)"

section \<open>The mode check and the ACL check agree\<close>

lemma grants_iff: "grants p want \<longleftrightarrow> want AND NOT (ucast p) = 0"
proof -
  have "ucast p AND want = want \<longleftrightarrow> want AND NOT (ucast p) = 0"
    unfolding bit_eq_iff by (auto simp: bit_simps)
  then show ?thesis by (simp add: grants_def)
qed

definition rwx :: "u32 \<Rightarrow> u32" where
  "rwx msk = msk AND (MAY_READ OR MAY_WRITE OR MAY_EXEC)"

lemma bit_rwx: "bit (rwx msk) n \<longleftrightarrow> bit msk n \<and> n < 3"
proof -
  have "MAY_READ OR MAY_WRITE OR MAY_EXEC = (mask 3 :: u32)"
    by (simp add: may_defs mask_eq_exp_minus_1)
  then show ?thesis by (auto simp: rwx_def bit_simps)
qed

lemma class_check:
  assumes "\<And>n. n < 3 \<Longrightarrow> bit m (n + k) \<longleftrightarrow> bit p n" "k \<le> 6"
  shows "rwx msk AND NOT (drop_bit k (ucast (m :: u16))) = 0 \<longleftrightarrow> grants p (rwx msk)"
proof -
  have "rwx msk AND NOT (drop_bit k (ucast m)) = rwx msk AND NOT (ucast p)"
    using assms(2) by (intro bit_eqI) (auto simp: bit_simps bit_rwx assms(1) add.commute [of k])
  then show ?thesis by (simp add: grants_iff)
qed

text \<open>The inode's mode bits are those the ACL stands for.\<close>

lemma mode_bits_at:
  assumes "(m AND NOT S_IRWXUGO) OR mode_bits u g ot = m" "n < 3"
  shows "bit m (n + 6) \<longleftrightarrow> bit u n" and "bit m (n + 3) \<longleftrightarrow> bit g n" and "bit m (n + 0) \<longleftrightarrow> bit ot n"
proof -
  note at = arg_cong [OF assms(1), of "\<lambda>w. bit w k" for k]
  show "bit m (n + 6) \<longleftrightarrow> bit u n" "bit m (n + 3) \<longleftrightarrow> bit g n" "bit m (n + 0) \<longleftrightarrow> bit ot n"
    using at [of "n + 6"] at [of "n + 3"] at [of n] assms(2)
    by (simp_all add: mode_bits_def bit_or_iff bit_and_iff bit_not_iff bit_push_bit_iff)
qed

lemma permission_check_spec:
  assumes valid: "posix_acl_valid acl = Inr ()"
    and sync: "posix_acl_equiv_mode acl (i_mode inode) = Inr (i_mode inode, ne)"
    and ns: "u_ns (cr_user cred) = i_userns inode"
    and fs: "i_posixacl inode" "i_check_acl inode = Some (ext4_check_acl (Inr (Some acl)) cred (i_ids inode))"
    and grp: "i_mode inode AND S_IRWXG \<noteq> 0 \<or> \<not> ne"
  shows "acl_permission_check cred inode msk = verdict (acl_grants cred (i_ids inode) acl (rwx msk))"
proof -
  have wf: "wf_acl acl" using valid by (simp add: posix_acl_valid_wf)
  obtain uo us go gs ms ot where acl: "acl = uo # us @ go # gs @ ms @ [ot]"
    and sh: "acl_shape uo us go gs ms ot" using wf by (auto simp: wf_acl_def)
  note tags = acl_shape_tags [OF sh]
  have m: "(i_mode inode AND NOT S_IRWXUGO) OR
      mode_bits (e_perm uo) (e_perm (group_class go ms)) (e_perm ot) = i_mode inode"
    and ne: "ne \<longleftrightarrow> us \<noteq> [] \<or> gs \<noteq> [] \<or> ms \<noteq> []"
    using sync equiv_mode_shape [OF sh, of "i_mode inode"] by (auto simp: acl)
  note cls = class_check [OF mode_bits_at(1) [OF m]] class_check [OF mode_bits_at(2) [OF m]]
    class_check [OF mode_bits_at(3) [OF m]]
  consider (owner) "cr_fsuid cred = i_uid (i_ids inode)"
    | (acl) "cr_fsuid cred \<noteq> i_uid (i_ids inode)" "i_mode inode AND S_IRWXG \<noteq> 0"
    | (plain) "cr_fsuid cred \<noteq> i_uid (i_ids inode)" "i_mode inode AND S_IRWXG = 0" "\<not> ne"
    using grp by blast
  then show ?thesis
  proof cases
    case owner
    have "(\<exists>e \<in> set acl. e_tag e = ACL_USER_OBJ \<and> P e) \<longleftrightarrow> P uo" for P
      using tags by (auto simp: acl)
    with owner cls(1) ns show ?thesis
      by (simp add: acl_permission_check_def Let_def acl_grants_def verdict_def rwx_def [symmetric])
  next
    case acl
    have "posix_acl_permission cred (i_ids inode) acl (rwx msk) \<noteq> Inl EAGAIN"
      by (simp add: posix_acl_permission_spec [OF wf] verdict_def)
    with acl ns fs posix_acl_permission_spec [OF wf] show ?thesis
      by (auto simp: acl_permission_check_def Let_def ext4_check_acl_def rwx_def [symmetric] verdict_def
          split: sum.splits errno.splits)
  next
    case plain
    with ne have e: "us = []" "gs = []" "ms = []" by auto
    have "acl_grants cred (i_ids inode) acl (rwx msk) \<longleftrightarrow>
        (if in_group_p cred (i_gid (i_ids inode)) then grants (e_perm go) (rwx msk) else grants (e_perm ot) (rwx msk))"
      using plain(1) tags
      by (auto simp: acl_grants_def acl e user_match_def group_match_def within_mask_def)
    with plain ns fs cls e show ?thesis
      by (simp add: acl_permission_check_def Let_def rwx_def [symmetric] verdict_def group_class_def)
  qed
qed

text \<open>
  What the layer grants by itself: what the ACL grants if the group class has any bits; otherwise the
  ACL is not consulted, and the owner has the bits of its entry, the owning group none, and everybody
  else, a user or group with an entry of its own included, those of the entry for others.
\<close>

definition file_grants :: "cred \<Rightarrow> inode \<Rightarrow> posix_acl \<Rightarrow> u32 \<Rightarrow> bool" where
  "file_grants cred inode acl want =
     (if i_mode inode AND S_IRWXG \<noteq> 0 then acl_grants cred (i_ids inode) acl want
      else if cr_fsuid cred = i_uid (i_ids inode) then \<exists>e \<in> set acl. e_tag e = ACL_USER_OBJ \<and> grants (e_perm e) want
      else if in_group_p cred (i_gid (i_ids inode)) then want = 0
      else \<exists>e \<in> set acl. e_tag e = ACL_OTHER \<and> grants (e_perm e) want)"

lemma no_group_bits:
  assumes "m AND S_IRWXG = 0" "n < 3"
  shows "bit m (n + 3) \<longleftrightarrow> bit (0 :: u16) n"
proof -
  have "n + 3 = 3 \<or> n + 3 = 4 \<or> n + 3 = 5" using assms(2) by auto
  then have "bit S_IRWXG (n + 3)" by (elim disjE) (simp_all add: S_IRWXG_def bit_iff_odd)
  then show ?thesis using arg_cong [OF assms(1), of "\<lambda>w. bit w (n + 3)"] by (simp add: bit_and_iff)
qed

lemma file_check_spec:
  assumes valid: "posix_acl_valid acl = Inr ()"
    and sync: "posix_acl_equiv_mode acl (i_mode inode) = Inr (i_mode inode, ne)"
    and ns: "u_ns (cr_user cred) = i_userns inode"
    and fs: "i_posixacl inode" "i_check_acl inode = Some (ext4_check_acl (Inr (Some acl)) cred (i_ids inode))"
  shows "acl_permission_check cred inode msk = verdict (file_grants cred inode acl (rwx msk))"
proof (cases "i_mode inode AND S_IRWXG = 0")
  case False
  then show ?thesis using permission_check_spec [OF assms] by (simp add: file_grants_def)
next
  case True
  obtain uo us go gs ms ot where acl: "acl = uo # us @ go # gs @ ms @ [ot]"
    and sh: "acl_shape uo us go gs ms ot" using valid by (auto simp: posix_acl_valid_wf wf_acl_def)
  note tags = acl_shape_tags [OF sh]
  have m: "(i_mode inode AND NOT S_IRWXUGO) OR
      mode_bits (e_perm uo) (e_perm (group_class go ms)) (e_perm ot) = i_mode inode"
    using sync equiv_mode_shape [OF sh, of "i_mode inode"] by (auto simp: acl)
  have cls: "rwx msk AND NOT (drop_bit 6 (ucast (i_mode inode))) = 0 \<longleftrightarrow> grants (e_perm uo) (rwx msk)"
      "rwx msk AND NOT (drop_bit 3 (ucast (i_mode inode))) = 0 \<longleftrightarrow> rwx msk = 0"
      "rwx msk AND NOT (ucast (i_mode inode)) = 0 \<longleftrightarrow> grants (e_perm ot) (rwx msk)"
    using class_check [OF mode_bits_at(1) [OF m]] class_check [OF no_group_bits [OF True]]
      class_check [OF mode_bits_at(3) [OF m]] by (simp_all add: grants_def)
  have ents: "(\<exists>e \<in> set acl. e_tag e = ACL_USER_OBJ \<and> P e) \<longleftrightarrow> P uo"
      "(\<exists>e \<in> set acl. e_tag e = ACL_OTHER \<and> P e) \<longleftrightarrow> P ot" for P
    using tags by (auto simp: acl)
  show ?thesis
    using True ns fs
    by (simp add: acl_permission_check_def Let_def rwx_def [symmetric] verdict_def file_grants_def cls ents)
qed

definition dac_override :: "cred \<Rightarrow> inode \<Rightarrow> u32 \<Rightarrow> bool" where
  "dac_override cred inode msk \<longleftrightarrow>
     (msk AND MAY_EXEC = 0 \<or> execute_ok inode) \<and> ns_capable cred (i_userns inode) CAP_DAC_OVERRIDE \<or>
     (rwx msk = MAY_READ \<or> i_kind inode = S_IFDIR \<and> rwx msk AND MAY_WRITE = 0) \<and>
     ns_capable cred (i_userns inode) CAP_DAC_READ_SEARCH"

lemma generic_permission_spec:
  assumes "acl_permission_check cred inode msk = verdict b"
  shows "generic_permission cred inode msk = verdict (b \<or> dac_override cred inode msk)"
  using assms
  by (auto simp: generic_permission_def verdict_def dac_override_def Let_def rwx_def [symmetric])

lemma dac_caps_not_net:
  "CAP_DAC_OVERRIDE \<noteq> CAP_NET_RAW" "CAP_DAC_OVERRIDE \<noteq> CAP_NET_ADMIN"
  "CAP_DAC_READ_SEARCH \<noteq> CAP_NET_RAW" "CAP_DAC_READ_SEARCH \<noteq> CAP_NET_ADMIN"
  by (simp_all add: cap_numbers)

lemma unprivileged_no_override:
  assumes "unprivileged u cred" "u_ns (cr_user cred) = i_userns inode"
  shows "\<not> dac_override cred inode msk"
  using assms nsown_capable_iff [OF dac_caps_not_net(1,2), of cred]
    nsown_capable_iff [OF dac_caps_not_net(3,4), of cred]
  by (simp add: dac_override_def nsown_capable_def unprivileged_def not_raised_clear)

section \<open>Properties\<close>

text \<open>C11: for an inode of the caller's namespace, on a file system with ACLs, whose mode bits are the ones
  its valid ACL stands for, the file system layer grants an access exactly when \<^const>\<open>file_grants\<close> does
  (the ACL, or without any group class bits the three classes of the mode) or one of the two override
  capabilities applies. If the group class has bits, or the ACL is only the three base entries, this
  is exactly the POSIX.1e check.\<close>

theorem generic_permission_correct:
  assumes "posix_acl_valid acl = Inr ()"
    and "posix_acl_equiv_mode acl (i_mode inode) = Inr (i_mode inode, ne)"
    and "u_ns (cr_user cred) = i_userns inode"
    and "i_posixacl inode" "i_check_acl inode = Some (ext4_check_acl (Inr (Some acl)) cred (i_ids inode))"
  shows "generic_permission cred inode msk =
      verdict (file_grants cred inode acl (rwx msk) \<or> dac_override cred inode msk) \<and>
    (i_mode inode AND S_IRWXG \<noteq> 0 \<or> \<not> ne \<longrightarrow>
      generic_permission cred inode msk =
        verdict (acl_grants cred (i_ids inode) acl (rwx msk) \<or> dac_override cred inode msk))"
  using generic_permission_spec [OF file_check_spec [OF assms]] generic_permission_spec [OF permission_check_spec [OF assms]]
  by blast

definition example_inode :: "cred \<Rightarrow> u16 \<Rightarrow> posix_acl \<Rightarrow> inode" where
  "example_inode cred mode acl = \<lparr>i_mode = mode, i_kind = S_IFREG, i_ids = \<lparr>i_uid = 0, i_gid = 7\<rparr>,
     i_userns = Init_user_ns, i_posixacl = True, i_rdonly = False, i_immutable = False,
     i_check_acl = Some (ext4_check_acl (Inr (Some acl)) cred \<lparr>i_uid = 0, i_gid = 7\<rparr>),
     i_permission = None\<rparr>"

lemma user_cred_unprivileged: "unprivileged 1000 user_cred"
  by (simp add: unprivileged_def uids_def user_cred_def)

lemma user_cred_ns: "u_ns (cr_user user_cred) = Init_user_ns"
  by (simp add: user_cred_def)

theorem generic_permission_correct_witness:
  "generic_permission user_cred (example_inode user_cred 0x1A0 example_acl) 4 = Inr ()"
proof -
  let ?i = "example_inode user_cred 0x1A0 example_acl"
  have "acl_grants user_cred (i_ids ?i) example_acl (rwx 4)"
    by (simp add: acl_grants_def example_acl_def example_inode_def user_match_def within_mask_def grants_def
        rwx_def may_defs user_cred_def)
  moreover have "posix_acl_equiv_mode example_acl 0x1A0 = Inr (0x1A0, True)"
    by (simp add: posix_acl_equiv_mode_def example_acl_def S_IRWXO_def S_IRWXG_def S_IRWXUGO_def S_IRWXU_def)
  moreover have "generic_permission user_cred ?i 4 =
      verdict (acl_grants user_cred (i_ids ?i) example_acl (rwx 4) \<or> dac_override user_cred ?i 4)"
    by (rule generic_permission_correct [OF example_acl_valid, THEN conjunct2, rule_format])
      (use calculation(2) in \<open>simp_all add: example_inode_def user_cred_ns S_IRWXG_def\<close>)
  ultimately show ?thesis by (simp add: verdict_def)
qed

text \<open>when the group class bits are all zero the file system layer skips the ACL. There is a
  valid ACL in agreement with the mode under which a named user is denied reading, and the layer
  lets that user read all the same, by the bits for others.\<close>

theorem masked_user_gets_other_bits:
  "\<exists>cred inode acl. posix_acl_valid acl = Inr () \<and>
     posix_acl_equiv_mode acl (i_mode inode) = Inr (i_mode inode, True) \<and>
     i_check_acl inode = Some (ext4_check_acl (Inr (Some acl)) cred (i_ids inode)) \<and> i_posixacl inode \<and>
     posix_acl_permission cred (i_ids inode) acl MAY_READ = Inl EACCES \<and>
     generic_permission cred inode MAY_READ = Inr ()"
proof -
  define acl where "acl =
    [\<lparr>e_tag = ACL_USER_OBJ, e_perm = 6, e_id = ACL_UNDEFINED_ID\<rparr>,
     \<lparr>e_tag = ACL_USER, e_perm = 4, e_id = 1000\<rparr>,
     \<lparr>e_tag = ACL_GROUP_OBJ, e_perm = 4, e_id = ACL_UNDEFINED_ID\<rparr>,
     \<lparr>e_tag = ACL_MASK, e_perm = 0, e_id = ACL_UNDEFINED_ID\<rparr>,
     \<lparr>e_tag = ACL_OTHER, e_perm = 4, e_id = ACL_UNDEFINED_ID\<rparr>]"
  let ?i = "example_inode user_cred 0x184 acl"
  have "posix_acl_valid acl = Inr ()"
    by (simp add: acl_def posix_acl_valid_def ACL_UNDEFINED_ID_def)
  moreover have "posix_acl_equiv_mode acl 0x184 = Inr (0x184, True)"
    by (simp add: posix_acl_equiv_mode_def acl_def S_IRWXO_def S_IRWXG_def S_IRWXUGO_def S_IRWXU_def)
  moreover have "posix_acl_permission user_cred (i_ids ?i) acl MAY_READ = Inl EACCES"
    by (simp add: posix_acl_permission_def acl_def example_inode_def user_cred_def grants_def may_defs)
  moreover have "\<not> in_group_p user_cred 7"
    by (simp add: in_group_p_def search_group_info_def groups_search_def groups_bsearch.simps
        group_array_def user_cred_def init_cred_def init_groups_def)
  moreover from this have "acl_permission_check user_cred ?i MAY_READ = Inr ()"
    by (simp add: acl_permission_check_def example_inode_def user_cred_ns S_IRWXG_def may_defs Let_def)
  ultimately show ?thesis
    by (intro exI [of _ user_cred] exI [of _ ?i] exI [of _ acl])
      (simp add: generic_permission_def, simp add: example_inode_def)
qed

end
