(* ===== verification/Locking.thy ===== *)
theory Locking
  imports Kernel_Prelude
begin

text \<open>
  Sleeping locks: the counting semaphores of \<^verbatim>\<open>kernel/semaphore.c\<close> and the reader-writer
  semaphores of \<^verbatim>\<open>lib/rwsem-spinlock.c\<close>. Each function holds the lock's spinlock for all of
  its work, so it is one atomic step of a transition system whose state is the lock and the
  tasks that use it; the theorems are about every interleaving of such steps. The reader count
  is kept as an integer: it never exceeds the number of tasks, which is far below \<^verbatim>\<open>2^31\<close>.
\<close>

type_synonym task = nat

section \<open>Reader-writer semaphores\<close>

datatype rwsem_wait = RWSEM_WAITING_FOR_READ | RWSEM_WAITING_FOR_WRITE

record rw_semaphore =
  activity :: int
  rw_wait_list :: "(task \<times> rwsem_wait) list"

text \<open>
  Every function runs with the spinlock held, as one atomic step. It returns the semaphore
  and the tasks it gives the lock to, in order: the caller itself on the fast path, and the
  waiters whose \<^verbatim>\<open>task\<close> field it clears.
\<close>

definition init_rwsem :: rw_semaphore where
  "init_rwsem = \<lparr>activity = 0, rw_wait_list = []\<rparr>"

definition rwsem_is_locked :: "bool \<Rightarrow> rw_semaphore \<Rightarrow> bool" where
  "rwsem_is_locked trylock_ok sem = (if trylock_ok then activity sem \<noteq> 0 else True)"

fun wake_readers :: "(task \<times> rwsem_wait) list \<Rightarrow> task list \<times> (task \<times> rwsem_wait) list" where
  "wake_readers ((t, RWSEM_WAITING_FOR_READ) # ws) = (let (woken, rest) = wake_readers ws in (t # woken, rest))"
| "wake_readers ws = ([], ws)"

definition rwsem_do_wake :: "rw_semaphore \<Rightarrow> bool \<Rightarrow> rw_semaphore \<times> task list" where
  "rwsem_do_wake sem wakewrite =
     (case rw_wait_list sem of
        [] \<Rightarrow> (sem, [])
      | (t, w) # ws \<Rightarrow>
          if \<not> wakewrite \<and> w = RWSEM_WAITING_FOR_WRITE then (sem, [])
          else if wakewrite \<and> w = RWSEM_WAITING_FOR_WRITE
          then (sem\<lparr>activity := - 1, rw_wait_list := ws\<rparr>, [t])
          else let (woken, rest) = wake_readers (rw_wait_list sem)
               in (sem\<lparr>activity := activity sem + int (length woken), rw_wait_list := rest\<rparr>, woken))"

definition rwsem_wake_one_writer :: "rw_semaphore \<Rightarrow> rw_semaphore \<times> task list" where
  "rwsem_wake_one_writer sem =
     (case rw_wait_list sem of
        [] \<Rightarrow> (sem\<lparr>activity := - 1\<rparr>, [])
      | (t, w) # ws \<Rightarrow> (sem\<lparr>activity := - 1, rw_wait_list := ws\<rparr>, [t]))"

definition down_read :: "task \<Rightarrow> rw_semaphore \<Rightarrow> rw_semaphore \<times> task list" where
  "down_read t sem =
     (if activity sem \<ge> 0 \<and> rw_wait_list sem = [] then (sem\<lparr>activity := activity sem + 1\<rparr>, [t])
      else (sem\<lparr>rw_wait_list := rw_wait_list sem @ [(t, RWSEM_WAITING_FOR_READ)]\<rparr>, []))"

definition down_read_trylock :: "task \<Rightarrow> rw_semaphore \<Rightarrow> rw_semaphore \<times> task list" where
  "down_read_trylock t sem =
     (if activity sem \<ge> 0 \<and> rw_wait_list sem = [] then (sem\<lparr>activity := activity sem + 1\<rparr>, [t])
      else (sem, []))"

definition down_write :: "task \<Rightarrow> rw_semaphore \<Rightarrow> rw_semaphore \<times> task list" where
  "down_write t sem =
     (if activity sem = 0 \<and> rw_wait_list sem = [] then (sem\<lparr>activity := - 1\<rparr>, [t])
      else (sem\<lparr>rw_wait_list := rw_wait_list sem @ [(t, RWSEM_WAITING_FOR_WRITE)]\<rparr>, []))"

definition down_write_trylock :: "task \<Rightarrow> rw_semaphore \<Rightarrow> rw_semaphore \<times> task list" where
  "down_write_trylock t sem =
     (if activity sem = 0 \<and> rw_wait_list sem = [] then (sem\<lparr>activity := - 1\<rparr>, [t]) else (sem, []))"

definition up_read :: "rw_semaphore \<Rightarrow> rw_semaphore \<times> task list" where
  "up_read sem =
     (let sem = sem\<lparr>activity := activity sem - 1\<rparr> in
      if activity sem = 0 \<and> rw_wait_list sem \<noteq> [] then rwsem_wake_one_writer sem else (sem, []))"

definition up_write :: "rw_semaphore \<Rightarrow> rw_semaphore \<times> task list" where
  "up_write sem =
     (let sem = sem\<lparr>activity := 0\<rparr> in
      if rw_wait_list sem \<noteq> [] then rwsem_do_wake sem True else (sem, []))"

definition downgrade_write :: "rw_semaphore \<Rightarrow> rw_semaphore \<times> task list" where
  "downgrade_write sem =
     (let sem = sem\<lparr>activity := 1\<rparr> in
      if rw_wait_list sem \<noteq> [] then rwsem_do_wake sem False else (sem, []))"

section \<open>Tasks using a reader-writer semaphore\<close>

text \<open>
  The semaphore together with what the tasks asked for: \<open>readers\<close> and \<open>writers\<close> are the tasks
  that were given the lock for the mode they requested and have not released it.
\<close>

record rw_system =
  rw_sem :: rw_semaphore
  readers :: "task set"
  writers :: "task set"

definition waiting_for :: "rw_semaphore \<Rightarrow> rwsem_wait \<Rightarrow> task set" where
  "waiting_for sem w = {t. (t, w) \<in> set (rw_wait_list sem)}"

definition idle :: "task \<Rightarrow> rw_system \<Rightarrow> bool" where
  "idle t s \<longleftrightarrow> t \<notin> readers s \<and> t \<notin> writers s \<and> t \<notin> fst ` set (rw_wait_list (rw_sem s))"

text \<open>Woken tasks get the lock in the mode they were waiting for.\<close>

definition granted :: "rw_system \<Rightarrow> rw_semaphore \<times> task list \<Rightarrow> rw_system" where
  "granted s r = s\<lparr>rw_sem := fst r,
     readers := readers s \<union> (set (snd r) \<inter> waiting_for (rw_sem s) RWSEM_WAITING_FOR_READ),
     writers := writers s \<union> (set (snd r) \<inter> waiting_for (rw_sem s) RWSEM_WAITING_FOR_WRITE)\<rparr>"

inductive rw_step :: "rw_system \<Rightarrow> rw_system \<Rightarrow> bool" where
  read_granted: "idle t s \<Longrightarrow> down_read t (rw_sem s) = (sem', [t]) \<Longrightarrow>
    rw_step s (s\<lparr>rw_sem := sem', readers := insert t (readers s)\<rparr>)"
| read_wait: "idle t s \<Longrightarrow> down_read t (rw_sem s) = (sem', []) \<Longrightarrow> rw_step s (s\<lparr>rw_sem := sem'\<rparr>)"
| read_try: "idle t s \<Longrightarrow> down_read_trylock t (rw_sem s) = (sem', [t]) \<Longrightarrow>
    rw_step s (s\<lparr>rw_sem := sem', readers := insert t (readers s)\<rparr>)"
| write_granted: "idle t s \<Longrightarrow> down_write t (rw_sem s) = (sem', [t]) \<Longrightarrow>
    rw_step s (s\<lparr>rw_sem := sem', writers := insert t (writers s)\<rparr>)"
| write_wait: "idle t s \<Longrightarrow> down_write t (rw_sem s) = (sem', []) \<Longrightarrow> rw_step s (s\<lparr>rw_sem := sem'\<rparr>)"
| write_try: "idle t s \<Longrightarrow> down_write_trylock t (rw_sem s) = (sem', [t]) \<Longrightarrow>
    rw_step s (s\<lparr>rw_sem := sem', writers := insert t (writers s)\<rparr>)"
| read_release: "t \<in> readers s \<Longrightarrow>
    rw_step s (granted (s\<lparr>readers := readers s - {t}\<rparr>) (up_read (rw_sem s)))"
| write_release: "t \<in> writers s \<Longrightarrow>
    rw_step s (granted (s\<lparr>writers := writers s - {t}\<rparr>) (up_write (rw_sem s)))"
| downgrade: "t \<in> writers s \<Longrightarrow>
    rw_step s (granted (s\<lparr>writers := writers s - {t}, readers := insert t (readers s)\<rparr>)
                 (downgrade_write (rw_sem s)))"

definition rw_start :: "rw_system \<Rightarrow> bool" where
  "rw_start s \<longleftrightarrow> s = \<lparr>rw_sem = init_rwsem, readers = {}, writers = {}\<rparr>"

text \<open>
  The invariant. The last two clauses are what \<^verbatim>\<open>__up_read\<close> relies on when it hands the lock to
  the first waiter without looking at what that waiter asked for.
\<close>

definition rw_inv :: "rw_system \<Rightarrow> bool" where
  "rw_inv s \<longleftrightarrow> finite (readers s) \<and> (\<exists>w. writers s \<subseteq> {w}) \<and> (writers s \<noteq> {} \<longrightarrow> readers s = {}) \<and>
     activity (rw_sem s) = (if writers s = {} then int (card (readers s)) else - 1) \<and>
     distinct (map fst (rw_wait_list (rw_sem s))) \<and>
     fst ` set (rw_wait_list (rw_sem s)) \<inter> (readers s \<union> writers s) = {} \<and>
     (activity (rw_sem s) = 0 \<longrightarrow> rw_wait_list (rw_sem s) = []) \<and>
     (activity (rw_sem s) > 0 \<and> rw_wait_list (rw_sem s) \<noteq> [] \<longrightarrow>
      snd (hd (rw_wait_list (rw_sem s))) = RWSEM_WAITING_FOR_WRITE)"

lemma wake_readers_spec:
  "wake_readers ws = (woken, rest) \<Longrightarrow>
   ws = map (\<lambda>t. (t, RWSEM_WAITING_FOR_READ)) woken @ rest \<and>
   (rest \<noteq> [] \<longrightarrow> snd (hd rest) = RWSEM_WAITING_FOR_WRITE)"
  by (induction ws arbitrary: woken rest rule: wake_readers.induct) (auto split: prod.splits)

lemma wait_cases: "w = RWSEM_WAITING_FOR_READ \<or> w = RWSEM_WAITING_FOR_WRITE"
  by (cases w) auto

lemma inv_enqueue:
  assumes "rw_inv s" "idle t s" "activity (rw_sem s) \<noteq> 0 \<or> rw_wait_list (rw_sem s) \<noteq> []"
    and "activity (rw_sem s) > 0 \<Longrightarrow> rw_wait_list (rw_sem s) = [] \<Longrightarrow> w = RWSEM_WAITING_FOR_WRITE"
  shows "rw_inv (s\<lparr>rw_sem := (rw_sem s)\<lparr>rw_wait_list := rw_wait_list (rw_sem s) @ [(t, w)]\<rparr>\<rparr>)"
  using assms by (cases "rw_wait_list (rw_sem s)") (auto simp: rw_inv_def idle_def)

lemma inv_read:
  assumes "rw_inv s" "idle t s" "activity (rw_sem s) \<ge> 0" "rw_wait_list (rw_sem s) = []"
  shows "rw_inv (s\<lparr>rw_sem := (rw_sem s)\<lparr>activity := activity (rw_sem s) + 1\<rparr>, readers := insert t (readers s)\<rparr>)"
  using assms by (auto simp: rw_inv_def idle_def split: if_splits)

lemma inv_write:
  assumes "rw_inv s" "idle t s" "activity (rw_sem s) = 0" "rw_wait_list (rw_sem s) = []"
  shows "rw_inv (s\<lparr>rw_sem := (rw_sem s)\<lparr>activity := - 1\<rparr>, writers := insert t (writers s)\<rparr>)"
  using assms by (auto simp: rw_inv_def idle_def split: if_splits)

text \<open>Handing the lock over to the head of the queue, once nobody holds it.\<close>

lemma inv_hand_to_writer:
  assumes "rw_wait_list sem = (t, RWSEM_WAITING_FOR_WRITE) # ws" "distinct (map fst (rw_wait_list sem))"
    and "readers s = {}" "writers s = {}" "rw_sem s = sem0" "rw_wait_list sem0 = rw_wait_list sem"
  shows "rw_inv (granted s (sem\<lparr>activity := - 1, rw_wait_list := ws\<rparr>, [t]))"
  using assms by (auto simp: rw_inv_def granted_def waiting_for_def rev_image_eqI)

lemma inv_hand_to_readers:
  assumes "wake_readers (rw_wait_list sem) = (woken, rest)" "distinct (map fst (rw_wait_list sem))"
    and "finite (readers s)" "writers s = {}" "fst ` set (rw_wait_list sem) \<inter> readers s = {}"
    and "rw_wait_list (rw_sem s) = rw_wait_list sem" "activity sem = int (card (readers s))"
    and "readers s \<noteq> {} \<or> woken \<noteq> []"
  shows "rw_inv (granted s (sem\<lparr>activity := activity sem + int (length woken), rw_wait_list := rest\<rparr>, woken))"
proof -
  note sp = wake_readers_spec [OF assms(1)]
  have woken: "set woken \<inter> waiting_for (rw_sem s) RWSEM_WAITING_FOR_READ = set woken"
    using sp assms(6) by (auto simp: waiting_for_def)
  have d: "distinct woken" "set woken \<inter> fst ` set rest = {}" "set woken \<inter> readers s = {}"
    "fst ` set rest \<inter> readers s = {}" "distinct (map fst rest)"
    using sp assms(2,5) by (auto simp: comp_def image_Un image_image)
  have none: "set woken \<inter> waiting_for (rw_sem s) RWSEM_WAITING_FOR_WRITE = {}"
    using sp assms(6) d(2) by (force simp: waiting_for_def)
  have card: "card (readers s \<union> set woken) = card (readers s) + length woken"
    using d assms(3) by (subst card_Un_disjoint) (auto simp: distinct_card)
  have ne: "readers s \<union> set woken \<noteq> {}" using assms(8) by auto
  then have "0 < card (readers s) + length woken" using assms(3) card by (metis card_gt_0_iff finite_UnI finite_set)
  then have "int (card (readers s)) + int (length woken) \<noteq> 0" by linarith
  with sp d assms(3,4,7) card show ?thesis
    by (auto simp: rw_inv_def granted_def woken none)
qed

lemma up_read_inv:
  assumes "rw_inv s" "t \<in> readers s"
  shows "rw_inv (granted (s\<lparr>readers := readers s - {t}\<rparr>) (up_read (rw_sem s)))"
proof -
  define R where "R = readers s - {t}"
  have w: "writers s = {}" and f: "finite R" and act: "activity (rw_sem s) = int (card R) + 1"
    and d: "distinct (map fst (rw_wait_list (rw_sem s)))" "fst ` set (rw_wait_list (rw_sem s)) \<inter> R = {}"
    using assms card.remove [OF _ assms(2)] by (auto simp: rw_inv_def R_def)
  have head: "snd (hd (rw_wait_list (rw_sem s))) = RWSEM_WAITING_FOR_WRITE" if "rw_wait_list (rw_sem s) \<noteq> []"
    using assms(1) that act by (simp add: rw_inv_def)
  show ?thesis
  proof (cases "R = {} \<and> rw_wait_list (rw_sem s) \<noteq> []")
    case True
    then obtain u ws where q: "rw_wait_list (rw_sem s) = (u, RWSEM_WAITING_FOR_WRITE) # ws"
      using head by (cases "rw_wait_list (rw_sem s)") auto
    have up: "up_read (rw_sem s) = ((rw_sem s)\<lparr>activity := - 1, rw_wait_list := ws\<rparr>, [u])"
      using act q True by (simp add: up_read_def rwsem_wake_one_writer_def Let_def)
    show ?thesis
      unfolding up R_def [symmetric] by (rule inv_hand_to_writer) (use q d w True in simp_all)
  next
    case False
    then have nz: "int (card R) = 0 \<Longrightarrow> rw_wait_list (rw_sem s) = []" using f by auto
    then have up: "up_read (rw_sem s) = ((rw_sem s)\<lparr>activity := int (card R)\<rparr>, [])"
      using act by (auto simp: up_read_def Let_def)
    show ?thesis
      unfolding up R_def [symmetric] using w f d nz head by (auto simp: rw_inv_def granted_def)
  qed
qed

lemma up_write_inv:
  assumes "rw_inv s" "t \<in> writers s"
  shows "rw_inv (granted (s\<lparr>writers := writers s - {t}\<rparr>) (up_write (rw_sem s)))"
proof -
  let ?sem = "(rw_sem s)\<lparr>activity := 0\<rparr>"
  from assms have w: "writers s - {t} = {}" "readers s = {}"
    and d: "distinct (map fst (rw_wait_list (rw_sem s)))" by (auto simp: rw_inv_def)
  show ?thesis
  proof (cases "rw_wait_list (rw_sem s)")
    case Nil
    with w show ?thesis by (auto simp: up_write_def rw_inv_def granted_def)
  next
    case (Cons a ws)
    obtain u k where a: "a = (u, k)" by force
    show ?thesis
    proof (cases k)
      case RWSEM_WAITING_FOR_WRITE
      with Cons a have up: "up_write (rw_sem s) = (?sem\<lparr>activity := - 1, rw_wait_list := ws\<rparr>, [u])"
        by (simp add: up_write_def rwsem_do_wake_def)
      show ?thesis
        unfolding up by (rule inv_hand_to_writer) (use Cons a RWSEM_WAITING_FOR_WRITE w d in simp_all)
    next
      case RWSEM_WAITING_FOR_READ
      obtain woken rest where wr: "wake_readers (rw_wait_list ?sem) = (woken, rest)" by force
      have up: "up_write (rw_sem s) =
          (?sem\<lparr>activity := activity ?sem + int (length woken), rw_wait_list := rest\<rparr>, woken)"
        using Cons a RWSEM_WAITING_FOR_READ wr by (simp add: up_write_def rwsem_do_wake_def split: prod.splits)
      have ne: "woken \<noteq> []" using Cons a RWSEM_WAITING_FOR_READ wr by (auto split: prod.splits)
      show ?thesis
        unfolding up by (rule inv_hand_to_readers [OF wr]) (use ne w d in simp_all)
    qed
  qed
qed

lemma downgrade_inv:
  assumes "rw_inv s" "t \<in> writers s"
  shows "rw_inv (granted (s\<lparr>writers := writers s - {t}, readers := insert t (readers s)\<rparr>) (downgrade_write (rw_sem s)))"
proof -
  let ?sem = "(rw_sem s)\<lparr>activity := 1\<rparr>"
  from assms have w: "writers s - {t} = {}" "readers s = {}"
    and d: "distinct (map fst (rw_wait_list (rw_sem s)))" "t \<notin> fst ` set (rw_wait_list (rw_sem s))"
    by (auto simp: rw_inv_def)
  obtain woken rest where wr: "wake_readers (rw_wait_list ?sem) = (woken, rest)" by force
  have up: "downgrade_write (rw_sem s) =
      (?sem\<lparr>activity := activity ?sem + int (length woken), rw_wait_list := rest\<rparr>, woken)"
  proof (cases "rw_wait_list (rw_sem s)")
    case (Cons a ws)
    obtain u k where a: "a = (u, k)" by force
    show ?thesis
      using Cons a wr
      by (cases "rw_sem s"; cases k) (auto simp: downgrade_write_def rwsem_do_wake_def split: prod.splits)
  qed (use wr in \<open>simp add: downgrade_write_def\<close>)
  show ?thesis
    unfolding up by (rule inv_hand_to_readers [OF wr]) (use w d in simp_all)
qed

lemma down_steps_inv:
  assumes "rw_inv s" "idle t s"
  shows "down_read t (rw_sem s) = (sem', [t]) \<Longrightarrow> rw_inv (s\<lparr>rw_sem := sem', readers := insert t (readers s)\<rparr>)"
    and "down_read t (rw_sem s) = (sem', []) \<Longrightarrow> rw_inv (s\<lparr>rw_sem := sem'\<rparr>)"
    and "down_read_trylock t (rw_sem s) = (sem', [t]) \<Longrightarrow> rw_inv (s\<lparr>rw_sem := sem', readers := insert t (readers s)\<rparr>)"
    and "down_write t (rw_sem s) = (sem', [t]) \<Longrightarrow> rw_inv (s\<lparr>rw_sem := sem', writers := insert t (writers s)\<rparr>)"
    and "down_write t (rw_sem s) = (sem', []) \<Longrightarrow> rw_inv (s\<lparr>rw_sem := sem'\<rparr>)"
    and "down_write_trylock t (rw_sem s) = (sem', [t]) \<Longrightarrow> rw_inv (s\<lparr>rw_sem := sem', writers := insert t (writers s)\<rparr>)"
  using inv_read [OF assms] inv_write [OF assms] inv_enqueue [OF assms]
  by (auto simp: down_read_def down_read_trylock_def down_write_def down_write_trylock_def not_le split: if_splits)

lemma rw_step_inv: "rw_inv s \<Longrightarrow> rw_step s s' \<Longrightarrow> rw_inv s'"
  by (erule rw_step.cases) (simp_all only: down_steps_inv up_read_inv up_write_inv downgrade_inv)

interpretation rwsem: invariant_system rw_start rw_step rw_inv
proof
  show "rw_inv s" if "rw_start s" for s
    using that by (simp add: rw_start_def rw_inv_def init_rwsem_def)
qed (rule rw_step_inv)

text \<open>Waiters leave the queue from the front only and newcomers join at its end.\<close>

definition queue :: "rw_system \<Rightarrow> task list" where
  "queue s = map fst (rw_wait_list (rw_sem s))"

definition from_front :: "rw_semaphore \<Rightarrow> rw_semaphore \<times> task list \<Rightarrow> bool" where
  "from_front sem r \<longleftrightarrow> (\<exists>k. map fst (rw_wait_list (fst r)) = drop k (map fst (rw_wait_list sem)) \<and>
     snd r = take k (map fst (rw_wait_list sem)))"

lemma from_front_none: "rw_wait_list sem' = rw_wait_list sem \<Longrightarrow> from_front sem (sem', [])"
  by (auto simp: from_front_def intro: exI [of _ 0])

lemma do_wake_front: "from_front sem (rwsem_do_wake sem b)"
proof (cases "rw_wait_list sem")
  case (Cons a ws)
  obtain woken rest where wr: "wake_readers (rw_wait_list sem) = (woken, rest)" by force
  have "map fst (rw_wait_list sem) = woken @ map fst rest"
    using wake_readers_spec [OF wr] by (simp add: comp_def)
  then have readers: "from_front sem (sem\<lparr>activity := n, rw_wait_list := rest\<rparr>, woken)" for n
    by (auto simp: from_front_def intro: exI [of _ "length woken"])
  have one: "from_front sem (sem\<lparr>activity := n, rw_wait_list := ws\<rparr>, [fst a])" for n
    using Cons by (auto simp: from_front_def intro: exI [of _ 1])
  show ?thesis
    using Cons one readers from_front_none [of sem sem] wr
    by (cases a) (auto simp: rwsem_do_wake_def split: prod.splits)
qed (simp add: rwsem_do_wake_def from_front_none)

lemma releases_from_front:
  "from_front sem (up_read sem)" "from_front sem (up_write sem)" "from_front sem (downgrade_write sem)"
proof -
  have act: "from_front (sem\<lparr>activity := n\<rparr>) r \<Longrightarrow> from_front sem r" for n r
    by (simp add: from_front_def)
  have one: "from_front sem (rwsem_wake_one_writer (sem\<lparr>activity := n\<rparr>))" for n
    by (cases "rw_wait_list sem")
      (auto simp: rwsem_wake_one_writer_def from_front_def intro: exI [of _ 0] exI [of _ 1])
  show "from_front sem (up_read sem)" "from_front sem (up_write sem)" "from_front sem (downgrade_write sem)"
    using one by (auto simp: up_read_def up_write_def downgrade_write_def Let_def from_front_none
        intro: act do_wake_front)
qed

definition holders :: "rw_system \<Rightarrow> task set" where
  "holders s = readers s \<union> writers s"

definition served_in_order :: "rw_system \<Rightarrow> rw_system \<Rightarrow> bool" where
  "served_in_order s s' \<longleftrightarrow> (\<exists>k new. queue s' = drop k (queue s) @ new \<and> length new \<le> 1 \<and>
     (queue s \<noteq> [] \<longrightarrow> holders s' - holders s = set (take k (queue s))))"

lemma granted_fifo:
  assumes "from_front (rw_sem s0) r" "queue s0 = queue s" "holders s0 \<subseteq> holders s" "set (queue s) \<inter> holders s = {}"
  shows "served_in_order s (granted s0 r)"
proof -
  obtain k where k: "map fst (rw_wait_list (fst r)) = drop k (queue s)" "snd r = take k (queue s)"
    using assms(1) unfolding from_front_def assms(2) [symmetric] by (auto simp: queue_def)
  have "set (queue s) \<subseteq> waiting_for (rw_sem s0) RWSEM_WAITING_FOR_READ \<union> waiting_for (rw_sem s0) RWSEM_WAITING_FOR_WRITE"
  proof
    fix t
    assume "t \<in> set (queue s)"
    then obtain w where "(t, w) \<in> set (rw_wait_list (rw_sem s0))" unfolding assms(2) [symmetric] by (auto simp: queue_def)
    then show "t \<in> waiting_for (rw_sem s0) RWSEM_WAITING_FOR_READ \<union> waiting_for (rw_sem s0) RWSEM_WAITING_FOR_WRITE"
      by (cases w) (auto simp: waiting_for_def)
  qed
  then have "holders (granted s0 r) = holders s0 \<union> set (take k (queue s))"
    using set_take_subset [of k "queue s"] by (auto simp: granted_def holders_def k)
  then have "holders (granted s0 r) - holders s = set (take k (queue s))"
    using assms(3,4) set_take_subset [of k "queue s"] by auto
  moreover have "queue (granted s0 r) = drop k (queue s)" using k(1) by (simp add: queue_def granted_def)
  ultimately show ?thesis unfolding served_in_order_def by (intro exI [of _ k] exI [of _ "[]"]) simp
qed

lemma down_fifo:
  assumes "rw_wait_list sem' = rw_wait_list (rw_sem s) \<or> (\<exists>x. rw_wait_list sem' = rw_wait_list (rw_sem s) @ [x])"
    and "rw_sem s' = sem'" "rw_wait_list (rw_sem s) = [] \<or> holders s' = holders s"
  shows "served_in_order s s'"
  unfolding served_in_order_def using assms by (intro exI [of _ 0]) (auto simp: queue_def)

lemma rw_step_fifo:
  assumes "rw_inv s" "rw_step s s'"
  shows "served_in_order s s'"
proof -
  have free: "set (queue s) \<inter> holders s = {}" using assms(1) by (simp add: rw_inv_def queue_def holders_def)
  show ?thesis
    using assms(2)
  proof cases
    case (read_release t)
    then show ?thesis
      by (simp only:) (rule granted_fifo; use free releases_from_front in \<open>auto simp: queue_def holders_def\<close>)
  next
    case (write_release t)
    then show ?thesis
      by (simp only:) (rule granted_fifo; use free releases_from_front in \<open>auto simp: queue_def holders_def\<close>)
  next
    case (downgrade t)
    then show ?thesis
      by (simp only:) (rule granted_fifo; use free releases_from_front in \<open>auto simp: queue_def holders_def\<close>)
  qed (rule down_fifo; auto simp: down_read_def down_read_trylock_def down_write_def down_write_trylock_def holders_def
      split: if_splits)+
qed

section \<open>Counting semaphores\<close>

text \<open>
  A waiter sits in \<open>wait_list\<close> until \<^verbatim>\<open>__up\<close> takes it out and sets its \<^verbatim>\<open>up\<close> flag; \<open>sem_up\<close>
  holds the waiters with the flag set that have not run since.
\<close>

record semaphore =
  sem_count :: u32
  sem_wait_list :: "task list"
  sem_up :: "task list"

datatype down_result = Acquired | Blocked | Failed errno

definition sema_init :: "u32 \<Rightarrow> semaphore" where
  "sema_init val = \<lparr>sem_count = val, sem_wait_list = [], sem_up = []\<rparr>"

text \<open>The common shape of the four blocking variants: take a unit, or join the queue.\<close>

definition sem_down :: "task \<Rightarrow> semaphore \<Rightarrow> semaphore \<times> down_result" where
  "sem_down t sem =
     (if sem_count sem > 0 then (sem\<lparr>sem_count := sem_count sem - 1\<rparr>, Acquired)
      else (sem\<lparr>sem_wait_list := sem_wait_list sem @ [t]\<rparr>, Blocked))"

text \<open>
  One turn of the loop in \<^verbatim>\<open>__down_common\<close>, entered with the lock held. \<open>woken\<close> says that the task
  comes back from \<^verbatim>\<open>schedule_timeout\<close>, where the flag is tested first; \<open>signal\<close> and \<open>timed_out\<close>
  are the two reasons to give up.
\<close>

definition down_common_turn :: "task \<Rightarrow> bool \<Rightarrow> bool \<Rightarrow> bool \<Rightarrow> semaphore \<Rightarrow> semaphore \<times> down_result" where
  "down_common_turn t woken signal timed_out sem =
     (if woken \<and> t \<in> set (sem_up sem) then (sem\<lparr>sem_up := remove1 t (sem_up sem)\<rparr>, Acquired)
      else if signal then (sem\<lparr>sem_wait_list := remove1 t (sem_wait_list sem)\<rparr>, Failed EINTR)
      else if timed_out then (sem\<lparr>sem_wait_list := remove1 t (sem_wait_list sem)\<rparr>, Failed ETIME)
      else (sem, Blocked))"

text \<open>The difference is computed unsigned and compared signed.\<close>

definition down_trylock :: "semaphore \<Rightarrow> semaphore \<times> bool" where
  "down_trylock sem =
     (let n = sem_count sem - 1 in
      if 0 \<le>s n then (sem\<lparr>sem_count := n\<rparr>, False) else (sem, True))"

definition sem_do_up :: "semaphore \<Rightarrow> semaphore" where
  "sem_do_up sem =
     (case sem_wait_list sem of
        [] \<Rightarrow> sem
      | t # ts \<Rightarrow> sem\<lparr>sem_wait_list := ts, sem_up := sem_up sem @ [t]\<rparr>)"

definition sem_release :: "semaphore \<Rightarrow> semaphore" where
  "sem_release sem =
     (if sem_wait_list sem = [] then sem\<lparr>sem_count := sem_count sem + 1\<rparr> else sem_do_up sem)"

text \<open>
  The semaphore with the history of its use: how often it was acquired and released.
\<close>

record sem_system =
  the_sem :: semaphore
  acquired :: nat
  released :: nat
  initial :: u32

inductive sem_step :: "sem_system \<Rightarrow> sem_system \<Rightarrow> bool" where
  down_fast: "sem_down t (the_sem s) = (sem', Acquired) \<Longrightarrow>
    sem_step s (s\<lparr>the_sem := sem', acquired := acquired s + 1\<rparr>)"
| down_wait: "t \<notin> set (sem_wait_list (the_sem s)) \<union> set (sem_up (the_sem s)) \<Longrightarrow>
    sem_down t (the_sem s) = (sem', Blocked) \<Longrightarrow> sem_step s (s\<lparr>the_sem := sem'\<rparr>)"
| turn_done: "down_common_turn t w sig tmo (the_sem s) = (sem', Acquired) \<Longrightarrow>
    sem_step s (s\<lparr>the_sem := sem', acquired := acquired s + 1\<rparr>)"
| turn_fail: "t \<in> set (sem_wait_list (the_sem s)) \<union> set (sem_up (the_sem s)) \<Longrightarrow>
    down_common_turn t True sig tmo (the_sem s) = (sem', Failed e) \<Longrightarrow> sem_step s (s\<lparr>the_sem := sem'\<rparr>)"
| enter_fail: "t \<in> set (sem_wait_list (the_sem s)) \<Longrightarrow>
    down_common_turn t False sig tmo (the_sem s) = (sem', Failed e) \<Longrightarrow> sem_step s (s\<lparr>the_sem := sem'\<rparr>)"
| trylock: "down_trylock (the_sem s) = (sem', False) \<Longrightarrow>
    sem_step s (s\<lparr>the_sem := sem', acquired := acquired s + 1\<rparr>)"
| release: "sem_step s (s\<lparr>the_sem := sem_release (the_sem s), released := released s + 1\<rparr>)"

definition sem_start :: "sem_system \<Rightarrow> bool" where
  "sem_start s \<longleftrightarrow> the_sem s = sema_init (initial s) \<and> acquired s = 0 \<and> released s = 0"

text \<open>
  Every unit is accounted for: what is left, what was taken and what is on its way to a woken
  task add up to the initial value and the releases, in the arithmetic of the counter. And a
  waiter never sleeps while a unit is left.
\<close>

definition sem_inv :: "sem_system \<Rightarrow> bool" where
  "sem_inv s \<longleftrightarrow>
     sem_count (the_sem s) + of_nat (acquired s) + of_nat (length (sem_up (the_sem s))) =
       initial s + of_nat (released s) \<and>
     (sem_count (the_sem s) \<noteq> 0 \<longrightarrow> sem_wait_list (the_sem s) = []) \<and>
     distinct (sem_wait_list (the_sem s)) \<and>
     set (sem_wait_list (the_sem s)) \<inter> set (sem_up (the_sem s)) = {}"

lemma remove1_up_length:
  assumes "t \<in> set xs"
  shows "of_nat (length (remove1 t xs)) + 1 = (of_nat (length xs) :: u32)"
proof -
  have "length xs = Suc (length (remove1 t xs))"
    using assms length_pos_if_in_set [OF assms] by (simp add: length_remove1)
  then show ?thesis by simp
qed

lemma trylock_some:
  "down_trylock sem = (sem', False) \<Longrightarrow> sem_count sem \<noteq> 0 \<and> sem' = sem\<lparr>sem_count := sem_count sem - 1\<rparr>"
  by (auto simp: down_trylock_def Let_def word_sle_eq split: if_splits)

lemma take_unit_inv:
  assumes "sem_inv s" "sem_count (the_sem s) \<noteq> 0"
  shows "sem_inv (s\<lparr>the_sem := (the_sem s)\<lparr>sem_count := sem_count (the_sem s) - 1\<rparr>, acquired := acquired s + 1\<rparr>)"
  using assms by (auto simp: sem_inv_def algebra_simps)

lemma give_up_inv:
  assumes "sem_inv s"
  shows "sem_inv (s\<lparr>the_sem := (the_sem s)\<lparr>sem_wait_list := remove1 t (sem_wait_list (the_sem s))\<rparr>\<rparr>)"
  using assms set_remove1_subset [of t "sem_wait_list (the_sem s)"]
  by (auto simp: sem_inv_def)

lemma turn_done_inv:
  assumes "sem_inv s" "t \<in> set (sem_up (the_sem s))"
  shows "sem_inv (s\<lparr>the_sem := (the_sem s)\<lparr>sem_up := remove1 t (sem_up (the_sem s))\<rparr>, acquired := acquired s + 1\<rparr>)"
  using assms(1) set_remove1_subset [of t "sem_up (the_sem s)"]
  by (auto simp: sem_inv_def remove1_up_length [OF assms(2), symmetric] algebra_simps)

lemma release_inv:
  assumes "sem_inv s"
  shows "sem_inv (s\<lparr>the_sem := sem_release (the_sem s), released := released s + 1\<rparr>)"
  using assms
  by (cases "sem_wait_list (the_sem s)") (auto simp: sem_inv_def sem_release_def sem_do_up_def algebra_simps)

lemma sem_step_inv:
  assumes "sem_inv s" "sem_step s s'"
  shows "sem_inv s'"
  using assms(2)
proof cases
  case (down_fast t sem')
  then show ?thesis using take_unit_inv [OF assms(1)] by (auto simp: sem_down_def split: if_splits)
next
  case (down_wait t sem')
  then show ?thesis using assms(1) by (auto simp: sem_down_def sem_inv_def word_gt_0 split: if_splits)
next
  case (turn_done t w sig tmo sem')
  then show ?thesis using turn_done_inv [OF assms(1)] by (auto simp: down_common_turn_def split: if_splits)
next
  case (turn_fail t sig tmo sem' e)
  then show ?thesis using give_up_inv [OF assms(1)] by (auto simp: down_common_turn_def split: if_splits)
next
  case (enter_fail t sig tmo sem' e)
  then show ?thesis using give_up_inv [OF assms(1)] by (auto simp: down_common_turn_def split: if_splits)
next
  case (trylock sem')
  then show ?thesis using take_unit_inv [OF assms(1)] by (auto dest: trylock_some)
next
  case release
  then show ?thesis using release_inv [OF assms(1)] by simp
qed

interpretation sem: invariant_system sem_start sem_step sem_inv
proof
  show "sem_inv s" if "sem_start s" for s
    using that by (simp add: sem_start_def sem_inv_def sema_init_def)
qed (rule sem_step_inv)

section \<open>Properties\<close>

text \<open>C4: whatever the interleaving of calls, a reader-writer semaphore never has a writer together
  with a reader or with a second writer; and when nobody holds it, nobody is left waiting.\<close>

theorem rwsem_exclusion_and_progress:
  assumes "reachable rw_start rw_step s"
  shows "(writers s \<noteq> {} \<longrightarrow> readers s = {}) \<and> (\<exists>w. writers s \<subseteq> {w}) \<and>
    (readers s = {} \<and> writers s = {} \<longrightarrow> rw_wait_list (rw_sem s) = [])"
  using rwsem.reachable_inv [OF assms] by (auto simp: rw_inv_def)

lemma rw_start_step:
  "rw_start \<lparr>rw_sem = init_rwsem, readers = {}, writers = {}\<rparr>"
  "rw_step \<lparr>rw_sem = init_rwsem, readers = {}, writers = {}\<rparr>
     \<lparr>rw_sem = \<lparr>activity = - 1, rw_wait_list = []\<rparr>, readers = {}, writers = {7}\<rparr>"
  using rw_step.write_granted [of 7 "\<lparr>rw_sem = init_rwsem, readers = {}, writers = {}\<rparr>"]
  by (simp_all add: rw_start_def init_rwsem_def idle_def down_write_def)

theorem rwsem_exclusion_and_progress_witness:
  "(writers \<lparr>rw_sem = \<lparr>activity = - 1, rw_wait_list = []\<rparr>, readers = {}, writers = {7 :: task}\<rparr> \<noteq> {}) \<and>
   readers \<lparr>rw_sem = \<lparr>activity = - 1, rw_wait_list = []\<rparr>, readers = {}, writers = {7 :: task}\<rparr> = {}"
  using rwsem_exclusion_and_progress 
    [OF reach_step [of rw_start rw_step, OF reach_start [of rw_start, OF rw_start_step(1)] rw_start_step(2)]]
  by simp

text \<open>C30: a reader-writer semaphore is first come first served: in every step of every reachable state
  the queue loses tasks at its front only and gains at most one at its end; and while tasks are waiting
  the tasks that come to hold the lock are exactly those that left the front of the queue, so no
  newcomer overtakes a waiter.\<close>

theorem rwsem_fifo:
  assumes "reachable rw_start rw_step s" "rw_step s s'"
  shows "\<exists>k new. queue s' = drop k (queue s) @ new \<and> length new \<le> 1 \<and>
    (queue s \<noteq> [] \<longrightarrow> (readers s' \<union> writers s') - (readers s \<union> writers s) = set (take k (queue s)))"
  using rw_step_fifo [OF rwsem.reachable_inv [OF assms(1)] assms(2)] by (simp add: served_in_order_def holders_def)

text \<open>Reader 1 holds the lock, writer 2 and reader 3 wait; the release hands the lock to the writer.\<close>

definition rw_example :: rw_system where
  "rw_example = \<lparr>rw_sem = \<lparr>activity = 1, rw_wait_list = [(2, RWSEM_WAITING_FOR_WRITE), (3, RWSEM_WAITING_FOR_READ)]\<rparr>,
     readers = {1}, writers = {}\<rparr>"

lemma rw_example_reachable: "reachable rw_start rw_step rw_example"
proof -
  let ?s = "\<lambda>n q. \<lparr>rw_sem = \<lparr>activity = n, rw_wait_list = q\<rparr>, readers = {1}, writers = {}\<rparr>"
  have 1: "rw_step \<lparr>rw_sem = init_rwsem, readers = {}, writers = {}\<rparr> (?s 1 [])"
    using read_granted [of 1 "\<lparr>rw_sem = init_rwsem, readers = {}, writers = {}\<rparr>" "\<lparr>activity = 1, rw_wait_list = []\<rparr>"]
    by (simp add: idle_def init_rwsem_def down_read_def)
  have 2: "rw_step (?s 1 []) (?s 1 [(2, RWSEM_WAITING_FOR_WRITE)])"
    using write_wait [of 2 "?s 1 []" "\<lparr>activity = 1, rw_wait_list = [(2, RWSEM_WAITING_FOR_WRITE)]\<rparr>"]
    by (simp add: idle_def down_write_def)
  have 3: "rw_step (?s 1 [(2, RWSEM_WAITING_FOR_WRITE)]) rw_example"
    using read_wait [of 3 "?s 1 [(2, RWSEM_WAITING_FOR_WRITE)]"]
    by (simp add: idle_def down_read_def rw_example_def)
  have "reachable rw_start rw_step \<lparr>rw_sem = init_rwsem, readers = {}, writers = {}\<rparr>"
    by (rule reach_start) (simp add: rw_start_def)
  from reach_step [OF reach_step [OF reach_step [OF this 1] 2] 3] show ?thesis .
qed

definition rw_handed_over :: rw_system where
  "rw_handed_over = \<lparr>rw_sem = \<lparr>activity = - 1, rw_wait_list = [(3, RWSEM_WAITING_FOR_READ)]\<rparr>, readers = {}, writers = {2}\<rparr>"

lemma rw_example_release: "rw_step rw_example rw_handed_over"
  using read_release [of 1 rw_example]
  by (simp add: rw_example_def rw_handed_over_def granted_def up_read_def rwsem_wake_one_writer_def waiting_for_def
      Let_def insert_Diff_if)

theorem rwsem_fifo_witness:
  "\<exists>k new. queue rw_example = [2, 3] \<and> queue rw_handed_over = drop k [2, 3] @ new \<and> length new \<le> 1 \<and>
     {2 :: task} = set (take k [2, 3])"
  using rwsem_fifo [OF rw_example_reachable rw_example_release]
  by (simp add: rw_example_def rw_handed_over_def queue_def)

text \<open>C12: a counting semaphore loses no unit: what is left plus what was handed out equals the
  initial value plus the releases, in the arithmetic of its counter; and no task waits while a
  unit is left.\<close>

theorem semaphore_conserves_units:
  assumes "reachable sem_start sem_step s"
  shows "sem_count (the_sem s) + of_nat (acquired s) + of_nat (length (sem_up (the_sem s))) =
      initial s + of_nat (released s) \<and>
    (sem_wait_list (the_sem s) \<noteq> [] \<longrightarrow> sem_count (the_sem s) = 0)"
  using sem.reachable_inv [OF assms] by (auto simp: sem_inv_def)

text \<open>A semaphore with one unit, taken by task 7, for which task 8 waits.\<close>

definition sem_example :: sem_system where
  "sem_example = \<lparr>the_sem = \<lparr>sem_count = 0, sem_wait_list = [8], sem_up = []\<rparr>, acquired = 1, released = 0, initial = 1\<rparr>"

lemma sem_example_reachable: "reachable sem_start sem_step sem_example"
proof -
  let ?s = "\<lambda>n q k. \<lparr>the_sem = \<lparr>sem_count = n, sem_wait_list = q, sem_up = []\<rparr>, acquired = k, released = 0, initial = 1\<rparr>"
  have 1: "sem_step (?s 1 [] 0) (?s 0 [] 1)"
    using down_fast [of 7 "?s 1 [] 0"] by (simp add: sem_down_def)
  have 2: "sem_step (?s 0 [] 1) sem_example"
    using down_wait [of 8 "?s 0 [] 1"] by (simp add: sem_down_def sem_example_def)
  have "reachable sem_start sem_step (?s 1 [] 0)"
    by (rule reach_start) (simp add: sem_start_def sema_init_def)
  from reach_step [OF reach_step [OF this 1] 2] show ?thesis .
qed

theorem semaphore_conserves_units_witness:
  "sem_wait_list (the_sem sem_example) = [8] \<and> sem_count (the_sem sem_example) = 0 \<and>
   sem_count (the_sem sem_example) + of_nat (acquired sem_example) + of_nat (length (sem_up (the_sem sem_example))) =
     initial sem_example + of_nat (released sem_example)"
proof -
  have "sem_wait_list (the_sem sem_example) = [8]" by (simp add: sem_example_def)
  then show ?thesis using semaphore_conserves_units [OF sem_example_reachable] by auto
qed

lemma nonneg_word_iff: "0 \<le>s (w :: u32) \<longleftrightarrow> uint w < 2 ^ 31"
proof -
  have "uint w div 2 ^ 31 \<in> {0, 1}"
    using uint_bounded [of w] by auto
  then have "bit (uint w) 31 \<longleftrightarrow> \<not> uint w < 2 ^ 31"
    by (auto simp: bit_iff_odd)
  then show ?thesis by (simp add: word_sle_eq sint_uint)
qed

text \<open>\<^verbatim>\<open>down_trylock\<close> takes a unit exactly when there is one and the counter is at most
  \<^verbatim>\<open>INT_MAX + 1\<close>; beyond that the signed difference is negative and it reports failure, whereas
  \<^verbatim>\<open>down\<close> succeeds.\<close>

theorem down_trylock_range:
  "down_trylock sem =
     (if 0 < sem_count sem \<and> sem_count sem \<le> 2 ^ 31
      then (fst (sem_down t sem), False) else (sem, True))"
proof -
  have "0 \<le>s sem_count sem - 1 \<longleftrightarrow> 0 < sem_count sem \<and> sem_count sem \<le> 2 ^ 31"
  proof (cases "sem_count sem = 0")
    case False
    then have "uint (sem_count sem - 1) = uint (sem_count sem) - 1"
      by (metis uint_minus_simple_alt word_less_1 linorder_not_less uint_1 word_le_def)
    then show ?thesis
      using False by (auto simp: nonneg_word_iff word_gt_0 word_le_def)
  qed (simp add: word_sle_eq)
  then show ?thesis by (auto simp: down_trylock_def sem_down_def)
qed

end
