(* ===== verification/File_Lock.thy ===== *)
theory File_Lock
  imports Kernel_Prelude
begin

text \<open>
  File locks, after \<^verbatim>\<open>fs/locks.c\<close>: the lock structures, the chain of locks of every inode, the
  requests that wait for a lock, and the operations on byte ranges (\<^verbatim>\<open>__posix_lock_file\<close>,
  \<^verbatim>\<open>posix_test_lock\<close>, \<^verbatim>\<open>posix_locks_deadlock\<close>). The state holds the structures by address, so the
  aliasing of a request, a lock in a chain and a waiter is explicit. Everything here runs under
  the one spinlock \<^verbatim>\<open>file_lock_lock\<close>.
\<close>

section \<open>Locks and constants\<close>

definition F_RDLCK :: u8 where "F_RDLCK = 0"
definition F_WRLCK :: u8 where "F_WRLCK = 1"
definition F_UNLCK :: u8 where "F_UNLCK = 2"
definition F_INPROGRESS :: u8 where "F_INPROGRESS = 16"
definition LOCK_MAND :: u8 where "LOCK_MAND = 32"
definition LOCK_READ :: u8 where "LOCK_READ = 64"
definition LOCK_WRITE :: u8 where "LOCK_WRITE = 128"

definition FL_POSIX :: u8 where "FL_POSIX = 1"
definition FL_FLOCK :: u8 where "FL_FLOCK = 2"
definition FL_ACCESS :: u8 where "FL_ACCESS = 8"
definition FL_EXISTS :: u8 where "FL_EXISTS = 16"
definition FL_LEASE :: u8 where "FL_LEASE = 32"
definition FL_CLOSE :: u8 where "FL_CLOSE = 64"
definition FL_SLEEP :: u8 where "FL_SLEEP = 128"

definition OFFSET_MAX :: int where "OFFSET_MAX = 2 ^ 63 - 1"
definition OFFT_OFFSET_MAX :: int where "OFFT_OFFSET_MAX = 2 ^ 31 - 1"

lemmas lock_consts = F_RDLCK_def F_WRLCK_def F_UNLCK_def F_INPROGRESS_def LOCK_MAND_def LOCK_READ_def
  LOCK_WRITE_def FL_POSIX_def FL_FLOCK_def FL_ACCESS_def FL_EXISTS_def FL_LEASE_def FL_CLOSE_def FL_SLEEP_def

text \<open>
  The lock managers of the tree. Only the NFS lock daemon has its own comparison of owners.
\<close>

datatype lock_manager = nlmsvc_lock_operations | nfsd_posix_mng_ops | lease_manager_ops | nfsd_lease_mng_ops

type_synonym addr = nat
type_synonym inode_nr = nat
type_synonym lock_file = nat

text \<open>
  Owners are compared by address; locks are owned by the table of open files of a process, by a
  host of the lock daemon or by an NFSv4 state owner, which are different objects.
\<close>

datatype fl_owner_t = Null_owner | Files nat | Nlm_host nat | Nfs4_stateowner nat

text \<open>
  \<^verbatim>\<open>struct file_lock\<close> without its list links, which are part of the state below. Offsets are
  integers: they stay within \<^verbatim>\<open>0 .. OFFSET_MAX\<close>, so the 64-bit arithmetic on them is exact.
\<close>

record file_lock =
  fl_owner :: fl_owner_t
  fl_flags :: u8
  fl_type :: u8
  fl_pid :: u32
  fl_nspid :: "u32 option"
  fl_file :: "lock_file option"
  fl_start :: int
  fl_end :: int
  fl_break_time :: u32
  fl_lmops :: "lock_manager option"

definition IS_POSIX :: "file_lock \<Rightarrow> bool" where "IS_POSIX fl \<longleftrightarrow> fl_flags fl AND FL_POSIX \<noteq> 0"
definition IS_FLOCK :: "file_lock \<Rightarrow> bool" where "IS_FLOCK fl \<longleftrightarrow> fl_flags fl AND FL_FLOCK \<noteq> 0"
definition IS_LEASE :: "file_lock \<Rightarrow> bool" where "IS_LEASE fl \<longleftrightarrow> fl_flags fl AND FL_LEASE \<noteq> 0"

text \<open>Whether a flag of the request is set.\<close>

definition has_flag :: "file_lock \<Rightarrow> u8 \<Rightarrow> bool" where "has_flag fl f \<longleftrightarrow> fl_flags fl AND f \<noteq> 0"

text \<open>
  A structure as an allocation or the initialisation on the stack leaves it. Two fields here are not assigned by the
  function itself: \<^verbatim>\<open>fl_lmops\<close> is null from the constructor of the slab cache, and again from the release path, and
  \<^verbatim>\<open>fl_break_time\<close> keeps an old value, which is only read for a lease that is being broken, after the break has set it.
\<close>

definition locks_init_lock_always :: file_lock where
  "locks_init_lock_always =
     \<lparr>fl_owner = Null_owner, fl_flags = 0, fl_type = 0, fl_pid = 0, fl_nspid = None, fl_file = None,
      fl_start = 0, fl_end = 0, fl_break_time = 0, fl_lmops = None\<rparr>"

definition copy_lock_fields :: "file_lock \<Rightarrow> file_lock \<Rightarrow> file_lock" where
  "copy_lock_fields new fl = new\<lparr>fl_owner := fl_owner fl, fl_pid := fl_pid fl, fl_file := None,
     fl_flags := fl_flags fl, fl_type := fl_type fl, fl_start := fl_start fl, fl_end := fl_end fl,
     fl_lmops := None\<rparr>"

definition locks_copy_lock :: "file_lock \<Rightarrow> file_lock \<Rightarrow> file_lock" where
  "locks_copy_lock new fl =
     (copy_lock_fields new fl)\<lparr>fl_file := fl_file fl, fl_lmops := fl_lmops fl\<rparr>"

section \<open>Comparing locks\<close>

definition locks_overlap :: "file_lock \<Rightarrow> file_lock \<Rightarrow> bool" where
  "locks_overlap fl1 fl2 \<longleftrightarrow> fl_end fl1 \<ge> fl_start fl2 \<and> fl_end fl2 \<ge> fl_start fl1"

definition nlmsvc_same_owner :: "file_lock \<Rightarrow> file_lock \<Rightarrow> bool" where
  "nlmsvc_same_owner fl1 fl2 \<longleftrightarrow> fl_owner fl1 = fl_owner fl2 \<and> fl_pid fl1 = fl_pid fl2"

definition fl_compare_owner :: "lock_manager \<Rightarrow> (file_lock \<Rightarrow> file_lock \<Rightarrow> bool) option" where
  "fl_compare_owner lm = (case lm of nlmsvc_lock_operations \<Rightarrow> Some nlmsvc_same_owner | _ \<Rightarrow> None)"

definition posix_same_owner :: "file_lock \<Rightarrow> file_lock \<Rightarrow> bool" where
  "posix_same_owner fl1 fl2 =
     (case Option.bind (fl_lmops fl1) fl_compare_owner of
        Some cmp \<Rightarrow> fl_lmops fl2 = fl_lmops fl1 \<and> cmp fl1 fl2
      | None \<Rightarrow> fl_owner fl1 = fl_owner fl2)"

definition locks_conflict :: "file_lock \<Rightarrow> file_lock \<Rightarrow> bool" where
  "locks_conflict caller_fl sys_fl \<longleftrightarrow> fl_type sys_fl = F_WRLCK \<or> fl_type caller_fl = F_WRLCK"

definition posix_locks_conflict :: "file_lock \<Rightarrow> file_lock \<Rightarrow> bool" where
  "posix_locks_conflict caller_fl sys_fl =
     (if \<not> IS_POSIX sys_fl \<or> posix_same_owner caller_fl sys_fl then False
      else if \<not> locks_overlap caller_fl sys_fl then False
      else locks_conflict caller_fl sys_fl)"

definition flock_locks_conflict :: "file_lock \<Rightarrow> file_lock \<Rightarrow> bool" where
  "flock_locks_conflict caller_fl sys_fl =
     (if \<not> IS_FLOCK sys_fl \<or> fl_file caller_fl = fl_file sys_fl then False
      else if fl_type caller_fl AND LOCK_MAND \<noteq> 0 \<or> fl_type sys_fl AND LOCK_MAND \<noteq> 0 then False
      else locks_conflict caller_fl sys_fl)"

section \<open>The lists of locks\<close>

text \<open>
  The state behind \<^verbatim>\<open>file_lock_lock\<close>: the lock structures by address, the chain of \<^verbatim>\<open>fl_next\<close>
  pointers from each \<^verbatim>\<open>inode->i_flock\<close>, the two global lists, the requests blocked on a lock
  (\<^verbatim>\<open>fl_block\<close>), the lock a request waits for (its \<^verbatim>\<open>fl_next\<close>), and the requests that were
  woken, in order. A position \<^verbatim>\<open>before\<close> in a chain is the number of locks in front of it.
\<close>

record lock_state =
  mem :: "addr \<Rightarrow> file_lock"
  i_flock :: "inode_nr \<Rightarrow> addr list"
  file_lock_list :: "addr list"
  blocked_list :: "addr list"
  fl_block :: "addr \<Rightarrow> addr list"
  waits_on :: "addr \<Rightarrow> addr option"
  woken :: "addr list"

definition locks_alloc_lock :: "addr option \<Rightarrow> lock_state \<Rightarrow> lock_state" where
  "locks_alloc_lock new st =
     (case new of None \<Rightarrow> st | Some a \<Rightarrow> st\<lparr>mem := (mem st)(a := locks_init_lock_always)\<rparr>)"

definition locks_delete_block :: "addr \<Rightarrow> lock_state \<Rightarrow> lock_state" where
  "locks_delete_block waiter st =
     st\<lparr>fl_block := (\<lambda>a. removeAll waiter (fl_block st a)),
        blocked_list := removeAll waiter (blocked_list st),
        waits_on := (waits_on st)(waiter := None)\<rparr>"

definition locks_insert_block :: "addr \<Rightarrow> addr \<Rightarrow> lock_state \<Rightarrow> lock_state" where
  "locks_insert_block blocker waiter st =
     st\<lparr>fl_block := (fl_block st)(blocker := fl_block st blocker @ [waiter]),
        waits_on := (waits_on st)(waiter := Some blocker),
        blocked_list := (if IS_POSIX (mem st blocker) then waiter # blocked_list st else blocked_list st)\<rparr>"

function locks_wake_up_blocks :: "addr \<Rightarrow> lock_state \<Rightarrow> lock_state" where
  "locks_wake_up_blocks blocker st =
     (case fl_block st blocker of
        [] \<Rightarrow> st
      | waiter # _ \<Rightarrow>
          locks_wake_up_blocks blocker
            ((locks_delete_block waiter st)\<lparr>woken := woken st @ [waiter]\<rparr>))"
  by pat_completeness auto
termination
  by (relation "measure (\<lambda>(blocker, st). length (fl_block st blocker))")
    (auto simp: locks_delete_block_def le_imp_less_Suc)

declare locks_wake_up_blocks.simps [simp del]

definition insert_at :: "nat \<Rightarrow> 'a \<Rightarrow> 'a list \<Rightarrow> 'a list" where
  "insert_at n x xs = take n xs @ x # drop n xs"

definition delete_at :: "nat \<Rightarrow> 'a list \<Rightarrow> 'a list" where
  "delete_at n xs = take n xs @ drop (Suc n) xs"

definition locks_insert_lock :: "inode_nr \<Rightarrow> u32 \<Rightarrow> nat \<Rightarrow> addr \<Rightarrow> lock_state \<Rightarrow> lock_state" where
  "locks_insert_lock ino tgid pos fl st =
     st\<lparr>file_lock_list := fl # file_lock_list st,
        mem := (mem st)(fl := (mem st fl)\<lparr>fl_nspid := Some tgid\<rparr>),
        i_flock := (i_flock st)(ino := insert_at pos fl (i_flock st ino))\<rparr>"

definition locks_delete_lock :: "inode_nr \<Rightarrow> nat \<Rightarrow> lock_state \<Rightarrow> lock_state" where
  "locks_delete_lock ino pos st =
     (let fl = i_flock st ino ! pos;
          st = st\<lparr>i_flock := (i_flock st)(ino := delete_at pos (i_flock st ino)),
                  file_lock_list := removeAll fl (file_lock_list st),
                  mem := (mem st)(fl := (mem st fl)\<lparr>fl_nspid := None\<rparr>)\<rparr>
      in locks_wake_up_blocks fl st)"

section \<open>Deadlock detection\<close>

definition MAX_DEADLK_ITERATIONS :: nat where "MAX_DEADLK_ITERATIONS = 10"

definition what_owner_is_waiting_for :: "lock_state \<Rightarrow> addr \<Rightarrow> addr option" where
  "what_owner_is_waiting_for st block_fl =
     (case find (\<lambda>fl. posix_same_owner (mem st fl) (mem st block_fl)) (blocked_list st) of
        None \<Rightarrow> None
      | Some fl \<Rightarrow> waits_on st fl)"

function deadlock_loop :: "lock_state \<Rightarrow> addr \<Rightarrow> nat \<Rightarrow> addr \<Rightarrow> bool" where
  "deadlock_loop st caller_fl i block_fl =
     (case what_owner_is_waiting_for st block_fl of
        None \<Rightarrow> False
      | Some block_fl' \<Rightarrow>
          if i > MAX_DEADLK_ITERATIONS then False
          else if posix_same_owner (mem st caller_fl) (mem st block_fl') then True
          else deadlock_loop st caller_fl (i + 1) block_fl')"
  by pat_completeness auto
termination
  by (relation "measure (\<lambda>(st, c, i, b). MAX_DEADLK_ITERATIONS + 1 - i)") auto

declare deadlock_loop.simps [simp del]

definition posix_locks_deadlock :: "lock_state \<Rightarrow> addr \<Rightarrow> addr \<Rightarrow> bool" where
  "posix_locks_deadlock st caller_fl block_fl = deadlock_loop st caller_fl 0 block_fl"

section \<open>Frame lemmas of the list operations\<close>

named_theorems lock_frame

lemma delete_block_frame [lock_frame]:
  "mem (locks_delete_block w st) = mem st" "i_flock (locks_delete_block w st) = i_flock st"
  "file_lock_list (locks_delete_block w st) = file_lock_list st"
  by (simp_all add: locks_delete_block_def)

lemma insert_block_frame [lock_frame]:
  "mem (locks_insert_block b w st) = mem st" "i_flock (locks_insert_block b w st) = i_flock st"
  "file_lock_list (locks_insert_block b w st) = file_lock_list st"
  by (simp_all add: locks_insert_block_def)

lemma wake_frame [lock_frame]:
  "mem (locks_wake_up_blocks b st) = mem st" "i_flock (locks_wake_up_blocks b st) = i_flock st"
  "file_lock_list (locks_wake_up_blocks b st) = file_lock_list st"
  by (induction b st rule: locks_wake_up_blocks.induct)
    (subst locks_wake_up_blocks.simps, simp add: lock_frame split: list.split)+

text \<open>Waking empties the list of the blocker and leaves every other request as it was.\<close>

lemma wake_up_blocks_spec:
  "fl_block (locks_wake_up_blocks b st) = (\<lambda>a. filter (\<lambda>w. w \<notin> set (fl_block st b)) (fl_block st a)) \<and>
   blocked_list (locks_wake_up_blocks b st) = filter (\<lambda>w. w \<notin> set (fl_block st b)) (blocked_list st) \<and>
   waits_on (locks_wake_up_blocks b st) = (\<lambda>w. if w \<in> set (fl_block st b) then None else waits_on st w)"
proof (induction b st rule: locks_wake_up_blocks.induct)
  case (1 b st)
  show ?case
  proof (cases "fl_block st b")
    case Nil
    then show ?thesis by (subst (1 2 3) locks_wake_up_blocks.simps) simp
  next
    case (Cons w ws)
    have *: "(\<lambda>x. x \<notin> set (removeAll w ws)) = (\<lambda>x. x \<notin> set ws \<or> x = w)"
      by auto
    show ?thesis
      using 1 [OF Cons] Cons
      by (subst (1 2 3) locks_wake_up_blocks.simps)
        (auto simp: locks_delete_block_def removeAll_filter_not_eq fun_eq_iff intro!: filter_cong)
  qed
qed

lemma delete_lock_frame [lock_frame]:
  "i_flock (locks_delete_lock ino n st) = (i_flock st)(ino := delete_at n (i_flock st ino))"
  "mem (locks_delete_lock ino n st) =
     (mem st)(i_flock st ino ! n := (mem st (i_flock st ino ! n))\<lparr>fl_nspid := None\<rparr>)"
  by (simp_all add: locks_delete_lock_def Let_def lock_frame)

lemma insert_lock_frame [lock_frame]:
  "i_flock (locks_insert_lock ino tgid n a st) = (i_flock st)(ino := insert_at n a (i_flock st ino))"
  "mem (locks_insert_lock ino tgid n a st) = (mem st)(a := (mem st a)\<lparr>fl_nspid := Some tgid\<rparr>)"
  by (simp_all add: locks_insert_lock_def)

lemma length_delete_at: "n < length xs \<Longrightarrow> length (delete_at n xs) = length xs - 1"
  by (simp add: delete_at_def)

lemma delete_at_append [simp]: "delete_at (length xs) (xs @ x # ys) = xs @ ys"
  by (simp add: delete_at_def)

lemma insert_at_append [simp]: "insert_at (length xs) x (xs @ ys) = xs @ x # ys"
  by (simp add: insert_at_def)

section \<open>Locking a range\<close>

datatype lock_result = Lock_Ok | FILE_LOCK_DEFERRED | Lock_Error errno

definition upd_lock :: "addr \<Rightarrow> (file_lock \<Rightarrow> file_lock) \<Rightarrow> lock_state \<Rightarrow> lock_state" where
  "upd_lock a f st = st\<lparr>mem := (mem st)(a := f (mem st a))\<rparr>"

definition posix_conflict :: "lock_state \<Rightarrow> inode_nr \<Rightarrow> addr \<Rightarrow> addr option" where
  "posix_conflict st ino request =
     find (\<lambda>fl. IS_POSIX (mem st fl) \<and> posix_locks_conflict (mem st request) (mem st fl)) (i_flock st ino)"

text \<open>Making one lock of two that overlap or touch: both get the union of the ranges.\<close>

definition merge_locks :: "addr \<Rightarrow> addr \<Rightarrow> lock_state \<Rightarrow> lock_state" where
  "merge_locks fl request st =
     (let st = (if fl_start (mem st fl) > fl_start (mem st request)
                then upd_lock fl (\<lambda>f. f\<lparr>fl_start := fl_start (mem st request)\<rparr>) st
                else upd_lock request (\<lambda>r. r\<lparr>fl_start := fl_start (mem st fl)\<rparr>) st)
      in if fl_end (mem st fl) < fl_end (mem st request)
         then upd_lock fl (\<lambda>f. f\<lparr>fl_end := fl_end (mem st request)\<rparr>) st
         else upd_lock request (\<lambda>r. r\<lparr>fl_end := fl_end (mem st fl)\<rparr>) st)"

text \<open>An old lock of another type that lies within the request becomes the requested one.\<close>

definition replace_lock :: "addr \<Rightarrow> addr \<Rightarrow> lock_state \<Rightarrow> lock_state" where
  "replace_lock fl request st =
     (let st = locks_wake_up_blocks fl st in
      upd_lock fl (\<lambda>f. f\<lparr>fl_start := fl_start (mem st request), fl_end := fl_end (mem st request),
        fl_type := fl_type (mem st request), fl_lmops := fl_lmops (mem st request)\<rparr>) st)"

lemma upd_lock_frame [lock_frame]:
  "i_flock (upd_lock a f st) = i_flock st" "mem (upd_lock a f st) = (mem st)(a := f (mem st a))"
  by (simp_all add: upd_lock_def)

lemma merge_replace_i_flock [lock_frame]:
  "i_flock (merge_locks fl r st) = i_flock st" "i_flock (replace_lock fl r st) = i_flock st"
  by (simp_all add: merge_locks_def replace_lock_def Let_def lock_frame)

text \<open>
  The loop over the locks of the requesting owner, from position \<open>before\<close>. It returns what the
  code after it uses: the state and the variables \<open>before\<close>, \<open>request\<close>, \<open>added\<close>, \<open>left\<close> and \<open>right\<close>.
\<close>

type_synonym posix_vars = "lock_state \<times> nat \<times> addr \<times> bool \<times> addr option \<times> addr option"

function posix_owner_loop ::
  "inode_nr \<Rightarrow> lock_state \<Rightarrow> nat \<Rightarrow> addr \<Rightarrow> bool \<Rightarrow> addr option \<Rightarrow> addr option \<Rightarrow> posix_vars" where
  "posix_owner_loop ino st before request added left right =
     (if before < length (i_flock st ino) \<and>
         posix_same_owner (mem st request) (mem st (i_flock st ino ! before))
      then
        let fl = i_flock st ino ! before; f = mem st fl; r = mem st request in
        if fl_type r = fl_type f then
          if fl_end f < fl_start r - 1
          then posix_owner_loop ino st (before + 1) request added left right
          else if fl_start f - 1 > fl_end r then (st, before, request, added, left, right)
          else let st = merge_locks fl request st in
            if added
            then posix_owner_loop ino (locks_delete_lock ino before st) before request added left right
            else posix_owner_loop ino st (before + 1) fl True left right
        else
          if fl_end f < fl_start r
          then posix_owner_loop ino st (before + 1) request added left right
          else if fl_start f > fl_end r then (st, before, request, added, left, right)
          else
            let added = (if fl_type r = F_UNLCK then True else added);
                left = (if fl_start f < fl_start r then Some fl else left)
            in if fl_end f > fl_end r then (st, before, request, added, left, Some fl)
               else if fl_start f \<ge> fl_start r then
                 if added
                 then posix_owner_loop ino (locks_delete_lock ino before st) before request added left right
                 else posix_owner_loop ino (replace_lock fl request st) (before + 1) fl True left right
               else posix_owner_loop ino st (before + 1) request added left right
      else (st, before, request, added, left, right))"
  by pat_completeness auto
termination
  by (relation "measure (\<lambda>(ino, st, before, _). length (i_flock st ino) - before)")
    (auto simp: lock_frame length_delete_at)

declare posix_owner_loop.simps [simp del]

text \<open>What follows the loop: inserting the new lock, splitting and trimming the old ones.\<close>

definition posix_split :: "inode_nr \<Rightarrow> u32 \<Rightarrow> addr \<Rightarrow> nat \<Rightarrow> addr \<Rightarrow> addr option \<Rightarrow> addr option \<Rightarrow>
    lock_state \<Rightarrow> lock_state" where
  "posix_split ino tgid new_fl2 before request left right st =
     (let (st, left) =
        (case right of
           None \<Rightarrow> (st, left)
         | Some r \<Rightarrow>
             let (st, left) =
               (if left = right
                then (locks_insert_lock ino tgid before new_fl2
                        (upd_lock new_fl2 (\<lambda>l. locks_copy_lock l (mem st r)) st), Some new_fl2)
                else (st, left))
             in (locks_wake_up_blocks r
                   (upd_lock r (\<lambda>f. f\<lparr>fl_start := fl_end (mem st request) + 1\<rparr>) st), left))
      in case left of
           None \<Rightarrow> st
         | Some l \<Rightarrow>
             locks_wake_up_blocks l (upd_lock l (\<lambda>f. f\<lparr>fl_end := fl_start (mem st request) - 1\<rparr>) st))"

definition posix_apply :: "inode_nr \<Rightarrow> u32 \<Rightarrow> addr option \<Rightarrow> addr option \<Rightarrow> posix_vars \<Rightarrow>
    lock_state \<times> lock_result" where
  "posix_apply ino tgid new_fl new_fl2 vars =
     (let (st, before, request, added, left, right) = vars; r = mem st request in
      if right \<noteq> None \<and> left = right \<and> new_fl2 = None then (st, Lock_Error ENOLCK)
      else if \<not> added \<and> fl_type r = F_UNLCK
      then (st, if has_flag r FL_EXISTS then Lock_Error ENOENT else Lock_Ok)
      else if \<not> added \<and> new_fl = None then (st, Lock_Error ENOLCK)
      else
        let st = (if added then st
                  else locks_insert_lock ino tgid before (the new_fl)
                         (upd_lock (the new_fl) (\<lambda>l. locks_copy_lock l r) st))
        in (posix_split ino tgid (the new_fl2) before request left right st, Lock_Ok))"

text \<open>
  \<^verbatim>\<open>__posix_lock_file\<close>. The results of the two allocations are arguments, and so is the process
  group of the caller; \<open>conflock\<close> is where a conflicting lock is reported, if the caller asks.
\<close>

definition posix_lock_file_conf ::
  "inode_nr \<Rightarrow> u32 \<Rightarrow> addr \<Rightarrow> addr option \<Rightarrow> addr option \<Rightarrow> file_lock option \<Rightarrow> lock_state \<Rightarrow>
   lock_state \<times> file_lock option \<times> lock_result" where
  "posix_lock_file_conf ino tgid request alloc1 alloc2 conflock st =
     (let r = mem st request;
          need = (\<not> has_flag r FL_ACCESS \<and>
                  (fl_type r \<noteq> F_UNLCK \<or> fl_start r \<noteq> 0 \<or> fl_end r \<noteq> OFFSET_MAX));
          new_fl = (if need then alloc1 else None);
          new_fl2 = (if need then alloc2 else None);
          st = locks_alloc_lock new_fl2 (locks_alloc_lock new_fl st)
      in case (if fl_type r \<noteq> F_UNLCK then posix_conflict st ino request else None) of
           Some fl \<Rightarrow>
             let conflock = map_option (\<lambda>c. copy_lock_fields c (mem st fl)) conflock in
             if \<not> has_flag r FL_SLEEP then (st, conflock, Lock_Error EAGAIN)
             else if posix_locks_deadlock st request fl then (st, conflock, Lock_Error EDEADLK)
             else (locks_insert_block fl request st, conflock, FILE_LOCK_DEFERRED)
         | None \<Rightarrow>
             if has_flag r FL_ACCESS then (st, conflock, Lock_Ok)
             else
               let before = length (takeWhile (\<lambda>fl. \<not> IS_POSIX (mem st fl) \<or>
                     \<not> posix_same_owner r (mem st fl)) (i_flock st ino));
                   (st, res) = posix_apply ino tgid new_fl new_fl2
                     (posix_owner_loop ino st before request False None None)
               in (st, conflock, res))"

definition posix_lock_file ::
  "inode_nr \<Rightarrow> u32 \<Rightarrow> addr \<Rightarrow> addr option \<Rightarrow> addr option \<Rightarrow> lock_state \<Rightarrow> lock_state \<times> lock_result" where
  "posix_lock_file ino tgid request alloc1 alloc2 st =
     (let (st', _, res) = posix_lock_file_conf ino tgid request alloc1 alloc2 None st in (st', res))"

definition posix_test_lock :: "inode_nr \<Rightarrow> file_lock \<Rightarrow> lock_state \<Rightarrow> file_lock" where
  "posix_test_lock ino fl st =
     (case find (\<lambda>cfl. IS_POSIX (mem st cfl) \<and> posix_locks_conflict fl (mem st cfl)) (i_flock st ino) of
        Some cfl \<Rightarrow>
          let fl = copy_lock_fields fl (mem st cfl) in
          (case fl_nspid (mem st cfl) of None \<Rightarrow> fl | Some pid \<Rightarrow> fl\<lparr>fl_pid := pid\<rparr>)
      | None \<Rightarrow> fl\<lparr>fl_type := F_UNLCK\<rparr>)"

definition posix_unblock_lock :: "addr \<Rightarrow> lock_state \<Rightarrow> lock_state \<times> lock_result" where
  "posix_unblock_lock waiter st =
     (if waits_on st waiter \<noteq> None then (locks_delete_block waiter st, Lock_Ok)
      else (st, Lock_Error ENOENT))"

end
