(* ===== verification/Posix_Lock.thy ===== *)
theory Posix_Lock
  imports File_Lock
begin

text \<open>
  Byte-range locks: \<^verbatim>\<open>__posix_lock_file\<close> keeps the chains well-formed (the locks of an owner are
  adjacent, disjoint, sorted and merged) and refines an update of an abstract table that gives the
  type of the lock of every owner on every byte. The proof follows the code: the locks of the
  owner that lie below the request are passed, those that touch it are merged into it or removed,
  and what remains of the first and the last one is trimmed or split off.
\<close>

section \<open>Owners and well-formed locks\<close>

text \<open>The lock daemon marks its locks, and only its locks are owned by its hosts. A POSIX lock is of no other kind.\<close>

definition owner_ok :: "file_lock \<Rightarrow> bool" where
  "owner_ok fl \<longleftrightarrow> \<not> IS_LEASE fl \<and> \<not> IS_FLOCK fl \<and>
     (fl_lmops fl = Some nlmsvc_lock_operations \<longleftrightarrow> (\<exists>h. fl_owner fl = Nlm_host h))"

type_synonym lock_owner = "fl_owner_t \<times> u32"

definition lock_owner :: "file_lock \<Rightarrow> lock_owner" where
  "lock_owner fl = (case fl_owner fl of Nlm_host h \<Rightarrow> (Nlm_host h, fl_pid fl) | own \<Rightarrow> (own, 0))"

lemma owner_update [simp]:
  "lock_owner (f\<lparr>fl_start := x\<rparr>) = lock_owner f" "lock_owner (f\<lparr>fl_end := x\<rparr>) = lock_owner f"
  "lock_owner (f\<lparr>fl_nspid := p\<rparr>) = lock_owner f" "lock_owner (f\<lparr>fl_type := t\<rparr>) = lock_owner f"
  "lock_owner (f\<lparr>fl_lmops := l\<rparr>) = lock_owner f"
  "owner_ok (f\<lparr>fl_start := x\<rparr>) = owner_ok f" "owner_ok (f\<lparr>fl_end := x\<rparr>) = owner_ok f"
  "owner_ok (f\<lparr>fl_nspid := p\<rparr>) = owner_ok f" "owner_ok (f\<lparr>fl_type := t\<rparr>) = owner_ok f"
  by (simp_all add: lock_owner_def owner_ok_def IS_LEASE_def IS_FLOCK_def cong: fl_owner_t.case_cong)

lemma compare_owner_bind:
  "Option.bind lm fl_compare_owner =
     (if lm = Some nlmsvc_lock_operations then Some nlmsvc_same_owner else None)"
  by (cases lm) (auto simp: fl_compare_owner_def split: lock_manager.split)

lemma posix_same_owner_iff:
  "owner_ok a \<Longrightarrow> owner_ok b \<Longrightarrow> posix_same_owner a b \<longleftrightarrow> lock_owner a = lock_owner b"
  by (auto simp: posix_same_owner_def owner_ok_def lock_owner_def compare_owner_bind nlmsvc_same_owner_def
      split: fl_owner_t.splits)

definition range_ok :: "file_lock \<Rightarrow> bool" where
  "range_ok fl \<longleftrightarrow> 0 \<le> fl_start fl \<and> fl_start fl \<le> fl_end fl \<and> fl_end fl \<le> OFFSET_MAX"

definition posix_ok :: "file_lock \<Rightarrow> bool" where
  "posix_ok fl \<longleftrightarrow> IS_POSIX fl \<and> owner_ok fl \<and> range_ok fl \<and> fl_type fl \<in> {F_RDLCK, F_WRLCK}"

section \<open>The locks of one owner\<close>

text \<open>
  The locks of an owner on a file are in ascending order, do not overlap, and are merged: two
  locks of the same type do not even touch.
\<close>

definition apart :: "file_lock \<Rightarrow> file_lock \<Rightarrow> bool" where
  "apart a b \<longleftrightarrow> fl_end a < fl_start b \<and> (fl_type a = fl_type b \<longrightarrow> fl_end a + 1 < fl_start b)"

definition chain :: "file_lock list \<Rightarrow> bool" where
  "chain xs \<longleftrightarrow> sorted_wrt apart xs"

definition covers :: "file_lock \<Rightarrow> int \<Rightarrow> bool" where
  "covers f b \<longleftrightarrow> fl_start f \<le> b \<and> b \<le> fl_end f"

text \<open>The type of the lock on a byte.\<close>

definition type_at :: "file_lock list \<Rightarrow> int \<Rightarrow> u8 option" where
  "type_at xs b = map_option fl_type (find (\<lambda>f. covers f b) xs)"

lemma type_at_simps [simp]:
  "type_at [] b = None"
  "type_at (x # xs) b = (if covers x b then Some (fl_type x) else type_at xs b)"
  by (simp_all add: type_at_def)

lemma type_at_append:
  "type_at (xs @ ys) b = (case type_at xs b of None \<Rightarrow> type_at ys b | Some t \<Rightarrow> Some t)"
  by (induction xs) auto

lemma type_at_None: "type_at xs b = None \<longleftrightarrow> (\<forall>x\<in>set xs. \<not> covers x b)"
  by (induction xs) auto

lemma type_at_Some: "type_at xs b = Some t \<Longrightarrow> \<exists>x\<in>set xs. covers x b \<and> fl_type x = t"
  by (induction xs) (auto split: if_splits)

lemma chain_simps [simp]:
  "chain []" "chain (x # xs) \<longleftrightarrow> (\<forall>y\<in>set xs. apart x y) \<and> chain xs"
  by (simp_all add: chain_def)

lemma chain_append: "chain (xs @ ys) \<longleftrightarrow> chain xs \<and> chain ys \<and> (\<forall>x\<in>set xs. \<forall>y\<in>set ys. apart x y)"
  by (auto simp: chain_def sorted_wrt_append)

text \<open>In a chain every lock on a byte has the type that is found first.\<close>

lemma type_at_in_chain:
  "chain xs \<Longrightarrow> x \<in> set xs \<Longrightarrow> covers x b \<Longrightarrow> \<forall>y\<in>set xs. fl_start y \<le> fl_end y \<Longrightarrow>
   type_at xs b = Some (fl_type x)"
  by (induction xs) (fastforce simp: apart_def covers_def)+

text \<open>
  The locks of an owner before (\<open>G\<close>) and after (\<open>G'\<close>) the range \<open>s\<close> to \<open>e\<close> was given the type \<open>T\<close>.
\<close>

definition set_range :: "(int \<Rightarrow> u8 option) \<Rightarrow> u8 \<Rightarrow> int \<Rightarrow> int \<Rightarrow> (int \<Rightarrow> u8 option)" where
  "set_range f T s e = (\<lambda>b. if s \<le> b \<and> b \<le> e then (if T = F_UNLCK then None else Some T) else f b)"

text \<open>
  The new list is made of what lies left of the range, the lock for the range (which may have grown
  from \<open>s\<close> \<open>e\<close> to \<open>s'\<close> \<open>e'\<close> by merging) and what lies right of it.
\<close>

lemma set_range_assemble:
  assumes L: "chain L" "\<forall>x\<in>set L. fl_end x < s' \<and> (fl_type x = T \<longrightarrow> fl_end x + 1 < s')"
    and R: "chain R" "\<forall>x\<in>set R. e' < fl_start x \<and> (fl_type x = T \<longrightarrow> e' + 1 < fl_start x)"
    and M: "if T = F_UNLCK then M = [] \<and> s' = s \<and> e' = e
            else \<exists>m. M = [m] \<and> fl_type m = T \<and> fl_start m = s' \<and> fl_end m = e'"
    and range: "s' \<le> s" "s \<le> e" "e \<le> e'"
    and left: "\<And>b. b < s' \<Longrightarrow> type_at L b = type_at G b"
    and right: "\<And>b. e' < b \<Longrightarrow> type_at R b = type_at G b"
    and grown: "\<And>b. s' \<le> b \<Longrightarrow> b \<le> e' \<Longrightarrow> \<not> (s \<le> b \<and> b \<le> e) \<Longrightarrow> type_at G b = Some T"
    and ok: "\<forall>x\<in>set L \<union> set R. fl_start x \<le> fl_end x"
  shows "chain (L @ M @ R) \<and> type_at (L @ M @ R) = set_range (type_at G) T s e"
proof (intro conjI ext)
  show "chain (L @ M @ R)"
    using L R M range by (fastforce simp: chain_append apart_def split: if_splits)
next
  fix b
  have L_None: "s' \<le> b \<Longrightarrow> type_at L b = None" and R_None: "b \<le> e' \<Longrightarrow> type_at R b = None"
    using L(2) R(2) by (force simp: type_at_None covers_def)+
  consider "b < s'" | "e' < b" "s' \<le> b" | "s' \<le> b" "b \<le> e'" by linarith
  then show "type_at (L @ M @ R) b = set_range (type_at G) T s e b"
  proof cases
    case 1
    then show ?thesis
      using M range left [OF 1] R_None
      by (auto simp: set_range_def type_at_append covers_def split: option.split if_splits)
  next
    case 2
    then show ?thesis
      using M range right L_None
      by (auto simp: set_range_def type_at_append covers_def split: option.split if_splits)
  next
    case 3
    then show ?thesis
      using M range grown L_None R_None
      by (auto simp: set_range_def type_at_append covers_def split: option.split if_splits)
  qed
qed

section \<open>The loop over the locks of the owner\<close>

text \<open>Locks of the owner \<open>o'\<close>, and the end of its group in the chain.\<close>

definition own_group :: "lock_state \<Rightarrow> lock_owner \<Rightarrow> addr list \<Rightarrow> bool" where
  "own_group st o' G \<longleftrightarrow> (\<forall>g\<in>set G. posix_ok (mem st g) \<and> lock_owner (mem st g) = o')"

definition group_end :: "lock_state \<Rightarrow> lock_owner \<Rightarrow> addr list \<Rightarrow> bool" where
  "group_end st o' B \<longleftrightarrow> B = [] \<or> (owner_ok (mem st (hd B)) \<and> lock_owner (mem st (hd B)) \<noteq> o')"

definition requester :: "lock_state \<Rightarrow> lock_owner \<Rightarrow> addr \<Rightarrow> bool" where
  "requester st o' q \<longleftrightarrow> owner_ok (mem st q) \<and> lock_owner (mem st q) = o' \<and> range_ok (mem st q)"

lemma own_group_simps [simp]:
  "own_group st o' []"
  "own_group st o' (g # G) \<longleftrightarrow> posix_ok (mem st g) \<and> lock_owner (mem st g) = o' \<and> own_group st o' G"
  by (auto simp: own_group_def)

lemma own_group_cong:
  "own_group st o' G \<Longrightarrow> \<forall>a\<in>set G. mem st' a = mem st a \<Longrightarrow> own_group st' o' G"
  by (simp add: own_group_def)

lemma group_end_cong:
  "group_end st o' B \<Longrightarrow> \<forall>a\<in>set B. mem st' a = mem st a \<Longrightarrow> group_end st' o' B"
  by (auto simp: group_end_def)

lemma loop_stop:
  assumes "i_flock st ino = P @ B" "group_end st o' B" "requester st o' q"
  shows "posix_owner_loop ino st (length P) q added left right = (st, length P, q, added, left, right)"
  using assms
  by (subst posix_owner_loop.simps)
    (auto simp: group_end_def requester_def posix_same_owner_iff nth_append hd_conv_nth)

text \<open>One turn of the loop, at a lock \<open>g\<close> of the owner.\<close>

lemma loop_turn:
  assumes "i_flock st ino = P @ g # R" "requester st o' q" "posix_ok (mem st g)" "lock_owner (mem st g) = o'"
  shows "posix_owner_loop ino st (length P) q added left right =
    (let f = mem st g; r = mem st q in
     if fl_type r = fl_type f then
       if fl_end f < fl_start r - 1
       then posix_owner_loop ino st (length (P @ [g])) q added left right
       else if fl_start f - 1 > fl_end r then (st, length P, q, added, left, right)
       else if added
       then posix_owner_loop ino (locks_delete_lock ino (length P) (merge_locks g q st)) (length P) q added left right
       else posix_owner_loop ino (merge_locks g q st) (length (P @ [g])) g True left right
     else
       if fl_end f < fl_start r
       then posix_owner_loop ino st (length (P @ [g])) q added left right
       else if fl_start f > fl_end r then (st, length P, q, added, left, right)
       else
         let added = (if fl_type r = F_UNLCK then True else added);
             left = (if fl_start f < fl_start r then Some g else left)
         in if fl_end f > fl_end r then (st, length P, q, added, left, Some g)
            else if fl_start f \<ge> fl_start r then
              if added
              then posix_owner_loop ino (locks_delete_lock ino (length P) st) (length P) q added left right
              else posix_owner_loop ino (replace_lock g q st) (length (P @ [g])) g True left right
            else posix_owner_loop ino st (length (P @ [g])) q added left right)"
  using assms
  by (subst posix_owner_loop.simps)
    (simp add: requester_def posix_ok_def posix_same_owner_iff Let_def cong: if_cong)

text \<open>The locks that lie below the request, and do not touch it if they have its type, are passed.\<close>

definition low :: "file_lock \<Rightarrow> file_lock \<Rightarrow> bool" where
  "low r f \<longleftrightarrow> (if fl_type f = fl_type r then fl_end f < fl_start r - 1 else fl_end f < fl_start r)"

lemma loop_pass_low:
  assumes "i_flock st ino = P @ G @ R" "requester st o' q" "own_group st o' G"
    "\<forall>g\<in>set G. low (mem st q) (mem st g)"
  shows "posix_owner_loop ino st (length P) q added left right =
    posix_owner_loop ino st (length (P @ G)) q added left right"
  using assms
proof (induction G arbitrary: P)
  case (Cons g G)
  have "posix_owner_loop ino st (length P) q added left right =
      posix_owner_loop ino st (length (P @ [g])) q added left right"
    using Cons.prems by (subst loop_turn [of _ _ _ g "G @ R" o']) (auto simp: low_def Let_def split: if_splits)
  also have "\<dots> = posix_owner_loop ino st (length ((P @ [g]) @ G)) q added left right"
    by (rule Cons.IH) (use Cons.prems in auto)
  finally show ?case by simp
qed simp

text \<open>The locks above the range: none reaches into it, except \<open>right\<close>.\<close>

definition above :: "lock_state \<Rightarrow> u8 \<Rightarrow> int \<Rightarrow> addr option \<Rightarrow> addr list \<Rightarrow> bool" where
  "above st T e right G \<longleftrightarrow>
     (case right of
        None \<Rightarrow> \<forall>g\<in>set G. e < fl_start (mem st g) \<and> (fl_type (mem st g) = T \<longrightarrow> e + 1 < fl_start (mem st g))
      | Some r \<Rightarrow> (\<exists>G'. G = r # G') \<and> fl_type (mem st r) \<noteq> T \<and>
          fl_start (mem st r) \<le> e \<and> e < fl_end (mem st r))"

lemma above_None_head:
  assumes "chain (map (mem st) (g # G))" "posix_ok (mem st g)"
    "e < fl_start (mem st g)" "fl_type (mem st g) = T \<Longrightarrow> e + 1 < fl_start (mem st g)"
  shows "above st T e None (g # G)"
  using assms by (force simp: above_def apart_def posix_ok_def range_ok_def)

lemma merge_locks_mem:
  assumes "a \<noteq> q"
  shows "mem (merge_locks a q st) = (mem st)
    (a := (mem st a)\<lparr>fl_start := min (fl_start (mem st a)) (fl_start (mem st q)),
                     fl_end := max (fl_end (mem st a)) (fl_end (mem st q))\<rparr>,
     q := (mem st q)\<lparr>fl_start := min (fl_start (mem st a)) (fl_start (mem st q)),
                     fl_end := max (fl_end (mem st a)) (fl_end (mem st q))\<rparr>)"
  using assms by (auto simp: merge_locks_def Let_def lock_frame fun_eq_iff)

text \<open>
  Deleting every lock the range swallows, when the lock for the range is already in place: what
  is left of the group lies above the range, which grows only over bytes of its own type.
\<close>

definition absorbed :: "lock_state \<Rightarrow> addr list \<Rightarrow> u8 \<Rightarrow> int \<Rightarrow> int \<Rightarrow> addr list \<Rightarrow> bool" where
  "absorbed st G T e e' G' \<longleftrightarrow> e \<le> e' \<and> (\<exists>D. G = D @ G') \<and>
     (\<forall>b>e'. type_at (map (mem st) G') b = type_at (map (mem st) G) b) \<and>
     (\<forall>b. e < b \<and> b \<le> e' \<longrightarrow> type_at (map (mem st) G) b = Some T)"

lemma absorbed_refl: "absorbed st G T e e G"
  by (auto simp: absorbed_def)

lemma absorbed_swallow:
  assumes "absorbed st G T (max e (fl_end (mem st g))) e' G'" "fl_type (mem st g) = T"
    "fl_start (mem st g) \<le> e + 1"
  shows "absorbed st (g # G) T e e' G'"
  using assms by (fastforce simp: absorbed_def covers_def)

lemma absorbed_drop:
  assumes "absorbed st G T e e' G'" "fl_end (mem st g) \<le> e"
  shows "absorbed st (g # G) T e e' G'"
  using assms by (fastforce simp: absorbed_def covers_def)

lemma absorbed_cong:
  assumes "absorbed st G T e e' G'" "\<forall>a\<in>set G. mem st' a = mem st a"
  shows "absorbed st' G T e e' G'"
proof -
  have "set G' \<subseteq> set G" using assms(1) by (auto simp: absorbed_def)
  then have "map (mem st') G' = map (mem st) G'" "map (mem st') G = map (mem st) G"
    using assms(2) by (auto intro: map_cong)
  then show ?thesis using assms(1) unfolding absorbed_def by metis
qed

lemma above_cong:
  "above st T e right G \<Longrightarrow> \<forall>a\<in>set G. mem st' a = mem st a \<Longrightarrow> above st' T e right G"
  by (auto simp: above_def split: option.splits)

lemma map_mem_cong: "\<forall>a\<in>set G. mem st' a = mem st a \<Longrightarrow> map (mem st') G = map (mem st) G"
  by (auto intro: map_cong)

text \<open>What the loop returns once the range has its lock, or when unlocking.\<close>

definition absorb_res :: "inode_nr \<Rightarrow> lock_state \<Rightarrow> addr list \<Rightarrow> addr \<Rightarrow> addr list \<Rightarrow> addr list \<Rightarrow> addr option \<Rightarrow>
    posix_vars \<Rightarrow> bool" where
  "absorb_res ino st P q G B left res \<longleftrightarrow>
     (\<exists>st' right e' G'. res = (st', length P, q, True, left, right) \<and>
        i_flock st' = (i_flock st)(ino := P @ G' @ B) \<and> mem st' q = (mem st q)\<lparr>fl_end := e'\<rparr> \<and>
        (\<forall>a. a \<notin> set (q # G) \<or> a \<in> set G' \<longrightarrow> mem st' a = mem st a) \<and>
        absorbed st G (fl_type (mem st q)) (fl_end (mem st q)) e' G' \<and>
        above st (fl_type (mem st q)) e' right G')"

lemma absorb_res_stop:
  assumes "i_flock st ino = P @ G @ B" "above st (fl_type (mem st q)) (fl_end (mem st q)) right G"
  shows "absorb_res ino st P q G B left (st, length P, q, True, left, right)"
  unfolding absorb_res_def
  using assms
  by (intro exI [of _ st] exI [of _ right] exI [of _ "fl_end (mem st q)"] exI [of _ G])
    (auto simp: absorbed_refl fun_upd_idem)

lemma absorb_res_go:
  assumes res: "absorb_res ino st1 P q G B left res"
    and st1: "i_flock st1 = (i_flock st)(ino := P @ G @ B)" "mem st1 q = (mem st q)\<lparr>fl_end := e1\<rparr>"
      "\<forall>a. a \<notin> {q, g} \<longrightarrow> mem st1 a = mem st a"
    and G: "q \<notin> set G" "g \<notin> set G"
    and abs: "\<And>e' G'. absorbed st G (fl_type (mem st q)) e1 e' G' \<Longrightarrow>
      absorbed st (g # G) (fl_type (mem st q)) (fl_end (mem st q)) e' G'"
  shows "absorb_res ino st P q (g # G) B left res"
proof -
  let ?T = "fl_type (mem st q)"
  have same: "\<forall>a\<in>set G. mem st a = mem st1 a"
    using st1(3) G by (metis insert_iff singletonD)
  obtain st' right e' G' where r: "res = (st', length P, q, True, left, right)"
      "i_flock st' = (i_flock st1)(ino := P @ G' @ B)" "mem st' q = (mem st1 q)\<lparr>fl_end := e'\<rparr>"
      "\<forall>a. a \<notin> set (q # G) \<or> a \<in> set G' \<longrightarrow> mem st' a = mem st1 a"
      "absorbed st1 G ?T e1 e' G'" "above st1 ?T e' right G'"
    using res unfolding absorb_res_def by (auto simp: st1(2))
  have sub: "set G' \<subseteq> set G" using r(5) by (auto simp: absorbed_def)
  have "absorbed st (g # G) ?T (fl_end (mem st q)) e' G'"
    by (rule abs [OF absorbed_cong [OF r(5) same]])
  moreover have "above st ?T e' right G'"
    by (rule above_cong [OF r(6)]) (use sub same in auto)
  ultimately show ?thesis
    unfolding absorb_res_def using r(1-4) sub st1 same
    by (intro exI [of _ st'] exI [of _ right] exI [of _ e'] exI [of _ G']) auto
qed

text \<open>The step functions of the loop in this phase, on a lock \<open>g\<close> not below the request.\<close>

lemma absorb_turn:
  assumes "i_flock st ino = P @ g # R" "requester st o' q" "posix_ok (mem st g)" "lock_owner (mem st g) = o'"
    "fl_start (mem st q) \<le> fl_start (mem st g)"
  shows "posix_owner_loop ino st (length P) q True left None =
    (if fl_type (mem st g) = fl_type (mem st q) then
       if fl_start (mem st g) - 1 > fl_end (mem st q) then (st, length P, q, True, left, None)
       else posix_owner_loop ino (locks_delete_lock ino (length P) (merge_locks g q st)) (length P) q True left None
     else if fl_start (mem st g) > fl_end (mem st q) then (st, length P, q, True, left, None)
     else if fl_end (mem st g) > fl_end (mem st q) then (st, length P, q, True, left, Some g)
     else posix_owner_loop ino (locks_delete_lock ino (length P) st) (length P) q True left None)"
proof -
  have "fl_start (mem st g) \<le> fl_end (mem st g)"
    using assms(3) by (simp add: posix_ok_def range_ok_def)
  then show ?thesis
    using assms(5) by (subst loop_turn [OF assms(1-4)]) (auto simp: Let_def)
qed

lemma delete_turn_mem:
  assumes "i_flock st ino = P @ g # G @ B" "g \<noteq> q" "fl_start (mem st q) \<le> fl_start (mem st g)"
  shows "i_flock (locks_delete_lock ino (length P) st) = (i_flock st)(ino := P @ G @ B)"
    "i_flock (locks_delete_lock ino (length P) (merge_locks g q st)) = (i_flock st)(ino := P @ G @ B)"
    "mem (locks_delete_lock ino (length P) st) q = mem st q"
    "mem (locks_delete_lock ino (length P) (merge_locks g q st)) q =
       (mem st q)\<lparr>fl_end := max (fl_end (mem st g)) (fl_end (mem st q))\<rparr>"
    "a \<notin> {q, g} \<Longrightarrow> mem (locks_delete_lock ino (length P) st) a = mem st a"
    "a \<notin> {q, g} \<Longrightarrow> mem (locks_delete_lock ino (length P) (merge_locks g q st)) a = mem st a"
  using assms by (auto simp: lock_frame merge_locks_mem min_def)

lemma loop_absorb:
  assumes "i_flock st ino = P @ G @ B" "distinct (G @ B)" "q \<notin> set (G @ B)" "requester st o' q"
    "own_group st o' G" "group_end st o' B" "chain (map (mem st) G)"
    "\<forall>g\<in>set G. fl_start (mem st q) \<le> fl_start (mem st g)"
  shows "absorb_res ino st P q G B left (posix_owner_loop ino st (length P) q True left None)"
  using assms
proof (induction G arbitrary: st)
  case Nil
  have "posix_owner_loop ino st (length P) q True left None = (st, length P, q, True, left, None)"
    by (rule loop_stop [of _ _ _ B o']) (use Nil in auto)
  then show ?case using Nil by (auto simp: above_def intro: absorb_res_stop)
next
  case (Cons g G)
  note turn = absorb_turn [of st ino P g "G @ B" o' q left]
  have gq: "g \<noteq> q" using Cons.prems by auto
  note del = delete_turn_mem [of st ino P g G B q, OF _ gq]
  have IH: "absorb_res ino st1 P q G B left (posix_owner_loop ino st1 (length P) q True left None)"
    if st1: "i_flock st1 = (i_flock st)(ino := P @ G @ B)" "mem st1 q = (mem st q)\<lparr>fl_end := e1\<rparr>"
      "\<forall>a. a \<notin> {q, g} \<longrightarrow> mem st1 a = mem st a" "fl_end (mem st q) \<le> e1" "e1 \<le> OFFSET_MAX" for st1 e1
  proof (rule Cons.IH)
    have same: "\<forall>a\<in>set G. mem st1 a = mem st a" "\<forall>a\<in>set B. mem st1 a = mem st a"
      using Cons.prems(2,3) st1(3) by auto
    show "requester st1 o' q"
      using Cons.prems(4) st1(2,4,5) by (auto simp: requester_def range_ok_def)
    show "chain (map (mem st1) G)" unfolding map_mem_cong [OF same(1)] using Cons.prems(7) by simp
    show "own_group st1 o' G" using Cons.prems(5) own_group_cong [OF _ same(1)] by simp
    show "group_end st1 o' B" by (rule group_end_cong [OF Cons.prems(6) same(2)])
    show "\<forall>a\<in>set G. fl_start (mem st1 q) \<le> fl_start (mem st1 a)"
      using Cons.prems(8) st1(2) same by simp
  qed (use Cons.prems st1 in auto)
  have ends: "max (fl_end (mem st g)) (fl_end (mem st q)) \<le> OFFSET_MAX"
    using Cons.prems(4,5) by (auto simp: requester_def posix_ok_def range_ok_def)
  have merge: "absorb_res ino st P q (g # G) B left
      (posix_owner_loop ino (locks_delete_lock ino (length P) (merge_locks g q st)) (length P) q True left None)"
    if "fl_type (mem st g) = fl_type (mem st q)" "fl_start (mem st g) \<le> fl_end (mem st q) + 1"
    by (rule absorb_res_go [OF IH [of _ "max (fl_end (mem st g)) (fl_end (mem st q))"]])
      (use Cons.prems that del ends in \<open>auto intro: absorbed_swallow simp: max.commute\<close>)
  have drop: "absorb_res ino st P q (g # G) B left
      (posix_owner_loop ino (locks_delete_lock ino (length P) st) (length P) q True left None)"
    if "fl_end (mem st g) \<le> fl_end (mem st q)"
    by (rule absorb_res_go [OF IH [of _ "fl_end (mem st q)"]])
      (use Cons.prems that del ends in \<open>auto intro: absorbed_drop\<close>)
  have none: "absorb_res ino st P q (g # G) B left (st, length P, q, True, left, None)"
    if "fl_end (mem st q) < fl_start (mem st g)"
      "fl_type (mem st g) = fl_type (mem st q) \<Longrightarrow> fl_end (mem st q) + 1 < fl_start (mem st g)"
    by (rule absorb_res_stop) (use Cons.prems that in \<open>auto intro: above_None_head\<close>)
  have split: "absorb_res ino st P q (g # G) B left (st, length P, q, True, left, Some g)"
    if "fl_type (mem st g) \<noteq> fl_type (mem st q)" "fl_start (mem st g) \<le> fl_end (mem st q)"
      "fl_end (mem st q) < fl_end (mem st g)"
    by (rule absorb_res_stop) (use Cons.prems that in \<open>auto simp: above_def\<close>)
  show ?case
    using turn Cons.prems merge drop none split by auto
qed

text \<open>
  The state when the loop ends. \<open>M\<close> is the lock for the range if it is in the chain already,
  \<open>G'\<close> what remains of the group behind it, and \<open>s'\<close> to \<open>e'\<close> the range the request has grown to.
\<close>

record landing =
  l_state :: lock_state
  l_request :: addr
  l_added :: bool
  l_right :: "addr option"
  l_lock :: "addr list"
  l_rest :: "addr list"

definition landed :: "inode_nr \<Rightarrow> lock_state \<Rightarrow> lock_owner \<Rightarrow> addr list \<Rightarrow> addr \<Rightarrow> addr list \<Rightarrow> addr list \<Rightarrow> landing \<Rightarrow> bool" where
  "landed ino st o' P q G B l \<longleftrightarrow>
     (let st' = l_state l; q' = l_request l; M = l_lock l; G' = l_rest l;
          T = fl_type (mem st q); s = fl_start (mem st q); e = fl_end (mem st q);
          s' = fl_start (mem st' q'); e' = fl_end (mem st' q') in
      i_flock st' = (i_flock st)(ino := P @ M @ G' @ B) \<and> fl_type (mem st' q') = T \<and>
      (if M = [] then q' = q \<and> mem st' q = mem st q \<and> (l_added l \<longrightarrow> T = F_UNLCK) \<and>
         (\<not> l_added l \<longrightarrow> st' = st \<and> G' = G \<and> (T = F_UNLCK \<longrightarrow> l_right l = None))
       else M = [q'] \<and> q' \<in> set G \<and> l_added l \<and> T \<noteq> F_UNLCK \<and> posix_ok (mem st' q') \<and>
         lock_owner (mem st' q') = o') \<and>
      (\<forall>a. a \<notin> set (q # G) \<or> a \<in> set G' \<longrightarrow> mem st' a = mem st a) \<and> (\<exists>D. G = D @ G') \<and>
      q' \<notin> set G' \<and> s' \<le> s \<and> e \<le> e' \<and>
      (s' = s \<or> (\<exists>g\<in>set G. s' = fl_start (mem st g) \<and> fl_type (mem st g) = T)) \<and> ((\<forall>g\<in>set G. s \<le> fl_start (mem st g)) \<longrightarrow> s' = s) \<and>
      above st T e' (l_right l) G' \<and>
      (\<forall>b>e'. type_at (map (mem st) G') b = type_at (map (mem st) G) b) \<and>
      (\<forall>b. s' \<le> b \<and> b \<le> e' \<and> \<not> (s \<le> b \<and> b \<le> e) \<longrightarrow> type_at (map (mem st) G) b = Some T) \<and>
      (\<forall>b. b < s' \<longrightarrow> type_at (map (mem st) G) b = None))"

definition loop_res :: "addr list \<Rightarrow> addr option \<Rightarrow> landing \<Rightarrow> posix_vars" where
  "loop_res P left l =
     (l_state l, length (P @ l_lock l), l_request l, l_added l, left, l_right l)"

text \<open>The locks the loop meets when it has passed those below the request and the one that reaches
  into it from the left.\<close>

definition reached :: "lock_state \<Rightarrow> addr \<Rightarrow> addr list \<Rightarrow> bool" where
  "reached st q G \<longleftrightarrow> (\<forall>g\<in>set G. \<not> low (mem st q) (mem st g) \<and>
     (fl_type (mem st g) \<noteq> fl_type (mem st q) \<longrightarrow> fl_start (mem st q) \<le> fl_start (mem st g)))"

lemma landed_stop:
  assumes "i_flock st ino = P @ G @ B" "q \<notin> set G" "own_group st o' G" "requester st o' q"
    "above st (fl_type (mem st q)) (fl_end (mem st q)) right G"
    "\<forall>b<fl_start (mem st q). type_at (map (mem st) G) b = None"
    "fl_type (mem st q) = F_UNLCK \<longrightarrow> right = None"
  shows "\<exists>l. (st, length P, q, False, left, right) = loop_res P left l \<and> landed ino st o' P q G B l"
  using assms
  by (intro exI [of _ "\<lparr>l_state = st, l_request = q, l_added = False, l_right = right, l_lock = [], l_rest = G\<rparr>"])
    (auto simp: loop_res_def landed_def Let_def requester_def range_ok_def fun_upd_idem)

text \<open>Unlocking: the lock loop deletes what it covers and adds nothing.\<close>

lemma landed_unlock:
  assumes "absorb_res ino st P q G B left res" "fl_type (mem st q) = F_UNLCK" "own_group st o' G"
    "q \<notin> set G" "\<forall>b<fl_start (mem st q). type_at (map (mem st) G) b = None" "requester st o' q"
  shows "\<exists>l. res = loop_res P left l \<and> landed ino st o' P q G B l"
proof -
  obtain st' right e' G' where r: "res = (st', length P, q, True, left, right)"
      "i_flock st' = (i_flock st)(ino := P @ G' @ B)" "mem st' q = (mem st q)\<lparr>fl_end := e'\<rparr>"
      "\<forall>a. a \<notin> set (q # G) \<or> a \<in> set G' \<longrightarrow> mem st' a = mem st a"
      "absorbed st G F_UNLCK (fl_end (mem st q)) e' G'" "above st F_UNLCK e' right G'"
    using assms(1,2) unfolding absorb_res_def by auto
  have "e' = fl_end (mem st q)"
  proof (rule ccontr)
    assume "e' \<noteq> fl_end (mem st q)"
    then have "type_at (map (mem st) G) e' = Some F_UNLCK" using r(5) by (auto simp: absorbed_def)
    from type_at_Some [OF this] show False
      using assms(3) by (auto simp: own_group_def posix_ok_def lock_consts)
  qed
  then show ?thesis
    using r assms
    by (intro exI [of _ "\<lparr>l_state = st', l_request = q, l_added = True, l_right = right, l_lock = [], l_rest = G'\<rparr>"])
      (auto simp: loop_res_def landed_def Let_def absorbed_def requester_def range_ok_def)
qed

text \<open>The first lock \<open>g\<close> the range takes over becomes the lock for the range.\<close>

lemma landed_take_over:
  assumes res: "absorb_res ino st1 (P @ [g]) g G B left res"
    and st1: "i_flock st1 = i_flock st" "\<forall>a. a \<notin> {q, g} \<longrightarrow> mem st1 a = mem st a"
    and g: "posix_ok (mem st1 g)" "lock_owner (mem st1 g) = o'" "fl_type (mem st1 g) = fl_type (mem st q)"
      "fl_start (mem st1 g) = min (fl_start (mem st g)) (fl_start (mem st q))"
      "fl_end (mem st1 g) = max (fl_end (mem st g)) (fl_end (mem st q))"
      "fl_type (mem st g) = fl_type (mem st q) \<or>
       fl_start (mem st q) \<le> fl_start (mem st g) \<and> fl_end (mem st g) \<le> fl_end (mem st q)"
      "fl_start (mem st g) \<le> fl_end (mem st q) + 1" "fl_start (mem st q) \<le> fl_end (mem st g) + 1"
    and T: "fl_type (mem st q) \<noteq> F_UNLCK"
    and G: "distinct (q # g # G)" "chain (map (mem st) (g # G))" "own_group st o' (g # G)" "requester st o' q"
  shows "\<exists>l. res = loop_res P left l \<and> landed ino st o' P q (g # G) B l"
proof -
  let ?T = "fl_type (mem st q)"
  have same: "\<forall>a\<in>set G. mem st a = mem st1 a" using st1(2) G(1) by auto
  obtain st' right e' G' where r: "res = (st', length (P @ [g]), g, True, left, right)"
      "i_flock st' = (i_flock st1)(ino := (P @ [g]) @ G' @ B)" "mem st' g = (mem st1 g)\<lparr>fl_end := e'\<rparr>"
      "\<forall>a. a \<notin> set (g # G) \<or> a \<in> set G' \<longrightarrow> mem st' a = mem st1 a"
      "absorbed st1 G ?T (fl_end (mem st1 g)) e' G'" "above st1 ?T e' right G'"
    using res g(3) unfolding absorb_res_def by auto
  have abs: "absorbed st G ?T (fl_end (mem st1 g)) e' G'" by (rule absorbed_cong [OF r(5) same])
  have sub: "set G' \<subseteq> set G" using abs by (auto simp: absorbed_def)
  have ab: "above st ?T e' right G'" by (rule above_cong [OF r(6)]) (use sub same in auto)
  have gr: "fl_start (mem st g) \<le> fl_end (mem st g)" "fl_start (mem st q) \<le> fl_end (mem st q)"
    using G(3,4) by (auto simp: posix_ok_def range_ok_def requester_def)
  have later: "\<forall>b. b < fl_start (mem st1 g) \<longrightarrow> type_at (map (mem st) (g # G)) b = None"
    using G(2) g(4) gr by (fastforce simp: type_at_None covers_def apart_def)
  have grown: "type_at (map (mem st) (g # G)) b = Some ?T"
    if "fl_start (mem st1 g) \<le> b" "b \<le> e'" "\<not> (fl_start (mem st q) \<le> b \<and> b \<le> fl_end (mem st q))" for b
  proof (cases "b \<le> fl_end (mem st1 g)")
    case True
    then have "covers (mem st g) b" using that g(4,5,7,8) by (auto simp: covers_def)
    then show ?thesis using g(6) that by (auto simp: covers_def)
  next
    case False
    then have "type_at (map (mem st) G) b = Some ?T" using abs that by (auto simp: absorbed_def)
    then show ?thesis using False g(5) by (auto simp: covers_def)
  qed
  have "posix_ok (mem st' g)"
  proof -
    have "e' \<le> OFFSET_MAX"
    proof (cases "fl_end (mem st1 g) < e'")
      case True
      then have "type_at (map (mem st) G) e' = Some ?T" using abs by (auto simp: absorbed_def)
      from type_at_Some [OF this] show ?thesis
        using G(3) by (auto simp: own_group_def posix_ok_def range_ok_def covers_def)
    next
      case False
      then show ?thesis using abs g(1) by (auto simp: absorbed_def posix_ok_def range_ok_def)
    qed
    then show ?thesis
      using g(1) abs r(3) by (auto simp: posix_ok_def range_ok_def IS_POSIX_def absorbed_def)
  qed
  moreover have "\<forall>b>e'. type_at (map (mem st) G') b = type_at (map (mem st) (g # G)) b"
    using abs g(5) by (auto simp: absorbed_def covers_def)
  moreover have "\<forall>a\<in>set G'. mem st1 a = mem st a" using same sub by auto
  moreover have "fl_start (mem st1 g) = fl_start (mem st q) \<or>
      (\<exists>x\<in>set (g # G). fl_start (mem st1 g) = fl_start (mem st x) \<and> fl_type (mem st x) = ?T)"
    using g(4,6) by auto
  moreover have suf: "\<exists>D. g # G = D @ G'" "fl_end (mem st1 g) \<le> e'"
    using abs by (auto simp: absorbed_def intro: exI [of _ "g # D" for D])
  ultimately show ?thesis
    using r(1-4) st1 g(2-5) ab later grown T G(1) sub suf
    by (intro exI [of _ "\<lparr>l_state = st', l_request = g, l_added = True, l_right = right, l_lock = [g], l_rest = G'\<rparr>"])
      (auto simp: loop_res_def landed_def Let_def)
qed

lemma reached_none:
  assumes "reached st q G" "own_group st o' G" "\<forall>g\<in>set G. fl_type (mem st g) \<noteq> fl_type (mem st q)"
  shows "\<forall>b. b < fl_start (mem st q) \<longrightarrow> type_at (map (mem st) G) b = None"
  using assms by (fastforce simp: type_at_None covers_def reached_def)

lemma loop_land_unlock:
  assumes i: "i_flock st ino = P @ G @ B" "distinct (G @ B)" "q \<notin> set (G @ B)"
    and req: "requester st o' q" "fl_type (mem st q) = F_UNLCK"
    and G: "own_group st o' G" "group_end st o' B" "chain (map (mem st) G)" "reached st q G"
  shows "\<exists>l. posix_owner_loop ino st (length P) q False left None = loop_res P left l \<and>
    landed ino st o' P q G B l"
proof (cases G)
  case Nil
  have "posix_owner_loop ino st (length P) q False left None = (st, length P, q, False, left, None)"
    by (rule loop_stop [of _ _ _ B o']) (use i req G Nil in auto)
  then show ?thesis
    using landed_stop [of st ino P G B q o' None left] i req Nil by (auto simp: above_def)
next
  case (Cons g G1)
  have types: "\<forall>g\<in>set G. fl_type (mem st g) \<noteq> fl_type (mem st q)"
    using G(1) req(2) by (auto simp: own_group_def posix_ok_def lock_consts)
  note none = reached_none [OF G(4,1) types]
  have starts: "\<forall>g\<in>set G. fl_start (mem st q) \<le> fl_start (mem st g)"
    using G(4) types by (auto simp: reached_def)
  have g: "posix_ok (mem st g)" "lock_owner (mem st g) = o'" "fl_start (mem st g) \<le> fl_end (mem st g)"
    using G(1) Cons by (auto simp: posix_ok_def range_ok_def)
  note turn = loop_turn [of st ino P g "G1 @ B" o' q]
  show ?thesis
  proof (cases "fl_start (mem st g) > fl_end (mem st q)")
    case True
    have "posix_owner_loop ino st (length P) q False left None = (st, length P, q, False, left, None)"
      using turn i req g Cons types starts True by (auto simp: Let_def)
    moreover have "above st F_UNLCK (fl_end (mem st q)) None G"
      unfolding Cons by (rule above_None_head) (use G(3) g True Cons types req in auto)
    ultimately show ?thesis
      using landed_stop [of st ino P G B q o' None left] i req G none by simp
  next
    case False
    have "posix_owner_loop ino st (length P) q False left None = posix_owner_loop ino st (length P) q True left None"
      using turn i req g Cons types starts False by (auto simp: Let_def)
    then show ?thesis
      using landed_unlock [OF loop_absorb [OF i(1,2,3) req(1) G(1-3) starts]] req G(1) i(3) none by simp
  qed
qed

lemma loop_take_over:
  assumes i: "i_flock st ino = P @ g # G @ B" "distinct (g # G @ B)" "q \<notin> set (g # G @ B)"
    and req: "requester st o' q" "fl_type (mem st q) \<in> {F_RDLCK, F_WRLCK}"
    and G: "own_group st o' (g # G)" "group_end st o' B" "chain (map (mem st) (g # G))"
    and st1: "i_flock st1 = i_flock st" "\<forall>a. a \<notin> {q, g} \<longrightarrow> mem st1 a = mem st a"
    and g: "IS_POSIX (mem st1 g)" "owner_ok (mem st1 g)"
      "lock_owner (mem st1 g) = o'" "fl_type (mem st1 g) = fl_type (mem st q)"
      "fl_start (mem st1 g) = min (fl_start (mem st g)) (fl_start (mem st q))"
      "fl_end (mem st1 g) = max (fl_end (mem st g)) (fl_end (mem st q))"
      "fl_type (mem st g) = fl_type (mem st q) \<or>
       fl_start (mem st q) \<le> fl_start (mem st g) \<and> fl_end (mem st g) \<le> fl_end (mem st q)"
      "fl_start (mem st g) \<le> fl_end (mem st q) + 1" "fl_start (mem st q) \<le> fl_end (mem st g) + 1"
  shows "\<exists>l. posix_owner_loop ino st1 (length (P @ [g])) g True left None = loop_res P left l \<and>
    landed ino st o' P q (g # G) B l"
proof -
  have same: "\<forall>a\<in>set G. mem st1 a = mem st a" "\<forall>a\<in>set B. mem st1 a = mem st a"
    using i(2,3) st1(2) by auto
  have ranges: "range_ok (mem st1 g)"
    using req(1) G(1) g(5,6) by (auto simp: requester_def posix_ok_def range_ok_def)
  have "absorb_res ino st1 (P @ [g]) g G B left (posix_owner_loop ino st1 (length (P @ [g])) g True left None)"
  proof (rule loop_absorb)
    show "requester st1 o' g" using g(2,3) ranges by (simp add: requester_def)
    show "own_group st1 o' G" using G(1) own_group_cong [OF _ same(1)] by simp
    show "group_end st1 o' B" by (rule group_end_cong [OF G(2) same(2)])
    show "chain (map (mem st1) G)" unfolding map_mem_cong [OF same(1)] using G(3) by simp
    show "\<forall>a\<in>set G. fl_start (mem st1 g) \<le> fl_start (mem st1 a)"
      using G(1,3) g(5) same(1) by (force simp: apart_def posix_ok_def range_ok_def)
    show "i_flock st1 ino = (P @ [g]) @ G @ B" using i(1) st1(1) by simp
    show "distinct (G @ B)" "g \<notin> set (G @ B)" using i(2) by auto
  qed
  moreover have "posix_ok (mem st1 g)"
    unfolding posix_ok_def using g(1,2,4) ranges req(2) by simp
  moreover have "fl_type (mem st q) \<noteq> F_UNLCK" using req(2) by (auto simp: lock_consts)
  moreover have "distinct (q # g # G)" using i(2,3) by auto
  ultimately show ?thesis
    using landed_take_over [OF _ st1 _ g(3-9) _ _ G(3,1) req(1)] by blast
qed

lemma replace_lock_mem:
  assumes "a \<noteq> q"
  shows "mem (replace_lock a q st) = (mem st)(a := (mem st a)\<lparr>fl_start := fl_start (mem st q),
    fl_end := fl_end (mem st q), fl_type := fl_type (mem st q), fl_lmops := fl_lmops (mem st q)\<rparr>)"
  using assms by (simp add: replace_lock_def Let_def lock_frame)

lemma replace_owner_ok:
  "owner_ok a \<Longrightarrow> owner_ok b \<Longrightarrow> lock_owner a = lock_owner b \<Longrightarrow>
   owner_ok (a\<lparr>fl_start := s, fl_end := e, fl_type := t, fl_lmops := fl_lmops b\<rparr>)"
  by (auto simp: owner_ok_def IS_LEASE_def IS_FLOCK_def lock_owner_def split: fl_owner_t.splits)

lemma loop_land_lock:
  assumes i: "i_flock st ino = P @ G @ B" "distinct (G @ B)" "q \<notin> set (G @ B)"
    and req: "requester st o' q" "fl_type (mem st q) \<in> {F_RDLCK, F_WRLCK}"
    and G: "own_group st o' G" "group_end st o' B" "chain (map (mem st) G)" "reached st q G"
  shows "\<exists>l. posix_owner_loop ino st (length P) q False left None = loop_res P left l \<and>
    landed ino st o' P q G B l"
proof (cases G)
  case Nil
  have "posix_owner_loop ino st (length P) q False left None = (st, length P, q, False, left, None)"
    by (rule loop_stop [of _ _ _ B o']) (use i req G Nil in auto)
  then show ?thesis
    using landed_stop [of st ino P G B q o' None left] i req Nil by (auto simp: above_def)
next
  case (Cons g G1)
  let ?T = "fl_type (mem st q)"
  have g: "posix_ok (mem st g)" "lock_owner (mem st g) = o'" "fl_start (mem st g) \<le> fl_end (mem st g)" "g \<noteq> q"
    using G(1) i(3) Cons by (auto simp: posix_ok_def range_ok_def)
  have reach: "\<not> low (mem st q) (mem st g)"
      "fl_type (mem st g) \<noteq> ?T \<Longrightarrow> fl_start (mem st q) \<le> fl_start (mem st g)"
    using G(4) Cons by (auto simp: reached_def)
  note turn = loop_turn [of st ino P g "G1 @ B" o' q]
  have none: "\<forall>b. b < fl_start (mem st q) \<longrightarrow> type_at (map (mem st) G) b = None"
    if "fl_start (mem st q) \<le> fl_start (mem st g)"
    using that G(3) g(3) Cons by (fastforce simp: type_at_None covers_def apart_def)
  have stop: ?thesis if "posix_owner_loop ino st (length P) q False left None = (st, length P, q, False, left, right)"
      "above st ?T (fl_end (mem st q)) right G" "fl_start (mem st q) \<le> fl_start (mem st g)" for right
    using landed_stop [of st ino P G B q o' right left] that none i req G by (auto simp: lock_consts)
  have far: "above st ?T (fl_end (mem st q)) None G"
    if "fl_end (mem st q) < fl_start (mem st g)" "fl_type (mem st g) = ?T \<Longrightarrow> fl_end (mem st q) + 1 < fl_start (mem st g)"
    unfolding Cons by (rule above_None_head) (use that G(3) g Cons in auto)
  have i': "i_flock st ino = P @ g # G1 @ B" "distinct (g # G1 @ B)" "q \<notin> set (g # G1 @ B)"
    using i Cons by auto
  note over = loop_take_over [OF i' req G(1) [unfolded Cons] G(2) G(3) [unfolded Cons]]
  have posix: "IS_POSIX (mem st g)" "owner_ok (mem st g)" "owner_ok (mem st q)" "lock_owner (mem st q) = o'"
    using g(1) req(1) by (auto simp: posix_ok_def requester_def)
  have merge: ?thesis if "fl_type (mem st g) = ?T" "fl_start (mem st g) - 1 \<le> fl_end (mem st q)"
  proof -
    have "posix_owner_loop ino st (length P) q False left None =
        posix_owner_loop ino (merge_locks g q st) (length (P @ [g])) g True left None"
      using turn [OF i'(1) req(1) g(1,2)] reach(1) that by (auto simp: Let_def low_def)
    moreover have "\<exists>l. posix_owner_loop ino (merge_locks g q st) (length (P @ [g])) g True left None =
        loop_res P left l \<and> landed ino st o' P q (g # G1) B l"
      by (rule over) (use g posix that reach(1) in \<open>auto simp: lock_frame merge_locks_mem IS_POSIX_def low_def\<close>)
    ultimately show ?thesis unfolding Cons by simp
  qed
  have replace: ?thesis if "fl_type (mem st g) \<noteq> ?T" "fl_end (mem st g) \<le> fl_end (mem st q)"
  proof -
    have "posix_owner_loop ino st (length P) q False left None =
        posix_owner_loop ino (replace_lock g q st) (length (P @ [g])) g True left None"
      using turn [OF i'(1) req(1) g(1,2)] reach that g(3) req(2) by (auto simp: Let_def low_def lock_consts)
    moreover have "\<exists>l. posix_owner_loop ino (replace_lock g q st) (length (P @ [g])) g True left None =
        loop_res P left l \<and> landed ino st o' P q (g # G1) B l"
      by (rule over) (use g posix that reach in \<open>auto simp: lock_frame replace_lock_mem IS_POSIX_def low_def
          min_def max_def intro: replace_owner_ok\<close>)
    ultimately show ?thesis unfolding Cons by simp
  qed
  show ?thesis
  proof (cases "fl_type (mem st g) = ?T")
    case True
    show ?thesis
    proof (cases "fl_start (mem st g) - 1 > fl_end (mem st q)")
      case gap: True
      have "posix_owner_loop ino st (length P) q False left None = (st, length P, q, False, left, None)"
        using turn [OF i'(1) req(1) g(1,2)] reach(1) True gap by (auto simp: Let_def low_def)
      then show ?thesis
        by (rule stop) (use far gap req(1) in \<open>auto simp: requester_def range_ok_def\<close>)
    qed (use merge True in auto)
  next
    case False
    show ?thesis
    proof (cases "fl_end (mem st g) > fl_end (mem st q)")
      case big: True
      have "posix_owner_loop ino st (length P) q False left None =
          (st, length P, q, False, left, if fl_start (mem st g) > fl_end (mem st q) then None else Some g)"
        using turn [OF i'(1) req(1) g(1,2)] reach False big g(3) req(2) by (auto simp: Let_def low_def lock_consts)
      then show ?thesis
        by (rule stop) (use far False big reach Cons in \<open>auto simp: above_def split: if_splits\<close>)
    qed (use replace False in auto)
  qed
qed

section \<open>After the loop\<close>

text \<open>What the loop has passed: locks below the request, and possibly one that reaches into it.\<close>

definition passed :: "lock_state \<Rightarrow> addr \<Rightarrow> addr list \<Rightarrow> addr option \<Rightarrow> bool" where
  "passed st q L left \<longleftrightarrow>
     (case left of
        None \<Rightarrow> \<forall>x\<in>set L. low (mem st q) (mem st x)
      | Some l \<Rightarrow> (\<exists>L0. L = L0 @ [l] \<and> (\<forall>x\<in>set L0. low (mem st q) (mem st x))) \<and>
          fl_type (mem st l) \<noteq> fl_type (mem st q) \<and> fl_start (mem st l) < fl_start (mem st q) \<and>
          fl_start (mem st q) \<le> fl_end (mem st l) \<and> fl_end (mem st l) \<le> fl_end (mem st q))"

definition trim_start :: "addr option \<Rightarrow> int \<Rightarrow> (addr \<Rightarrow> file_lock) \<Rightarrow> addr \<Rightarrow> file_lock" where
  "trim_start right x m = (\<lambda>a. if right = Some a then (m a)\<lparr>fl_start := x\<rparr> else m a)"

definition trim_end :: "addr option \<Rightarrow> int \<Rightarrow> (addr \<Rightarrow> file_lock) \<Rightarrow> addr \<Rightarrow> file_lock" where
  "trim_end left x m = (\<lambda>a. if left = Some a then (m a)\<lparr>fl_end := x\<rparr> else m a)"

text \<open>The trimmed locks right of \<open>e\<close>, and left of the start \<open>s'\<close> to which the request has grown.\<close>

definition right_side :: "(addr \<Rightarrow> file_lock) \<Rightarrow> lock_state \<Rightarrow> lock_owner \<Rightarrow> u8 \<Rightarrow> addr list \<Rightarrow> int \<Rightarrow> bool" where
  "right_side m st o' T G e \<longleftrightarrow> chain (map m G) \<and>
     (\<forall>a\<in>set G. e < fl_start (m a) \<and> (fl_type (m a) = T \<longrightarrow> e + 1 < fl_start (m a))) \<and>
     (\<forall>b>e. type_at (map m G) b = type_at (map (mem st) G) b) \<and>
     (\<forall>a\<in>set G. posix_ok (m a) \<and> lock_owner (m a) = o')"

definition left_side :: "(addr \<Rightarrow> file_lock) \<Rightarrow> lock_state \<Rightarrow> lock_owner \<Rightarrow> addr \<Rightarrow> addr list \<Rightarrow> int \<Rightarrow> bool" where
  "left_side m st o' q L s' \<longleftrightarrow> chain (map m L) \<and>
     (\<forall>a\<in>set L. fl_end (m a) < s' \<and> (fl_type (m a) = fl_type (mem st q) \<longrightarrow> fl_end (m a) + 1 < s')) \<and>
     (\<forall>b. b < s' \<longrightarrow> type_at (map m L) b = type_at (map (mem st) L) b) \<and>
     (\<forall>b. s' \<le> b \<and> \<not> (fl_start (mem st q) \<le> b \<and> b \<le> fl_end (mem st q)) \<longrightarrow>
       type_at (map (mem st) L) b = None) \<and>
     (\<forall>a\<in>set L. posix_ok (m a) \<and> lock_owner (m a) = o')"

lemma trim_right:
  assumes "above st T e right G" "chain (map (mem st) G)" "own_group st o' G" "distinct G" "0 \<le> e"
  shows "right_side (trim_start right (e + 1) (mem st)) st o' T G e"
proof (cases right)
  case None
  then show ?thesis
    using assms by (auto simp: right_side_def trim_start_def above_def own_group_def)
next
  case (Some r)
  then obtain G1 where G: "G = r # G1" and r: "fl_type (mem st r) \<noteq> T" "fl_start (mem st r) \<le> e" "e < fl_end (mem st r)"
    using assms(1) by (auto simp: above_def)
  have same: "map (trim_start right (e + 1) (mem st)) G1 = map (mem st) G1"
    using assms(4) Some G by (auto simp: trim_start_def)
  have ok: "posix_ok (trim_start right (e + 1) (mem st) r)" "posix_ok (mem st r)"
    using assms(3,5) G Some r by (auto simp: trim_start_def posix_ok_def range_ok_def IS_POSIX_def)
  have above: "\<forall>a\<in>set G1. fl_end (mem st r) < fl_start (mem st a)"
    using assms(2) G by (auto simp: apart_def)
  show ?thesis
    unfolding right_side_def G list.map same
    using assms G Some r ok above
    by (auto simp: trim_start_def covers_def apart_def own_group_def)
qed

lemma trim_left_None:
  assumes "passed st q L None" "chain (map (mem st) (L @ G))" "own_group st o' L"
    and grown: "s' = fl_start (mem st q) \<or>
      (\<exists>g\<in>set G. s' = fl_start (mem st g) \<and> fl_type (mem st g) = fl_type (mem st q))"
  shows "left_side (mem st) st o' q L s'"
proof -
  have "\<forall>x\<in>set L. fl_end (mem st x) < s' \<and> (fl_type (mem st x) = fl_type (mem st q) \<longrightarrow> fl_end (mem st x) + 1 < s')"
    using grown
  proof
    assume "s' = fl_start (mem st q)"
    then show ?thesis using assms(1) by (fastforce simp: passed_def low_def split: if_splits)
  next
    assume "\<exists>g\<in>set G. s' = fl_start (mem st g) \<and> fl_type (mem st g) = fl_type (mem st q)"
    then show ?thesis using assms(2) by (fastforce simp: chain_append apart_def)
  qed
  then show ?thesis
    using assms(2,3) by (auto simp: left_side_def own_group_def chain_append type_at_None covers_def)
qed

lemma trim_left_Some:
  assumes "passed st q L (Some l)" "chain (map (mem st) L)" "own_group st o' L" "distinct L"
    "requester st o' q" and s': "s' = fl_start (mem st q)"
  shows "left_side (trim_end (Some l) (s' - 1) (mem st)) st o' q L s'"
proof -
  let ?m = "trim_end (Some l) (s' - 1) (mem st)"
  obtain L0 where L: "L = L0 @ [l]" "\<forall>x\<in>set L0. low (mem st q) (mem st x)"
    and l: "fl_type (mem st l) \<noteq> fl_type (mem st q)" "fl_start (mem st l) < s'"
      "s' \<le> fl_end (mem st l)" "fl_end (mem st l) \<le> fl_end (mem st q)"
    using assms(1) s' by (auto simp: passed_def)
  have tl: "?m l = (mem st l)\<lparr>fl_end := s' - 1\<rparr>" "\<And>x. x \<in> set L0 \<Longrightarrow> ?m x = mem st x"
    using L assms(4) by (auto simp: trim_end_def)
  have same: "map ?m L0 = map (mem st) L0" by (simp add: tl(2))
  have ok: "posix_ok (?m l)"
    unfolding tl(1) using assms(3) L(1) l by (auto simp: own_group_def posix_ok_def range_ok_def IS_POSIX_def)
  have L0: "\<forall>x\<in>set L0. apart (mem st x) (mem st l)" "chain (map (mem st) L0)"
    "\<forall>x\<in>set L0. fl_end (mem st x) < s' \<and> (fl_type (mem st x) = fl_type (mem st q) \<longrightarrow> fl_end (mem st x) + 1 < s')"
    using assms(2) L s' by (auto simp: chain_append low_def split: if_splits)
  have "chain (map ?m L)"
    unfolding L(1) map_append same using L0 by (auto simp: chain_append apart_def tl)
  moreover have "\<forall>a\<in>set L. fl_end (?m a) < s' \<and> (fl_type (?m a) = fl_type (mem st q) \<longrightarrow> fl_end (?m a) + 1 < s')"
    using L0(3) l(1) by (auto simp: L(1) tl)
  moreover have "\<forall>b. b < s' \<longrightarrow> type_at (map ?m L) b = type_at (map (mem st) L) b"
    unfolding L(1) map_append same using l(2,3) by (auto simp: type_at_append tl covers_def split: option.split)
  moreover have "\<forall>b. s' \<le> b \<and> \<not> (fl_start (mem st q) \<le> b \<and> b \<le> fl_end (mem st q)) \<longrightarrow>
       type_at (map (mem st) L) b = None"
    using L0(3) l s' by (auto simp: L(1) type_at_None covers_def)
  moreover have "\<forall>a\<in>set L. posix_ok (?m a) \<and> lock_owner (?m a) = o'"
    using assms(3) ok by (auto simp: L(1) tl own_group_def)
  ultimately show ?thesis unfolding left_side_def by blast
qed

text \<open>
  Both sides together: the group is in order again and has the requested type on the range.
\<close>

definition group_set :: "inode_nr \<Rightarrow> lock_state \<Rightarrow> lock_owner \<Rightarrow> addr list \<Rightarrow> addr list \<Rightarrow> addr list \<Rightarrow> addr \<Rightarrow>
    addr set \<Rightarrow> lock_state \<Rightarrow> bool" where
  "group_set ino st o' A G B q fresh st' \<longleftrightarrow>
     (\<exists>G'. i_flock st' = (i_flock st)(ino := A @ G' @ B) \<and> own_group st' o' G' \<and> chain (map (mem st') G') \<and>
        type_at (map (mem st') G') =
          set_range (type_at (map (mem st) G)) (fl_type (mem st q)) (fl_start (mem st q)) (fl_end (mem st q)) \<and>
        (\<forall>a. a \<notin> insert q (set G \<union> fresh) \<longrightarrow> mem st' a = mem st a) \<and>
        set G' \<subseteq> set G \<union> fresh \<and> distinct G')"

lemma sides_group:
  assumes L: "left_side m st o' q L s'" and R: "right_side m st o' (fl_type (mem st q)) G' e'"
    and M: "if fl_type (mem st q) = F_UNLCK then M = [] \<and> s' = fl_start (mem st q) \<and> e' = fl_end (mem st q)
            else \<exists>x. M = [x] \<and> fl_type (m x) = fl_type (mem st q) \<and> fl_start (m x) = s' \<and> fl_end (m x) = e'"
    and range: "s' \<le> fl_start (mem st q)" "requester st o' q" "fl_end (mem st q) \<le> e'"
    and G: "\<forall>b. b > e' \<longrightarrow> type_at (map (mem st) G') b = type_at (map (mem st) G) b"
      "\<forall>b. s' \<le> b \<and> b \<le> e' \<and> \<not> (fl_start (mem st q) \<le> b \<and> b \<le> fl_end (mem st q)) \<longrightarrow>
         type_at (map (mem st) G) b = Some (fl_type (mem st q))"
      "\<forall>b. b < s' \<longrightarrow> type_at (map (mem st) G) b = None"
  shows "chain (map m (L @ M @ G')) \<and> type_at (map m (L @ M @ G')) =
    set_range (type_at (map (mem st) (L @ G))) (fl_type (mem st q)) (fl_start (mem st q)) (fl_end (mem st q))"
proof -
  have se: "fl_start (mem st q) \<le> fl_end (mem st q)" using range(2) by (simp add: requester_def range_ok_def)
  have "chain (map m L @ map m M @ map m G') \<and> type_at (map m L @ map m M @ map m G') =
    set_range (type_at (map (mem st) L @ map (mem st) G)) (fl_type (mem st q)) (fl_start (mem st q)) (fl_end (mem st q))"
  proof (rule set_range_assemble [of _ s' _ _ e'])
    show "type_at (map m L) b = type_at (map (mem st) L @ map (mem st) G) b" if "b < s'" for b
      using that L G(3) by (auto simp: left_side_def type_at_append split: option.split)
    show "type_at (map m G') b = type_at (map (mem st) L @ map (mem st) G) b" if "e' < b" for b
      using that L R G(1) range se by (auto simp: left_side_def right_side_def type_at_append split: option.split)
    show "type_at (map (mem st) L @ map (mem st) G) b = Some (fl_type (mem st q))"
      if "s' \<le> b" "b \<le> e'" "\<not> (fl_start (mem st q) \<le> b \<and> b \<le> fl_end (mem st q))" for b
      using that L G(2) by (auto simp: left_side_def type_at_append split: option.split)
  qed (use L R M range se in \<open>auto simp: left_side_def right_side_def posix_ok_def range_ok_def split: if_splits\<close>)
  then show ?thesis by simp
qed

lemma posix_split_frame:
  assumes "right = None \<or> left \<noteq> right" "right \<noteq> Some q" "left \<noteq> Some q"
  shows "mem (posix_split ino tgid n2 before q left right st) =
      trim_start right (fl_end (mem st q) + 1) (trim_end left (fl_start (mem st q) - 1) (mem st))"
    "i_flock (posix_split ino tgid n2 before q left right st) = i_flock st"
  using assms
  by (auto simp: posix_split_def lock_frame trim_start_def trim_end_def fun_eq_iff split: option.splits)

lemma left_side_cong:
  assumes "\<And>a. a \<in> set L \<Longrightarrow> m a = m' a"
  shows "left_side m st o' q L s' = left_side m' st o' q L s'"
proof -
  have eq: "map m L = map m' L" using assms by simp
  show ?thesis unfolding left_side_def eq using assms by (simp cong: ball_cong)
qed

lemma right_side_cong:
  assumes "\<And>a. a \<in> set G \<Longrightarrow> m a = m' a"
  shows "right_side m st o' T G e = right_side m' st o' T G e"
proof -
  have eq: "map m G = map m' G" using assms by simp
  show ?thesis unfolding right_side_def eq using assms by (simp cong: ball_cong)
qed

text \<open>The situation when the loop is done: the fixed hypotheses of the lemmas below.\<close>

definition at_end :: "inode_nr \<Rightarrow> lock_state \<Rightarrow> lock_owner \<Rightarrow> addr list \<Rightarrow> addr list \<Rightarrow> addr list \<Rightarrow> addr list \<Rightarrow>
    addr \<Rightarrow> addr option \<Rightarrow> landing \<Rightarrow> bool" where
  "at_end ino st o' A L G B q left l \<longleftrightarrow>
     landed ino st o' (A @ L) q G B l \<and> passed st q L left \<and> i_flock st ino = A @ L @ G @ B \<and>
     distinct (q # A @ L @ G @ B) \<and> chain (map (mem st) (L @ G)) \<and> own_group st o' (L @ G) \<and>
     requester st o' q \<and> (left \<noteq> None \<longrightarrow> (\<forall>g\<in>set G. fl_start (mem st q) \<le> fl_start (mem st g))) \<and>
     (left \<noteq> None \<and> fl_type (mem st q) = F_UNLCK \<longrightarrow> l_added l)"

lemma at_end_sides:
  assumes e: "at_end ino st o' A L G B q left l"
  defines "s' \<equiv> fl_start (mem (l_state l) (l_request l))" and "e' \<equiv> fl_end (mem (l_state l) (l_request l))"
  shows "left_side (trim_end left (s' - 1) (mem st)) st o' q L s' \<and>
    right_side (trim_start (l_right l) (e' + 1) (mem st)) st o' (fl_type (mem st q)) (l_rest l) e'"
proof
  have c: "chain (map (mem st) L)" "chain (map (mem st) G)" "own_group st o' L" "own_group st o' G" "distinct L" "distinct G"
    using e by (auto simp: at_end_def chain_append own_group_def)
  have s': "s' = fl_start (mem st q) \<or> (\<exists>g\<in>set G. s' = fl_start (mem st g) \<and> fl_type (mem st g) = fl_type (mem st q))"
    "left \<noteq> None \<Longrightarrow> s' = fl_start (mem st q)"
    using e by (auto simp: at_end_def landed_def Let_def s'_def)
  show "left_side (trim_end left (s' - 1) (mem st)) st o' q L s'"
  proof (cases left)
    case None
    have "trim_end None (s' - 1) (mem st) = mem st" by (simp add: trim_end_def)
    then show ?thesis
      using None e s' c by (auto simp: at_end_def intro!: trim_left_None)
  next
    case (Some a)
    then show ?thesis
      using e s' c by (auto simp: at_end_def intro!: trim_left_Some)
  qed
  obtain D where D: "G = D @ l_rest l" using e by (auto simp: at_end_def landed_def Let_def)
  have "0 \<le> e'" using e by (auto simp: at_end_def landed_def Let_def e'_def requester_def range_ok_def)
  then show "right_side (trim_start (l_right l) (e' + 1) (mem st)) st o' (fl_type (mem st q)) (l_rest l) e'"
    using e c D by (intro trim_right) (auto simp: at_end_def landed_def Let_def e'_def chain_append own_group_def)
qed

text \<open>A request to unlock that meets no lock leaves everything as it is, and that is right.\<close>

lemma at_end_nothing:
  assumes e: "at_end ino st o' A L G B q left l" and "\<not> l_added l" "fl_type (mem st q) = F_UNLCK"
  shows "group_set ino st o' A (L @ G) B q {} st"
proof -
  have l: "l_right l = None" "l_rest l = G" "l_request l = q" "l_state l = st" "left = None"
    using assms by (auto simp: at_end_def landed_def Let_def split: if_splits)
  let ?s = "fl_start (mem st q)" and ?e = "fl_end (mem st q)"
  have "left_side (mem st) st o' q L ?s" "right_side (mem st) st o' (fl_type (mem st q)) G ?e"
    using at_end_sides [OF e] by (simp_all add: l trim_start_def trim_end_def)
  then have "chain (map (mem st) (L @ [] @ G)) \<and> type_at (map (mem st) (L @ [] @ G)) =
      set_range (type_at (map (mem st) (L @ G))) (fl_type (mem st q)) ?s ?e"
    by (rule sides_group)
      (use e assms(3) l in \<open>auto simp: at_end_def landed_def Let_def requester_def\<close>)
  then show ?thesis
    using e by (auto simp: group_set_def at_end_def fun_upd_idem intro!: exI [of _ "L @ G"])
qed

text \<open>
  Otherwise the lock for the range is in the chain (\<open>M\<close>), from the loop or because it was just
  inserted, and the neighbours are trimmed.
\<close>

lemma at_end_trim:
  assumes e: "at_end ino st o' A L G B q left l"
    and st1: "i_flock st1 = (i_flock st)(ino := A @ L @ M @ l_rest l @ B)"
      "mem st1 (l_request l) = mem (l_state l) (l_request l)"
      "\<forall>a\<in>set L \<union> set (l_rest l). mem st1 a = mem st a"
      "\<forall>a. a \<notin> insert q (set G \<union> fresh) \<longrightarrow> mem st1 a = mem st a"
    and M: "if fl_type (mem st q) = F_UNLCK then M = []
            else \<exists>x. M = [x] \<and> fl_type (mem st1 x) = fl_type (mem st q) \<and> posix_ok (mem st1 x) \<and> lock_owner (mem st1 x) = o' \<and>
              fl_start (mem st1 x) = fl_start (mem st1 (l_request l)) \<and> fl_end (mem st1 x) = fl_end (mem st1 (l_request l)) \<and>
              x \<in> set G \<union> fresh \<and> x \<notin> set L \<union> set (l_rest l)"
  shows "group_set ino st o' A (L @ G) B q fresh
    (posix_split ino tgid n2 before (l_request l) left (l_right l) st1)"
proof -
  let ?st2 = "posix_split ino tgid n2 before (l_request l) left (l_right l) st1"
  let ?s = "fl_start (mem (l_state l) (l_request l))" and ?e = "fl_end (mem (l_state l) (l_request l))"
  have ld: "landed ino st o' (A @ L) q G B l" and d: "distinct (q # A @ L @ G @ B)"
    using e by (auto simp: at_end_def)
  obtain D where D: "G = D @ l_rest l" using ld by (auto simp: landed_def Let_def)
  have left: "left = Some a \<Longrightarrow> a \<in> set L" for a using e by (auto simp: at_end_def passed_def)
  have right: "l_right l = Some a \<Longrightarrow> a \<in> set (l_rest l)" for a
    using ld by (auto simp: landed_def Let_def above_def)
  have q': "l_request l \<notin> set L \<union> set (l_rest l)"
    using ld d D by (auto simp: landed_def Let_def split: if_splits)
  have LG: "a \<in> set L \<Longrightarrow> a \<notin> set (l_rest l)" for a using d D by auto
  have nR: "a \<in> set L \<Longrightarrow> l_right l \<noteq> Some a" "a \<in> set M \<Longrightarrow> l_right l \<noteq> Some a"
    and nL: "a \<in> set (l_rest l) \<Longrightarrow> left \<noteq> Some a" "a \<in> set M \<Longrightarrow> left \<noteq> Some a" for a
    using left right LG M by (auto split: if_splits)
  have nq: "l_right l \<noteq> Some (l_request l)" "left \<noteq> Some (l_request l)" using left right q' by auto
  have "l_right l = None \<or> left \<noteq> l_right l" using left right LG by (cases "l_right l") auto
  note split = posix_split_frame [OF this nq, of ino tgid n2 before st1]
  have mem2: "mem ?st2 = trim_start (l_right l) (?e + 1) (trim_end left (?s - 1) (mem st1))"
    using split(1) st1(2) by simp
  have onL: "mem ?st2 a = trim_end left (?s - 1) (mem st) a" if "a \<in> set L" for a
    using that st1(3) nR(1) [OF that] by (simp add: mem2 trim_start_def trim_end_def)
  have onR: "mem ?st2 a = trim_start (l_right l) (?e + 1) (mem st) a" if "a \<in> set (l_rest l)" for a
    using that st1(3) nL(1) [OF that] by (simp add: mem2 trim_start_def trim_end_def)
  have onM: "mem ?st2 x = mem st1 x" if "x \<in> set M" for x
    using nL(2) [OF that] nR(2) [OF that] by (simp add: mem2 trim_start_def trim_end_def)
  have LR: "left_side (mem ?st2) st o' q L ?s" "right_side (mem ?st2) st o' (fl_type (mem st q)) (l_rest l) ?e"
    using at_end_sides [OF e] left_side_cong [OF onL] right_side_cong [OF onR] by auto
  have Mq: "if fl_type (mem st q) = F_UNLCK then M = [] \<and> ?s = fl_start (mem st q) \<and> ?e = fl_end (mem st q)
      else \<exists>x. M = [x] \<and> fl_type (mem ?st2 x) = fl_type (mem st q) \<and> fl_start (mem ?st2 x) = ?s \<and> fl_end (mem ?st2 x) = ?e"
  proof (cases "fl_type (mem st q) = F_UNLCK")
    case True
    then have "l_request l = q" "mem (l_state l) q = mem st q"
      using ld by (auto simp: landed_def Let_def split: if_splits)
    then show ?thesis using True M by simp
  next
    case False
    then obtain x where x: "M = [x]" using M by auto
    show ?thesis using False M onM [of x] st1(2) unfolding x by auto
  qed
  have "chain (map (mem ?st2) (L @ M @ l_rest l)) \<and> type_at (map (mem ?st2) (L @ M @ l_rest l)) =
      set_range (type_at (map (mem st) (L @ G))) (fl_type (mem st q)) (fl_start (mem st q)) (fl_end (mem st q))"
    by (rule sides_group [OF LR Mq]) (use ld e in \<open>simp_all add: landed_def Let_def at_end_def\<close>)
  moreover have "own_group ?st2 o' (L @ M @ l_rest l)"
  proof -
    have "own_group ?st2 o' L" "own_group ?st2 o' (l_rest l)"
      using LR by (simp_all add: own_group_def left_side_def right_side_def)
    moreover have "own_group ?st2 o' M"
      using M by (auto simp: own_group_def onM split: if_splits)
    ultimately show ?thesis by (auto simp: own_group_def)
  qed
  moreover have "distinct (L @ M @ l_rest l)"
    using d D M by (auto split: if_splits)
  moreover have "mem ?st2 a = mem st a" if "a \<notin> insert q (set (L @ G) \<union> fresh)" for a
  proof -
    have "left \<noteq> Some a" "l_right l \<noteq> Some a" using that left right D by auto
    then show ?thesis using that st1(4) by (simp add: mem2 trim_start_def trim_end_def)
  qed
  ultimately show ?thesis
    unfolding group_set_def using split(2) st1(1) M D
    by (intro exI [of _ "L @ M @ l_rest l"]) (auto split: if_splits)
qed

text \<open>The copy that is inserted as the new lock.\<close>

lemma new_lock_values:
  assumes "IS_POSIX r" "owner_ok r" "range_ok r" "fl_type r \<in> {F_RDLCK, F_WRLCK}"
  shows "posix_ok ((locks_copy_lock x r)\<lparr>fl_nspid := p\<rparr>)"
    "lock_owner ((locks_copy_lock x r)\<lparr>fl_nspid := p\<rparr>) = lock_owner r"
    "fl_type ((locks_copy_lock x r)\<lparr>fl_nspid := p\<rparr>) = fl_type r"
    "fl_start ((locks_copy_lock x r)\<lparr>fl_nspid := p\<rparr>) = fl_start r"
    "fl_end ((locks_copy_lock x r)\<lparr>fl_nspid := p\<rparr>) = fl_end r"
  using assms
  by (auto simp: locks_copy_lock_def copy_lock_fields_def posix_ok_def IS_POSIX_def IS_LEASE_def IS_FLOCK_def owner_ok_def range_ok_def
      lock_owner_def split: fl_owner_t.split)

lemma insert_new_frame:
  assumes "i_flock st ino = P @ R"
  shows "i_flock (locks_insert_lock ino tgid (length P) a (upd_lock a f st)) = (i_flock st)(ino := P @ a # R)"
    "mem (locks_insert_lock ino tgid (length P) a (upd_lock a f st)) = (mem st)(a := (f (mem st a))\<lparr>fl_nspid := Some tgid\<rparr>)"
  using assms by (simp_all add: lock_frame)

text \<open>A lock of another type that reaches over the request on both sides has to be cut in two.\<close>

definition cut_in_two :: "lock_state \<Rightarrow> addr \<Rightarrow> addr list \<Rightarrow> bool" where
  "cut_in_two st q G \<longleftrightarrow> (\<exists>g\<in>set G. fl_type (mem st g) \<noteq> fl_type (mem st q) \<and>
     fl_start (mem st g) < fl_start (mem st q) \<and> fl_end (mem st q) < fl_end (mem st g))"

definition outcome :: "inode_nr \<Rightarrow> lock_state \<Rightarrow> lock_owner \<Rightarrow> addr list \<Rightarrow> addr list \<Rightarrow> addr list \<Rightarrow> addr \<Rightarrow>
    addr option \<Rightarrow> addr option \<Rightarrow> lock_state \<times> lock_result \<Rightarrow> bool" where
  "outcome ino st o' A G B q new_fl new_fl2 r \<longleftrightarrow>
     (case r of (st', res) \<Rightarrow>
        if res = Lock_Ok then group_set ino st o' A G B q (set_option new_fl \<union> set_option new_fl2) st'
        else st' = st \<and>
          (res = Lock_Error ENOLCK \<and>
             (new_fl = None \<and> fl_type (mem st q) \<noteq> F_UNLCK \<or> new_fl2 = None \<and> cut_in_two st q G) \<or>
           res = Lock_Error ENOENT \<and> fl_type (mem st q) = F_UNLCK \<and> has_flag (mem st q) FL_EXISTS \<and>
           group_set ino st o' A G B q {} st))"

lemma group_set_mono: "group_set ino st o' A G B q F st' \<Longrightarrow> F \<subseteq> F' \<Longrightarrow> group_set ino st o' A G B q F' st'"
  unfolding group_set_def by blast

lemma at_end_insert:
  assumes e: "at_end ino st o' A L G B q left l" and add: "\<not> l_added l"
    and fresh: "a \<notin> insert q (set (A @ L @ G @ B))"
    and req: "IS_POSIX (mem st q)" "fl_type (mem st q) \<in> {F_RDLCK, F_WRLCK}"
    and st1: "st1 = locks_insert_lock ino tgid (length (A @ L)) a (upd_lock a (\<lambda>x. locks_copy_lock x (mem st q)) st)"
  shows "group_set ino st o' A (L @ G) B q {a} (posix_split ino tgid n2 before q left (l_right l) st1)"
proof -
  have l: "l_request l = q" "l_state l = st" "l_rest l = G" "l_lock l = []"
    using e add by (auto simp: at_end_def landed_def Let_def split: if_splits)
  have i: "i_flock st ino = (A @ L) @ G @ B" and rq: "requester st o' q" using e by (auto simp: at_end_def)
  have i1: "i_flock st1 = (i_flock st)(ino := (A @ L) @ a # G @ B)"
    and m1: "mem st1 = (mem st)(a := (locks_copy_lock (mem st a) (mem st q))\<lparr>fl_nspid := Some tgid\<rparr>)"
    using insert_new_frame [OF i, of tgid a] by (simp_all add: st1)
  have r: "owner_ok (mem st q)" "range_ok (mem st q)" "lock_owner (mem st q) = o'" using rq by (auto simp: requester_def)
  note new = new_lock_values [OF req(1) r(1,2) req(2), where x = "mem st a" and p = "Some tgid"]
  have T: "fl_type (mem st q) \<noteq> F_UNLCK" using req(2) by (auto simp: lock_consts)
  have "group_set ino st o' A (L @ G) B q {a} (posix_split ino tgid n2 before (l_request l) left (l_right l) st1)"
  proof (rule at_end_trim [OF e, where M = "[a]"])
    show "i_flock st1 = (i_flock st)(ino := A @ L @ [a] @ l_rest l @ B)" using i1 l by simp
    show "mem st1 (l_request l) = mem (l_state l) (l_request l)" using m1 fresh l by simp
    show "\<forall>x\<in>set L \<union> set (l_rest l). mem st1 x = mem st x" using m1 fresh l by auto
    show "\<forall>x. x \<notin> insert q (set G \<union> {a}) \<longrightarrow> mem st1 x = mem st x" using m1 by simp
    show "if fl_type (mem st q) = F_UNLCK then [a] = []
      else \<exists>x. [a] = [x] \<and> fl_type (mem st1 x) = fl_type (mem st q) \<and> posix_ok (mem st1 x) \<and> lock_owner (mem st1 x) = o' \<and>
        fl_start (mem st1 x) = fl_start (mem st1 (l_request l)) \<and> fl_end (mem st1 x) = fl_end (mem st1 (l_request l)) \<and>
        x \<in> set G \<union> {a} \<and> x \<notin> set L \<union> set (l_rest l)"
      using new r(3) fresh T by (simp add: m1 l)
  qed
  then show ?thesis by (simp add: l)
qed

lemma at_end_added:
  assumes e: "at_end ino st o' A L G B q left l" and add: "l_added l"
  shows "group_set ino st o' A (L @ G) B q {} (posix_split ino tgid n2 before (l_request l) left (l_right l) (l_state l))"
proof (rule at_end_trim [OF e, where M = "l_lock l"])
  have ld: "landed ino st o' (A @ L) q G B l" and d: "distinct (q # A @ L @ G @ B)"
    using e by (auto simp: at_end_def)
  obtain D where D: "G = D @ l_rest l" using ld by (auto simp: landed_def Let_def)
  have frame: "\<forall>a. a \<notin> set (q # G) \<or> a \<in> set (l_rest l) \<longrightarrow> mem (l_state l) a = mem st a"
    and i: "i_flock (l_state l) = (i_flock st)(ino := (A @ L) @ l_lock l @ l_rest l @ B)"
    and T: "fl_type (mem (l_state l) (l_request l)) = fl_type (mem st q)" and nq: "l_request l \<notin> set (l_rest l)"
    using ld by (simp_all add: landed_def Let_def)
  have M: "if l_lock l = [] then fl_type (mem st q) = F_UNLCK
      else l_lock l = [l_request l] \<and> l_request l \<in> set G \<and> fl_type (mem st q) \<noteq> F_UNLCK \<and>
        posix_ok (mem (l_state l) (l_request l)) \<and> lock_owner (mem (l_state l) (l_request l)) = o'"
    using ld add by (auto simp: landed_def Let_def split: if_splits)
  show "i_flock (l_state l) = (i_flock st)(ino := A @ L @ l_lock l @ l_rest l @ B)" using i by simp
  show "\<forall>a\<in>set L \<union> set (l_rest l). mem (l_state l) a = mem st a"
    using frame d by auto
  show "\<forall>a. a \<notin> insert q (set G \<union> {}) \<longrightarrow> mem (l_state l) a = mem st a"
    using frame by simp
  show "if fl_type (mem st q) = F_UNLCK then l_lock l = []
      else \<exists>x. l_lock l = [x] \<and> fl_type (mem (l_state l) x) = fl_type (mem st q) \<and> posix_ok (mem (l_state l) x) \<and>
        lock_owner (mem (l_state l) x) = o' \<and> fl_start (mem (l_state l) x) = fl_start (mem (l_state l) (l_request l)) \<and>
        fl_end (mem (l_state l) x) = fl_end (mem (l_state l) (l_request l)) \<and>
        x \<in> set G \<union> {} \<and> x \<notin> set L \<union> set (l_rest l)"
    using M T nq d by (auto split: if_splits)
qed simp

lemma at_end_left_right:
  assumes "at_end ino st o' A L G B q left l"
  shows "l_right l = None \<or> left \<noteq> l_right l"
proof (cases "l_right l")
  case (Some r)
  obtain D where D: "G = D @ l_rest l" using assms by (auto simp: at_end_def landed_def Let_def)
  have "r \<in> set (l_rest l)" using assms Some by (auto simp: at_end_def landed_def Let_def above_def)
  then have "r \<notin> set L" using assms D by (auto simp: at_end_def)
  then show ?thesis using assms Some by (auto simp: at_end_def passed_def)
qed simp

lemma apply_at_end:
  assumes e: "at_end ino st o' A L G B q left l"
    and fresh: "\<And>a. new_fl = Some a \<Longrightarrow> a \<notin> insert q (set (A @ L @ G @ B))"
    and req: "IS_POSIX (mem st q)" "fl_type (mem st q) \<in> {F_RDLCK, F_WRLCK, F_UNLCK}"
  shows "outcome ino st o' A (L @ G) B q new_fl new_fl2
    (posix_apply ino tgid new_fl new_fl2 (loop_res (A @ L) left l))"
proof -
  have ld: "landed ino st o' (A @ L) q G B l" using e by (simp add: at_end_def)
  note lr = at_end_left_right [OF e]
  note app = posix_apply_def loop_res_def Let_def split_beta
  show ?thesis
  proof (cases "l_added l")
    case True
    then have "posix_apply ino tgid new_fl new_fl2 (loop_res (A @ L) left l) =
        (posix_split ino tgid (the new_fl2) (length (A @ L @ l_lock l)) (l_request l) left (l_right l) (l_state l), Lock_Ok)"
      using lr by (auto simp: app)
    then show ?thesis
      using group_set_mono [OF at_end_added [OF e True]] by (simp add: outcome_def)
  next
    case False
    have l: "l_request l = q" "l_state l = st" "l_lock l = []"
      using ld False by (auto simp: landed_def Let_def split: if_splits)
    consider "fl_type (mem st q) = F_UNLCK" | "fl_type (mem st q) \<noteq> F_UNLCK" "new_fl = None"
      | a where "fl_type (mem st q) \<in> {F_RDLCK, F_WRLCK}" "fl_type (mem st q) \<noteq> F_UNLCK" "new_fl = Some a"
      using req(2) by (cases new_fl) auto
    then show ?thesis
    proof cases
      case 1
      then have "posix_apply ino tgid new_fl new_fl2 (loop_res (A @ L) left l) =
          (st, if has_flag (mem st q) FL_EXISTS then Lock_Error ENOENT else Lock_Ok)"
        using False lr l by (auto simp: app)
      moreover note none = at_end_nothing [OF e False 1]
      ultimately show ?thesis using 1 group_set_mono [OF none] by (simp add: outcome_def)
    next
      case 2
      then have "posix_apply ino tgid new_fl new_fl2 (loop_res (A @ L) left l) = (st, Lock_Error ENOLCK)"
        using False lr l by (auto simp: app)
      then show ?thesis using 2 by (simp add: outcome_def)
    next
      case 3
      then have "posix_apply ino tgid new_fl new_fl2 (loop_res (A @ L) left l) =
          (posix_split ino tgid (the new_fl2) (length (A @ L)) q left (l_right l)
             (locks_insert_lock ino tgid (length (A @ L)) a (upd_lock a (\<lambda>x. locks_copy_lock x (mem st q)) st)), Lock_Ok)"
        using False lr l by (auto simp: app)
      then show ?thesis
        using group_set_mono [OF at_end_insert [OF e False fresh [OF 3(3)] req(1) 3(1) refl]] 3
        by (simp add: outcome_def)
    qed
  qed
qed

text \<open>A lock of another type that contains the request on both sides is broken in two.\<close>

lemma split_group:
  assumes i: "i_flock st ino = A @ L @ g # G @ B" "distinct (q # A @ L @ g # G @ B)"
    and G: "chain (map (mem st) (L @ g # G))" "own_group st o' (L @ g # G)"
    and req: "requester st o' q" "IS_POSIX (mem st q)" "fl_type (mem st q) \<in> {F_RDLCK, F_WRLCK, F_UNLCK}"
    and g: "fl_type (mem st g) \<noteq> fl_type (mem st q)" "fl_start (mem st g) < fl_start (mem st q)"
      "fl_end (mem st q) < fl_end (mem st g)"
    and n2: "n2 \<notin> insert q (set (A @ L @ g # G @ B))"
    and st1: "\<forall>a. a \<notin> set M \<longrightarrow> mem st1 a = mem st a"
    and M: "if fl_type (mem st q) = F_UNLCK then M = []
            else \<exists>x. M = [x] \<and> fl_type (mem st1 x) = fl_type (mem st q) \<and> posix_ok (mem st1 x) \<and> lock_owner (mem st1 x) = o' \<and>
              fl_start (mem st1 x) = fl_start (mem st q) \<and> fl_end (mem st1 x) = fl_end (mem st q) \<and>
              x \<notin> insert q (set (A @ L @ g # G @ B)) \<and> x \<noteq> n2"
    and i2: "i_flock st2 = (i_flock st)(ino := A @ L @ n2 # M @ g # G @ B)"
    and m2: "mem st2 = (mem st1)(g := (mem st g)\<lparr>fl_start := fl_end (mem st q) + 1\<rparr>,
      n2 := (locks_copy_lock (mem st1 n2) (mem st g))\<lparr>fl_nspid := Some tgid, fl_end := fl_start (mem st q) - 1\<rparr>)"
  shows "group_set ino st o' A (L @ g # G) B q (insert n2 (set M)) st2"
proof -
  let ?s = "fl_start (mem st q)" and ?e = "fl_end (mem st q)"
  have M': "q \<notin> set M" "g \<notin> set M" "n2 \<notin> set M" "set M \<inter> set (A @ L @ g # G @ B) = {}" "distinct M"
    using M by (auto split: if_splits)
  let ?nv = "mem st2 n2" and ?gv = "mem st2 g"
  have gok: "posix_ok (mem st g)" "lock_owner (mem st g) = o'" "0 \<le> ?s" "?s \<le> ?e" "owner_ok (mem st g)"
      "range_ok (mem st g)" "IS_POSIX (mem st g)" "fl_type (mem st g) \<in> {F_RDLCK, F_WRLCK}"
    using G(2) req(1) by (auto simp: own_group_def requester_def range_ok_def posix_ok_def)
  note cp = new_lock_values [OF gok(7,5,6,8), where x = "mem st1 n2" and p = "Some tgid"]
  have nv: "fl_type ?nv = fl_type (mem st g)" "fl_start ?nv = fl_start (mem st g)" "fl_end ?nv = ?s - 1"
      "posix_ok ?nv" "lock_owner ?nv = o'"
    using cp gok(2-4) g(2,3) by (simp_all add: m2 posix_ok_def range_ok_def IS_POSIX_def)
  have gv: "fl_type ?gv = fl_type (mem st g)" "fl_start ?gv = ?e + 1" "fl_end ?gv = fl_end (mem st g)"
      "posix_ok ?gv" "lock_owner ?gv = o'"
    using gok g(2,3) n2 by (simp_all add: m2 posix_ok_def range_ok_def IS_POSIX_def)
  have same: "mem st2 a = mem st a" if "a \<notin> insert n2 (insert g (set M))" for a
    using that st1 by (simp add: m2)
  have "a \<in> set L \<union> set G \<Longrightarrow> a \<notin> insert n2 (insert g (set M))" for a
    using i(2) n2 M'(4) by auto
  then have same': "a \<in> set L \<union> set G \<Longrightarrow> mem st2 a = mem st a" for a using same by blast
  have onL: "map (mem st2) L = map (mem st) L" and onG: "map (mem st2) G = map (mem st) G"
    using same' by auto
  have onM: "mem st2 x = mem st1 x" if "x \<in> set M" for x using that M' by (auto simp: m2)
  have ch: "chain (map (mem st) L)" "chain (map (mem st) G)" "\<forall>x\<in>set L. apart (mem st x) (mem st g)"
      "\<forall>x\<in>set G. apart (mem st g) (mem st x)"
    using G(1) by (auto simp: chain_append)
  have noneG: "type_at (map (mem st) G) b = None" if "b \<le> fl_end (mem st g)" for b
    using that ch(4) by (auto simp: type_at_None covers_def apart_def)
  have noneL: "type_at (map (mem st) L) b = None" if "fl_start (mem st g) \<le> b" for b
    using that ch(3) by (auto simp: type_at_None covers_def apart_def)
  have ok: "\<forall>x\<in>set L \<union> set G. fl_start (mem st x) \<le> fl_end (mem st x)"
    using G(2) by (auto simp: own_group_def posix_ok_def range_ok_def)
  have "chain ((map (mem st) L @ [?nv]) @ map (mem st2) M @ ?gv # map (mem st) G) \<and>
      type_at ((map (mem st) L @ [?nv]) @ map (mem st2) M @ ?gv # map (mem st) G) =
      set_range (type_at (map (mem st) (L @ g # G))) (fl_type (mem st q)) ?s ?e"
  proof (rule set_range_assemble [of _ ?s _ _ ?e])
    show "if fl_type (mem st q) = F_UNLCK then map (mem st2) M = [] \<and> ?s = ?s \<and> ?e = ?e
      else \<exists>m. map (mem st2) M = [m] \<and> fl_type m = fl_type (mem st q) \<and> fl_start m = ?s \<and> fl_end m = ?e"
      using M onM by auto
    show "type_at (map (mem st) L @ [?nv]) b = type_at (map (mem st) (L @ g # G)) b" if "b < ?s" for b
      using that nv noneG [of b] g gok(4) by (auto simp: type_at_append covers_def split: option.split)
    show "type_at (?gv # map (mem st) G) b = type_at (map (mem st) (L @ g # G)) b" if "?e < b" for b
      using that gv noneL [of b] g gok(4) by (auto simp: type_at_append covers_def split: option.split)
  qed (use nv gv ch ok g gok(4) in \<open>auto simp: chain_append apart_def\<close>)
  then have "chain (map (mem st2) (L @ n2 # M @ g # G)) \<and> type_at (map (mem st2) (L @ n2 # M @ g # G)) =
      set_range (type_at (map (mem st) (L @ g # G))) (fl_type (mem st q)) ?s ?e"
    by (simp add: onL onG del: map_eq_conv)
  moreover have "own_group st2 o' (L @ n2 # M @ g # G)"
  proof -
    have "own_group st2 o' M" using M by (auto simp: own_group_def onM split: if_splits)
    moreover have "own_group st2 o' L" "own_group st2 o' G"
      using G(2) same' by (auto simp: own_group_def)
    ultimately show ?thesis using nv gv by (auto simp: own_group_def)
  qed
  moreover have "distinct (L @ n2 # M @ g # G)" using i(2) n2 M' by auto
  ultimately show ?thesis
    unfolding group_set_def using i2 same
    by (intro exI [of _ "L @ n2 # M @ g # G"]) auto
qed


lemma apply_split:
  assumes i: "i_flock st ino = A @ L @ g # G @ B" "distinct (q # A @ L @ g # G @ B)"
    and G: "chain (map (mem st) (L @ g # G))" "own_group st o' (L @ g # G)"
    and req: "requester st o' q" "IS_POSIX (mem st q)" "fl_type (mem st q) \<in> {F_RDLCK, F_WRLCK, F_UNLCK}"
    and g: "fl_type (mem st g) \<noteq> fl_type (mem st q)" "fl_start (mem st g) < fl_start (mem st q)"
      "fl_end (mem st q) < fl_end (mem st g)"
    and n2: "n2 \<notin> insert q (set (A @ L @ g # G @ B))"
    and st1: "i_flock st1 = (i_flock st)(ino := A @ L @ M @ g # G @ B)"
      "\<forall>a. a \<notin> set M \<longrightarrow> mem st1 a = mem st a"
    and M: "if fl_type (mem st q) = F_UNLCK then M = []
            else \<exists>x. M = [x] \<and> fl_type (mem st1 x) = fl_type (mem st q) \<and> posix_ok (mem st1 x) \<and> lock_owner (mem st1 x) = o' \<and>
              fl_start (mem st1 x) = fl_start (mem st q) \<and> fl_end (mem st1 x) = fl_end (mem st q) \<and>
              x \<notin> insert q (set (A @ L @ g # G @ B)) \<and> x \<noteq> n2"
  shows "group_set ino st o' A (L @ g # G) B q (insert n2 (set M))
    (posix_split ino tgid n2 (length (A @ L)) q (Some g) (Some g) st1)"
proof -
  let ?st2 = "posix_split ino tgid n2 (length (A @ L)) q (Some g) (Some g) st1"
  have M': "q \<notin> set M" "g \<notin> set M" using M by (auto split: if_splits)
  have i1: "i_flock st1 ino = (A @ L) @ M @ g # G @ B" using st1(1) by simp
  have q: "mem st1 q = mem st q" "mem st1 g = mem st g" using st1(2) M' by auto
  show ?thesis
  proof (rule split_group [OF i G req g n2 st1(2) M])
    show "i_flock ?st2 = (i_flock st)(ino := A @ L @ n2 # M @ g # G @ B)"
      using insert_new_frame [OF i1, of tgid n2] st1(1) by (simp add: posix_split_def lock_frame)
    show "mem ?st2 = (mem st1)(g := (mem st g)\<lparr>fl_start := fl_end (mem st q) + 1\<rparr>,
      n2 := (locks_copy_lock (mem st1 n2) (mem st g))\<lparr>fl_nspid := Some tgid, fl_end := fl_start (mem st q) - 1\<rparr>)"
      using insert_new_frame [OF i1, of tgid n2] n2 i(2) q by (simp add: posix_split_def lock_frame fun_upd_twist)
  qed
qed

section \<open>A request on the locks of its owner\<close>

text \<open>The situation before the loop: the group \<open>G\<close> of the owner between \<open>A\<close> and \<open>B\<close>.\<close>

definition at_start :: "inode_nr \<Rightarrow> lock_state \<Rightarrow> lock_owner \<Rightarrow> addr list \<Rightarrow> addr list \<Rightarrow> addr list \<Rightarrow> addr \<Rightarrow> bool" where
  "at_start ino st o' A G B q \<longleftrightarrow>
     i_flock st ino = A @ G @ B \<and> distinct (q # A @ G @ B) \<and> chain (map (mem st) G) \<and> own_group st o' G \<and>
     group_end st o' B \<and> requester st o' q \<and> IS_POSIX (mem st q) \<and>
     fl_type (mem st q) \<in> {F_RDLCK, F_WRLCK, F_UNLCK}"

lemma chain_reached:
  assumes "chain (map (mem st) (g # G))" "own_group st o' (g # G)" "fl_start (mem st q) - 1 \<le> fl_end (mem st g)"
  shows "\<forall>h\<in>set G. fl_start (mem st q) \<le> fl_start (mem st h)" "reached st q G"
proof -
  show le: "\<forall>h\<in>set G. fl_start (mem st q) \<le> fl_start (mem st h)"
    using assms by (fastforce simp: apart_def)
  show "reached st q G"
    using le assms(2) by (fastforce simp: reached_def low_def own_group_def posix_ok_def range_ok_def)
qed

lemma run_direct:
  assumes s: "at_start ino st o' A (L @ G) B q" and low: "\<forall>x\<in>set L. low (mem st q) (mem st x)"
    and reached: "reached st q G"
    and fresh: "\<And>a. new_fl = Some a \<Longrightarrow> a \<notin> insert q (set (A @ L @ G @ B))"
  shows "outcome ino st o' A (L @ G) B q new_fl new_fl2
    (posix_apply ino tgid new_fl new_fl2 (posix_owner_loop ino st (length (A @ L)) q False None None))"
proof -
  have i: "i_flock st ino = (A @ L) @ G @ B" "distinct (G @ B)" "q \<notin> set (G @ B)"
    and req: "requester st o' q" "IS_POSIX (mem st q)" "fl_type (mem st q) \<in> {F_RDLCK, F_WRLCK, F_UNLCK}"
    and G: "own_group st o' G" "group_end st o' B" "chain (map (mem st) G)"
    using s by (auto simp: at_start_def own_group_def chain_append)
  obtain l where l: "posix_owner_loop ino st (length (A @ L)) q False None None = loop_res (A @ L) None l"
      "landed ino st o' (A @ L) q G B l"
    using loop_land_unlock [OF i req(1) _ G reached, of None] loop_land_lock [OF i req(1) _ G reached, of None] req(3)
    by blast
  have "at_end ino st o' A L G B q None l"
    using s l(2) low by (auto simp: at_end_def at_start_def passed_def)
  from apply_at_end [OF this fresh req(2,3)] show ?thesis unfolding l(1) by blast
qed

lemma absorb_added: "absorb_res ino st P q G B left (loop_res P' left' l) \<Longrightarrow> l_added l"
  by (auto simp: absorb_res_def loop_res_def)

lemma run_left:
  assumes s: "at_start ino st o' A (L @ g # G) B q" and low: "\<forall>x\<in>set L. low (mem st q) (mem st x)"
    and g: "fl_type (mem st g) \<noteq> fl_type (mem st q)" "fl_start (mem st g) < fl_start (mem st q)"
      "fl_start (mem st q) \<le> fl_end (mem st g)" "fl_end (mem st g) \<le> fl_end (mem st q)"
    and fresh: "\<And>a. new_fl = Some a \<Longrightarrow> a \<notin> insert q (set (A @ L @ g # G @ B))"
  shows "outcome ino st o' A (L @ g # G) B q new_fl new_fl2
    (posix_apply ino tgid new_fl new_fl2 (posix_owner_loop ino st (length (A @ L)) q False None None))"
proof -
  have i: "i_flock st ino = (A @ L @ [g]) @ G @ B" "distinct (G @ B)" "q \<notin> set (G @ B)" "i_flock st ino = (A @ L) @ g # G @ B"
    and req: "requester st o' q" "IS_POSIX (mem st q)" "fl_type (mem st q) \<in> {F_RDLCK, F_WRLCK, F_UNLCK}"
    and G: "own_group st o' G" "group_end st o' B" "chain (map (mem st) G)"
    and gG: "chain (map (mem st) (g # G))" "own_group st o' (g # G)"
    using s by (auto simp: at_start_def own_group_def chain_append)
  have reach: "\<forall>h\<in>set G. fl_start (mem st q) \<le> fl_start (mem st h)" "reached st q G"
    using chain_reached [OF gG] g by auto
  have turn: "posix_owner_loop ino st (length (A @ L)) q False None None =
      posix_owner_loop ino st (length (A @ L @ [g])) q (fl_type (mem st q) = F_UNLCK) (Some g) None"
    using loop_turn [OF i(4) req(1)] gG(2) g by (simp add: Let_def)
  obtain l where l: "posix_owner_loop ino st (length (A @ L @ [g])) q (fl_type (mem st q) = F_UNLCK) (Some g) None =
      loop_res (A @ L @ [g]) (Some g) l" "landed ino st o' (A @ L @ [g]) q G B l"
      "fl_type (mem st q) = F_UNLCK \<longrightarrow> l_added l"
  proof (cases "fl_type (mem st q) = F_UNLCK")
    case True
    have "q \<notin> set G" using i(3) by simp
    have types: "\<forall>h\<in>set G. fl_type (mem st h) \<noteq> fl_type (mem st q)"
      using G(1) True by (auto simp: own_group_def posix_ok_def lock_consts)
    have "q \<notin> set G" using i(3) by simp
    note absorb = loop_absorb [OF i(1-3) req(1) G reach(1), of "Some g"]
    obtain l where l: "posix_owner_loop ino st (length (A @ L @ [g])) q True (Some g) None = loop_res (A @ L @ [g]) (Some g) l"
        "landed ino st o' (A @ L @ [g]) q G B l"
      using landed_unlock [OF absorb True G(1) \<open>q \<notin> set G\<close> reached_none [OF reach(2) G(1) types] req(1)] by blast
    then show ?thesis using that [of l] True absorb_added [OF absorb [unfolded l(1)]] by simp
  next
    case False
    then show ?thesis
      using that loop_land_lock [OF i(1-3) req(1) _ G reach(2), of "Some g"] req(3) by auto
  qed
  have "at_end ino st o' A (L @ [g]) G B q (Some g) l"
    using s l(2,3) low reach(1) g by (auto simp: at_end_def at_start_def passed_def)
  from apply_at_end [OF this _ req(2,3)] fresh show ?thesis unfolding turn l(1) by simp
qed

lemma run_split:
  assumes s: "at_start ino st o' A (L @ g # G) B q"
    and g: "fl_type (mem st g) \<noteq> fl_type (mem st q)" "fl_start (mem st g) < fl_start (mem st q)"
      "fl_end (mem st q) < fl_end (mem st g)"
    and fresh: "\<And>a. new_fl = Some a \<Longrightarrow> a \<notin> insert q (set (A @ L @ g # G @ B))"
      "\<And>a. new_fl2 = Some a \<Longrightarrow> a \<notin> insert q (set (A @ L @ g # G @ B))" "new_fl \<noteq> new_fl2 \<or> new_fl = None"
  shows "outcome ino st o' A (L @ g # G) B q new_fl new_fl2
    (posix_apply ino tgid new_fl new_fl2 (posix_owner_loop ino st (length (A @ L)) q False None None))"
proof -
  have i: "i_flock st ino = A @ L @ g # G @ B" "distinct (q # A @ L @ g # G @ B)" "i_flock st ino = (A @ L) @ g # G @ B"
    and req: "requester st o' q" "IS_POSIX (mem st q)" "fl_type (mem st q) \<in> {F_RDLCK, F_WRLCK, F_UNLCK}"
    and G: "chain (map (mem st) (L @ g # G))" "own_group st o' (L @ g # G)"
    using s by (auto simp: at_start_def)
  have rq: "owner_ok (mem st q)" "range_ok (mem st q)" "lock_owner (mem st q) = o'" "fl_start (mem st q) \<le> fl_end (mem st q)"
    using req(1) by (auto simp: requester_def range_ok_def)
  have turn: "posix_owner_loop ino st (length (A @ L)) q False None None =
      (st, length (A @ L), q, fl_type (mem st q) = F_UNLCK, Some g, Some g)"
    using loop_turn [OF i(3) req(1)] G(2) g rq(4) by (auto simp: Let_def own_group_def)
  note split = apply_split [OF i(1,2) G req g, where tgid = tgid]
  note app = posix_apply_def Let_def split_beta
  consider "new_fl2 = None" | "fl_type (mem st q) \<noteq> F_UNLCK" "new_fl = None" "new_fl2 \<noteq> None"
    | n2 where "fl_type (mem st q) = F_UNLCK" "new_fl2 = Some n2"
    | a n2 where "fl_type (mem st q) \<noteq> F_UNLCK" "fl_type (mem st q) \<in> {F_RDLCK, F_WRLCK}" "new_fl = Some a" "new_fl2 = Some n2"
    using req(3) by (cases new_fl; cases new_fl2) auto
  then show ?thesis
  proof cases
    case 1
    then show ?thesis unfolding turn using g by (simp add: app outcome_def cut_in_two_def)
  next
    case 2
    then show ?thesis unfolding turn by (auto simp: app outcome_def)
  next
    case 3
    have "group_set ino st o' A (L @ g # G) B q (insert n2 (set []))
        (posix_split ino tgid n2 (length (A @ L)) q (Some g) (Some g) st)"
      by (rule split [OF fresh(2) [OF 3(2)]]) (use 3 i(1) in auto)
    then show ?thesis
      unfolding turn using 3 by (auto simp: app outcome_def intro: group_set_mono)
  next
    case 4
    let ?st1 = "locks_insert_lock ino tgid (length (A @ L)) a (upd_lock a (\<lambda>x. locks_copy_lock x (mem st q)) st)"
    note new = new_lock_values [OF req(2) rq(1,2) 4(2), where x = "mem st a" and p = "Some tgid"]
    note ins = insert_new_frame [OF i(3), of tgid a "\<lambda>x. locks_copy_lock x (mem st q)"]
    have "group_set ino st o' A (L @ g # G) B q (insert n2 (set [a]))
        (posix_split ino tgid n2 (length (A @ L)) q (Some g) (Some g) ?st1)"
      by (rule split [OF fresh(2) [OF 4(4)]])
        (use 4 new ins rq(3) fresh(1) [OF 4(3)] fresh(3) in auto)
    then show ?thesis
      unfolding turn using 4 by (auto simp: app outcome_def intro: group_set_mono)
  qed
qed

lemma run_group:
  assumes s: "at_start ino st o' A G B q"
    and fresh: "\<And>a. new_fl = Some a \<Longrightarrow> a \<notin> insert q (set (A @ G @ B))"
      "\<And>a. new_fl2 = Some a \<Longrightarrow> a \<notin> insert q (set (A @ G @ B))" "new_fl \<noteq> new_fl2 \<or> new_fl = None"
  shows "outcome ino st o' A G B q new_fl new_fl2
    (posix_apply ino tgid new_fl new_fl2 (posix_owner_loop ino st (length A) q False None None))"
proof -
  let ?low = "\<lambda>x. low (mem st q) (mem st x)"
  obtain L G2 where LG: "G = L @ G2" "\<forall>x\<in>set L. ?low x" "G2 = [] \<or> \<not> ?low (hd G2)"
    using takeWhile_dropWhile_id [of ?low G] set_takeWhileD [of _ ?low G] hd_dropWhile [of ?low G] by metis
  have pass: "posix_owner_loop ino st (length A) q False None None =
      posix_owner_loop ino st (length (A @ L)) q False None None"
    by (rule loop_pass_low [of st ino A L "G2 @ B" o'])
      (use s LG in \<open>auto simp: at_start_def own_group_def\<close>)
  show ?thesis
  proof (cases G2)
    case Nil
    then show ?thesis
      using run_direct [of ino st o' A L "[]" B q new_fl] s LG fresh unfolding pass by (simp add: reached_def)
  next
    case (Cons g G3)
    have g: "\<not> ?low g" "chain (map (mem st) (g # G3))" "own_group st o' (g # G3)"
      using LG Cons s by (auto simp: at_start_def chain_append own_group_def)
    have s': "at_start ino st o' A (L @ g # G3) B q" using s LG Cons by simp
    show ?thesis
    proof (cases "fl_type (mem st g) \<noteq> fl_type (mem st q) \<and> fl_start (mem st g) < fl_start (mem st q)")
      case True
      then show ?thesis
        unfolding pass LG(1) Cons
        using run_left [OF s' LG(2), of new_fl] run_split [OF s', of new_fl new_fl2] fresh g(1)
        unfolding LG(1) Cons by (cases "fl_end (mem st g) \<le> fl_end (mem st q)") (auto simp: low_def)
    next
      case False
      have "fl_start (mem st q) - 1 \<le> fl_end (mem st g)" using g(1) by (auto simp: low_def split: if_splits)
      from chain_reached [OF g(2,3) this] have "reached st q (g # G3)"
        using g(1) False by (auto simp: reached_def)
      then show ?thesis
        using run_direct [OF s' LG(2), of new_fl] fresh unfolding pass LG(1) Cons by auto
    qed
  qed
qed

section \<open>The chain of an inode\<close>

text \<open>Equal elements stand together.\<close>

fun grouped :: "'a list \<Rightarrow> bool" where
  "grouped [] \<longleftrightarrow> True"
| "grouped (x # xs) \<longleftrightarrow> grouped xs \<and> (x \<in> set xs \<longrightarrow> hd xs = x)"

lemma grouped_append_disjoint:
  "set xs \<inter> set ys = {} \<Longrightarrow> grouped (xs @ ys) \<longleftrightarrow> grouped xs \<and> grouped ys"
proof (induction xs)
  case (Cons x xs)
  then show ?case by (cases xs) auto
qed simp

lemma grouped_appendD: "grouped (xs @ ys) \<Longrightarrow> grouped xs"
proof (induction xs)
  case (Cons x xs)
  have "hd xs = x" if "x \<in> set xs"
    using Cons.prems that by (simp add: hd_append split: if_splits)
  then show ?case using Cons by simp
qed simp

lemma grouped_same: "set xs \<subseteq> {x} \<Longrightarrow> grouped xs"
proof (induction xs)
  case (Cons y xs)
  then show ?case by (cases xs) auto
qed simp

definition split_at :: "('a \<Rightarrow> 'k) \<Rightarrow> 'k \<Rightarrow> 'a list \<Rightarrow> 'a list \<Rightarrow> 'a list \<Rightarrow> bool" where
  "split_at f k A G B \<longleftrightarrow> (\<forall>a\<in>set A. f a \<noteq> k) \<and> (\<forall>g\<in>set G. f g = k) \<and> (\<forall>b\<in>set B. f b \<noteq> k) \<and>
    (G = [] \<longrightarrow> B = []) \<and> (\<forall>a\<in>set A. \<forall>b\<in>set B. f a \<noteq> f b) \<and> grouped (map f A) \<and> grouped (map f B)"

lemma split_at_same: "split_at f k [] G B \<Longrightarrow> f x = k \<Longrightarrow> split_at f k [] (x # G) B"
  by (simp add: split_at_def)

lemma split_at_first:
  "grouped (map f (x # A)) \<Longrightarrow> f x = k \<Longrightarrow> \<forall>a\<in>set A. f a \<noteq> k \<Longrightarrow> split_at f k [] [x] A"
  by (simp add: split_at_def)

lemma split_at_other:
  assumes "split_at f k A G B" "f x \<noteq> k" "grouped (map f (x # A @ G @ B))"
  shows "split_at f k (x # A) G B"
proof -
  have "f x \<noteq> f b" if "b \<in> set B" for b
  proof
    assume eq: "f x = f b"
    have "f x \<in> set (map f (A @ G @ B))" using that eq by auto
    then have h: "hd (map f (A @ G @ B)) = f x" using assms(3) by (simp del: map_append)
    have "G \<noteq> []" using assms(1) that by (auto simp: split_at_def)
    then obtain g G' where G: "G = g # G'" by (cases G) auto
    show False
    proof (cases A)
      case Nil
      then show False using h G assms(1,2) by (simp add: split_at_def)
    next
      case (Cons a A')
      then have "f a = f b" using h eq by simp
      moreover have "f a \<noteq> f b" using assms(1) that Cons unfolding split_at_def by simp
      ultimately show False by simp
    qed
  qed
  moreover have "grouped (map f (x # A))"
    using assms(3) grouped_appendD [of "map f (x # A)" "map f (G @ B)"] by simp
  ultimately show ?thesis using assms(1,2) unfolding split_at_def by simp
qed

lemma grouped_split: "grouped (map f xs) \<Longrightarrow> \<exists>A G B. xs = A @ G @ B \<and> split_at f k A G B"
proof (induction xs)
  case Nil
  then show ?case by (simp add: split_at_def)
next
  case (Cons x xs)
  then obtain A G B where IH: "xs = A @ G @ B" "split_at f k A G B" by auto
  consider "f x \<noteq> k" | "f x = k" "A = []" | a A' where "f x = k" "A = a # A'" by (cases A) auto
  then show ?case
  proof cases
    case 1
    have "split_at f k (x # A) G B"
      by (rule split_at_other [OF IH(2) 1]) (use Cons.prems IH(1) in simp)
    then show ?thesis
      by (intro exI [of _ "x # A"] exI [of _ G] exI [of _ B]) (simp add: IH(1))
  next
    case 2
    have "split_at f k [] (x # G) B" by (rule split_at_same) (use IH(2) 2 in simp_all)
    then show ?thesis
      by (intro exI [of _ "[]"] exI [of _ "x # G"] exI [of _ B]) (simp add: IH(1) 2)
  next
    case 3
    have "f a \<noteq> k" using IH(2) 3 by (simp add: split_at_def)
    then have "f x \<notin> f ` set xs" using Cons.prems IH(1) 3 by auto
    then have "\<forall>a\<in>set xs. f a \<noteq> k" using 3(1) by (metis imageI)
    from split_at_first [OF Cons.prems 3(1) this] show ?thesis
      by (intro exI [of _ "[]"] exI [of _ "[x]"] exI [of _ xs]) simp
  qed
qed

text \<open>Locks that are not POSIX locks come first and have no owner in this sense.\<close>

definition owner_key :: "file_lock \<Rightarrow> lock_owner option" where
  "owner_key f = (if IS_POSIX f then Some (lock_owner f) else None)"

definition inode_inv :: "file_lock list \<Rightarrow> bool" where
  "inode_inv V \<longleftrightarrow> sorted_wrt (\<lambda>a b. IS_POSIX a \<longrightarrow> IS_POSIX b) V \<and> grouped (map owner_key V) \<and>
     (\<forall>f\<in>set V. IS_POSIX f \<longrightarrow> posix_ok f) \<and> (\<forall>o'. chain (filter (\<lambda>f. owner_key f = Some o') V))"

abbreviation nonposix :: "file_lock list \<Rightarrow> file_lock list" where
  "nonposix V \<equiv> filter (\<lambda>f. \<not> IS_POSIX f) V"

text \<open>The abstract view of a chain: the type of the lock each owner holds on each byte.\<close>

definition lock_table :: "file_lock list \<Rightarrow> lock_owner \<Rightarrow> int \<Rightarrow> u8 option" where
  "lock_table V o' = type_at (filter (\<lambda>f. owner_key f = Some o') V)"

lemma filter_all: "\<forall>x\<in>set xs. P x \<Longrightarrow> filter P xs = xs"
  by (induction xs) auto

lemma posix_last: "\<forall>g\<in>set G. IS_POSIX g \<Longrightarrow> sorted_wrt (\<lambda>a b. IS_POSIX a \<longrightarrow> IS_POSIX b) G"
  by (induction G) auto

text \<open>The chain of an inode around the locks of one owner, which can be exchanged.\<close>

definition around :: "lock_owner \<Rightarrow> file_lock list \<Rightarrow> file_lock list \<Rightarrow> bool" where
  "around o' A B \<longleftrightarrow> sorted_wrt (\<lambda>a b. IS_POSIX a \<longrightarrow> IS_POSIX b) A \<and> (\<forall>b\<in>set B. IS_POSIX b) \<and>
     (\<forall>f\<in>set A \<union> set B. owner_key f \<noteq> Some o' \<and> (IS_POSIX f \<longrightarrow> posix_ok f)) \<and>
     (\<forall>a\<in>set A. \<forall>b\<in>set B. owner_key a \<noteq> owner_key b) \<and> grouped (map owner_key A) \<and> grouped (map owner_key B) \<and>
     (\<forall>x. x \<noteq> o' \<longrightarrow> chain (filter (\<lambda>f. owner_key f = Some x) A @ filter (\<lambda>f. owner_key f = Some x) B))"

lemma filter_none: "\<forall>x\<in>set xs. \<not> P x \<Longrightarrow> filter P xs = []"
  by (induction xs) auto

lemma key_posix: "owner_key g = Some o' \<Longrightarrow> IS_POSIX g"
  by (simp add: owner_key_def split: if_splits)

lemma grouped_around:
  assumes "around o' A B" "set (map owner_key G) \<subseteq> {Some o'}"
  shows "grouped (map owner_key (A @ G @ B))"
proof -
  have o': "Some o' \<notin> set (map owner_key A)" "Some o' \<notin> set (map owner_key B)"
    using assms(1) by (auto simp: around_def)
  then have d: "set (map owner_key G) \<inter> set (map owner_key B) = {}"
      "set (map owner_key A) \<inter> set (map owner_key G) = {}" using assms(2) by blast+
  have "set (map owner_key A) \<inter> set (map owner_key B) = {}"
    using assms(1) by (auto simp: around_def)
  then have "set (map owner_key A) \<inter> set (map owner_key G @ map owner_key B) = {}"
    using d(2) by (simp add: Int_Un_distrib)
  from grouped_append_disjoint [OF this] grouped_append_disjoint [OF d(1)] grouped_same [OF assms(2)]
  show ?thesis using assms(1) by (simp add: around_def)
qed

lemma inode_inv_join:
  assumes A: "around o' A B" and G: "\<forall>g\<in>set G. owner_key g = Some o' \<and> posix_ok g" "chain G"
  shows "inode_inv (A @ G @ B)" "lock_table (A @ G @ B) o' = type_at G"
    "x \<noteq> o' \<Longrightarrow> lock_table (A @ G @ B) x = lock_table (A @ B) x"
proof -
  have own: "filter (\<lambda>f. owner_key f = Some o') (A @ G @ B) = G"
    using A G(1) by (simp add: around_def filter_all filter_none)
  have other: "filter (\<lambda>f. owner_key f = Some x) G = []" if "x \<noteq> o'" for x
    using G(1) that by (intro filter_none) auto
  have "sorted_wrt (\<lambda>a b. IS_POSIX a \<longrightarrow> IS_POSIX b) (A @ G @ B)"
    using A G(1) posix_last [of G] posix_last [of B] by (auto simp: sorted_wrt_append posix_ok_def around_def)
  moreover have "grouped (map owner_key (A @ G @ B))"
    by (rule grouped_around [OF A]) (use G(1) in auto)
  moreover have "chain (filter (\<lambda>f. owner_key f = Some x) (A @ G @ B))" for x
  proof (cases "x = o'")
    case True
    then show ?thesis using own G(2) by simp
  next
    case False
    moreover have "chain (filter (\<lambda>f. owner_key f = Some x) A @ filter (\<lambda>f. owner_key f = Some x) B)"
      using A False unfolding around_def by blast
    ultimately show ?thesis using other [OF False] by simp
  qed
  moreover have "\<forall>f\<in>set (A @ G @ B). IS_POSIX f \<longrightarrow> posix_ok f"
    using A G(1) by (auto simp: around_def)
  ultimately show "inode_inv (A @ G @ B)" unfolding inode_inv_def by blast
  show "lock_table (A @ G @ B) o' = type_at G" unfolding lock_table_def own ..
  show "lock_table (A @ G @ B) x = lock_table (A @ B) x" if "x \<noteq> o'"
    using other [OF that] by (simp add: lock_table_def)
qed

lemma inode_inv_split:
  assumes "inode_inv V"
  shows "\<exists>A G B. V = A @ G @ B \<and> around o' A B \<and> (\<forall>g\<in>set G. owner_key g = Some o' \<and> posix_ok g) \<and>
    chain G \<and> (G = [] \<longrightarrow> B = [])"
proof -
  have "grouped (map owner_key V)" using assms unfolding inode_inv_def by blast
  from grouped_split [OF this, of "Some o'"]
  obtain A G B where V: "V = A @ G @ B" and s: "split_at owner_key (Some o') A G B" by blast
  have srt: "sorted_wrt (\<lambda>a b. IS_POSIX a \<longrightarrow> IS_POSIX b) (A @ G @ B)"
    and ok: "\<forall>f\<in>set (A @ G @ B). IS_POSIX f \<longrightarrow> posix_ok f"
    and chains: "chain (filter (\<lambda>f. owner_key f = Some x) (A @ G @ B))" for x
    using assms unfolding inode_inv_def V by blast+
  have G: "\<forall>g\<in>set G. owner_key g = Some o'" and nB: "G = [] \<longrightarrow> B = []" using s unfolding split_at_def by blast+
  have own: "filter (\<lambda>f. owner_key f = Some o') (A @ G @ B) = G"
    using s by (simp add: split_at_def filter_all filter_none)
  have other: "filter (\<lambda>f. owner_key f = Some x) G = []" if "x \<noteq> o'" for x
    using G that by (intro filter_none) auto
  have B: "\<forall>b\<in>set B. IS_POSIX b"
  proof
    fix b assume b: "b \<in> set B"
    have "G \<noteq> []" using b nB by auto
    then have g: "hd G \<in> set G" by simp
    then have "IS_POSIX (hd G)" using G key_posix [of "hd G" o'] by simp
    moreover have "sorted_wrt (\<lambda>a b. IS_POSIX a \<longrightarrow> IS_POSIX b) (G @ B)"
      using srt unfolding sorted_wrt_append by blast
    ultimately show "IS_POSIX b" using b g unfolding sorted_wrt_append by blast
  qed
  have "around o' A B"
    unfolding around_def
  proof (intro conjI allI impI)
    show "chain (filter (\<lambda>f. owner_key f = Some x) A @ filter (\<lambda>f. owner_key f = Some x) B)" if "x \<noteq> o'" for x
      using chains [of x] other [OF that] by simp
    show "sorted_wrt (\<lambda>a b. IS_POSIX a \<longrightarrow> IS_POSIX b) A"
      using srt unfolding sorted_wrt_append by blast
    show "\<forall>f\<in>set A \<union> set B. owner_key f \<noteq> Some o' \<and> (IS_POSIX f \<longrightarrow> posix_ok f)"
      using ok s unfolding split_at_def set_append by blast
  qed (use s B in \<open>simp_all add: split_at_def\<close>)
  moreover have "chain G" using chains [of o'] unfolding own .
  moreover have "\<forall>g\<in>set G. owner_key g = Some o' \<and> posix_ok g"
    using G ok key_posix by (metis Un_iff set_append)
  ultimately show ?thesis using V nB by blast
qed

section \<open>The invariant of all locks\<close>

definition inode_locks :: "lock_state \<Rightarrow> inode_nr \<Rightarrow> file_lock list" where
  "inode_locks st ino = map (mem st) (i_flock st ino)"

definition in_chains :: "lock_state \<Rightarrow> addr set" where
  "in_chains st = (\<Union>ino. set (i_flock st ino))"

definition lock_inv :: "lock_state \<Rightarrow> bool" where
  "lock_inv st \<longleftrightarrow> (\<forall>ino. inode_inv (inode_locks st ino) \<and> distinct (i_flock st ino)) \<and>
     (\<forall>i j. i \<noteq> j \<longrightarrow> set (i_flock st i) \<inter> set (i_flock st j) = {})"

text \<open>What each owner holds on each byte of a file.\<close>

definition held :: "lock_state \<Rightarrow> inode_nr \<Rightarrow> lock_owner \<Rightarrow> int \<Rightarrow> u8 option" where
  "held st ino = lock_table (inode_locks st ino)"

text \<open>A request is a lock structure of the caller; the allocator returns unused ones.\<close>

definition request_ok :: "lock_state \<Rightarrow> addr \<Rightarrow> bool" where
  "request_ok st q \<longleftrightarrow> q \<notin> in_chains st \<and> IS_POSIX (mem st q) \<and> owner_ok (mem st q) \<and> range_ok (mem st q) \<and>
     fl_type (mem st q) \<in> {F_RDLCK, F_WRLCK, F_UNLCK}"

definition fresh_allocs :: "lock_state \<Rightarrow> addr \<Rightarrow> addr option \<Rightarrow> addr option \<Rightarrow> bool" where
  "fresh_allocs st q a1 a2 \<longleftrightarrow> (set_option a1 \<union> set_option a2) \<inter> insert q (in_chains st) = {} \<and>
     (a1 = None \<or> a1 \<noteq> a2)"

lemma in_chains_I: "a \<in> set (i_flock st ino) \<Longrightarrow> a \<in> in_chains st"
  by (auto simp: in_chains_def)

text \<open>Changing structures outside the chains changes nothing.\<close>

lemma same_chains:
  assumes "i_flock st' = i_flock st" "\<forall>a\<in>in_chains st. mem st' a = mem st a"
  shows "in_chains st' = in_chains st" "inode_locks st' ino = inode_locks st ino" "held st' ino = held st ino"
    "lock_inv st' = lock_inv st"
proof -
  have l: "inode_locks st' i = inode_locks st i" for i
    using assms by (auto simp: inode_locks_def in_chains_def)
  then show "inode_locks st' ino = inode_locks st ino" "held st' ino = held st ino"
    by (auto simp: held_def)
  show "in_chains st' = in_chains st" using assms(1) by (simp add: in_chains_def)
  show "lock_inv st' = lock_inv st" using l assms(1) by (simp add: lock_inv_def)
qed

lemma owner_group_start:
  assumes inv: "lock_inv st" and req: "request_ok st q" and o': "o' = lock_owner (mem st q)"
  shows "\<exists>A G B. at_start ino st o' A G B q \<and> around o' (map (mem st) A) (map (mem st) B) \<and>
    length (takeWhile (\<lambda>fl. \<not> IS_POSIX (mem st fl) \<or> \<not> posix_same_owner (mem st q) (mem st fl)) (i_flock st ino)) = length A"
proof -
  have "inode_inv (map (mem st) (i_flock st ino))" and d: "distinct (i_flock st ino)"
    using inv by (simp_all add: lock_inv_def inode_locks_def)
  from inode_inv_split [OF this(1), of o'] obtain AV GV BV where V: "map (mem st) (i_flock st ino) = AV @ GV @ BV"
      "around o' AV BV" "\<forall>g\<in>set GV. owner_key g = Some o' \<and> posix_ok g" "chain GV" "GV = [] \<longrightarrow> BV = []"
    by blast
  from V(1) obtain A R where R: "i_flock st ino = A @ R" "AV = map (mem st) A" "map (mem st) R = GV @ BV"
    by (metis map_eq_append_conv)
  from R(3) obtain G B where "R = G @ B" "GV = map (mem st) G" "BV = map (mem st) B"
    by (metis map_eq_append_conv)
  then have i: "i_flock st ino = A @ G @ B"
    and ar: "around o' (map (mem st) A) (map (mem st) B)"
    and G: "\<forall>g\<in>set G. owner_key (mem st g) = Some o' \<and> posix_ok (mem st g)" "chain (map (mem st) G)" "G = [] \<longrightarrow> B = []"
    using V R by simp_all
  have qok: "owner_ok (mem st q)" "lock_owner (mem st q) = o'" using req o' by (auto simp: request_ok_def)
  have ok: "IS_POSIX (mem st a) \<Longrightarrow> owner_ok (mem st a) \<and> lock_owner (mem st a) \<noteq> o'" if "a \<in> set A \<union> set B" for a
    using ar that by (auto simp: around_def owner_key_def posix_ok_def)
  have gk: "lock_owner (mem st g) = o'" "IS_POSIX (mem st g)" "owner_ok (mem st g)" if "g \<in> set G" for g
    using G(1) that by (auto simp: owner_key_def posix_ok_def split: if_splits)
  have "group_end st o' B"
    using ok ar by (cases B) (auto simp: group_end_def around_def)
  moreover have "q \<notin> set (A @ G @ B)" using req in_chains_I [of q st ino] i by (auto simp: request_ok_def)
  moreover have "requester st o' q" using req o' by (simp add: requester_def request_ok_def)
  ultimately have "at_start ino st o' A G B q"
    using i d G gk req by (auto simp: at_start_def own_group_def request_ok_def)
  moreover have "takeWhile (\<lambda>fl. \<not> IS_POSIX (mem st fl) \<or> \<not> posix_same_owner (mem st q) (mem st fl)) (A @ G @ B) = A"
  proof -
    have A: "\<not> IS_POSIX (mem st a) \<or> \<not> posix_same_owner (mem st q) (mem st a)" if "a \<in> set A" for a
      using ok [of a] that qok posix_same_owner_iff [OF qok(1)] by auto
    show ?thesis
      using A G(3) gk qok posix_same_owner_iff [OF qok(1)]
      by (cases G) (simp_all add: takeWhile_append2)
  qed
  ultimately show ?thesis using ar i by (intro exI [of _ A] exI [of _ G] exI [of _ B]) simp
qed

lemma group_set_held:
  assumes inv: "lock_inv st" and s: "at_start ino st o' A G B q" and ar: "around o' (map (mem st) A) (map (mem st) B)"
    and g: "group_set ino st o' A G B q fresh st'" and fresh: "fresh \<inter> in_chains st = {}" and q: "q \<notin> in_chains st"
  shows "lock_inv st' \<and> held st' = (held st)(ino := (held st ino)
    (o' := set_range (held st ino o') (fl_type (mem st q)) (fl_start (mem st q)) (fl_end (mem st q)))) \<and>
    (\<forall>i. nonposix (inode_locks st' i) = nonposix (inode_locks st i))"
proof -
  obtain G' where G': "i_flock st' = (i_flock st)(ino := A @ G' @ B)" "own_group st' o' G'" "chain (map (mem st') G')"
      "type_at (map (mem st') G') = set_range (type_at (map (mem st) G)) (fl_type (mem st q)) (fl_start (mem st q)) (fl_end (mem st q))"
      "\<forall>a. a \<notin> insert q (set G \<union> fresh) \<longrightarrow> mem st' a = mem st a" "set G' \<subseteq> set G \<union> fresh" "distinct G'"
    using g unfolding group_set_def by blast
  have i: "i_flock st ino = A @ G @ B" and d: "distinct (A @ G @ B)" and G: "chain (map (mem st) G)" "own_group st o' G"
    using s by (auto simp: at_start_def)
  have AB: "a \<in> in_chains st" "a \<notin> set G" if "a \<in> set A \<union> set B" for a
    using that i d by (auto simp: in_chains_def intro!: exI [of _ ino])
  have sameAB: "mem st' a = mem st a" if "a \<in> set A \<union> set B" for a
    using G'(5) AB [OF that] q fresh by auto
  have mAB: "map (mem st') A = map (mem st) A" "map (mem st') B = map (mem st) B" using sameAB by auto
  have others: "inode_locks st' i = inode_locks st i" if "i \<noteq> ino" for i
  proof -
    have "mem st' a = mem st a" if "a \<in> set (i_flock st i)" for a
    proof -
      have "a \<in> in_chains st" using that by (rule in_chains_I)
      moreover have "a \<notin> set G" using inv that \<open>i \<noteq> ino\<close> i by (fastforce simp: lock_inv_def)
      ultimately show ?thesis using G'(5) q fresh by auto
    qed
    then show ?thesis using that G'(1) by (simp add: inode_locks_def)
  qed
  have ino: "inode_locks st' ino = map (mem st) A @ map (mem st') G' @ map (mem st) B"
    and ino0: "inode_locks st ino = map (mem st) A @ map (mem st) G @ map (mem st) B"
    using G'(1) mAB i by (simp_all add: inode_locks_def del: map_eq_conv)
  have k': "\<forall>g\<in>set (map (mem st') G'). owner_key g = Some o' \<and> posix_ok g"
    and k: "\<forall>g\<in>set (map (mem st) G). owner_key g = Some o' \<and> posix_ok g"
    using G'(2) G(2) by (auto simp: own_group_def owner_key_def posix_ok_def)
  note new = inode_inv_join [OF ar k' G'(3), folded ino] and old = inode_inv_join [OF ar k G(1), folded ino0]
  have "held st' ino x = ((held st ino)(o' := set_range (held st ino o') (fl_type (mem st q))
      (fl_start (mem st q)) (fl_end (mem st q)))) x" for x
    unfolding held_def using new(2,3) old(2,3) G'(4) by (cases "x = o'") simp_all
  then have "held st' i = ((held st)(ino := (held st ino)(o' := set_range (held st ino o') (fl_type (mem st q))
      (fl_start (mem st q)) (fl_end (mem st q))))) i" for i
    using others by (cases "i = ino") (simp_all add: held_def fun_eq_iff)
  moreover have "lock_inv st'"
  proof -
    have "distinct (A @ G' @ B)"
      using d G'(6,7) fresh AB by auto
    moreover have "set (i_flock st j) \<inter> set (A @ G' @ B) = {}" if "j \<noteq> ino" for j
      using inv that i G'(6) fresh in_chains_I [of _ st j] by (fastforce simp: lock_inv_def)
    ultimately show ?thesis
      using inv others new(1) G'(1) unfolding lock_inv_def by (auto simp: Int_commute)
  qed
  moreover have "nonposix (inode_locks st' i) = nonposix (inode_locks st i)" for i
  proof (cases "i = ino")
    case True
    have "nonposix (map (mem st') G') = []" "nonposix (map (mem st) G) = []"
      using k k' by (auto simp: posix_ok_def)
    then show ?thesis unfolding True ino ino0 by simp
  qed (simp add: others)
  ultimately show ?thesis by auto
qed

section \<open>The effect of a request\<close>

lemma alloc_frame:
  "i_flock (locks_alloc_lock n st) = i_flock st"
  "mem (locks_alloc_lock n st) a = (if n = Some a then locks_init_lock_always else mem st a)"
  "blocked_list (locks_alloc_lock n st) = blocked_list st" "fl_block (locks_alloc_lock n st) = fl_block st"
  "waits_on (locks_alloc_lock n st) = waits_on st"
  by (auto simp: locks_alloc_lock_def split: option.split)

text \<open>The state after the two allocations, of which only unused structures are changed.\<close>

definition alloc_needed :: "file_lock \<Rightarrow> bool" where
  "alloc_needed r \<longleftrightarrow> \<not> has_flag r FL_ACCESS \<and>
     (fl_type r \<noteq> F_UNLCK \<or> fl_start r \<noteq> 0 \<or> fl_end r \<noteq> OFFSET_MAX)"

definition alloc_two :: "addr option \<Rightarrow> addr option \<Rightarrow> lock_state \<Rightarrow> lock_state" where
  "alloc_two n1 n2 st = locks_alloc_lock n2 (locks_alloc_lock n1 st)"

lemma alloc_two_same:
  assumes "fresh_allocs st q n1 n2"
  shows "i_flock (alloc_two n1 n2 st) = i_flock st" "mem (alloc_two n1 n2 st) q = mem st q"
    "\<forall>a\<in>in_chains st. mem (alloc_two n1 n2 st) a = mem st a"
  using assms by (auto simp: alloc_two_def alloc_frame fresh_allocs_def)

lemma posix_conflict_cong:
  assumes "i_flock st' = i_flock st" "mem st' q = mem st q" "\<forall>a\<in>in_chains st. mem st' a = mem st a"
  shows "posix_conflict st' ino q = posix_conflict st ino q"
proof -
  have "mem st' a = mem st a" if "a \<in> set (i_flock st ino)" for a
    using assms(3) in_chains_I [OF that] by blast
  then show ?thesis using assms(1,2) by (auto simp: posix_conflict_def intro!: find_cong)
qed

text \<open>The function as its four outcomes.\<close>

lemma posix_lock_file_unfold:
  assumes fresh: "fresh_allocs st q a1 a2" and r: "r = mem st q"
    and n: "n1 = (if alloc_needed r then a1 else None)" "n2 = (if alloc_needed r then a2 else None)"
    and st0: "st0 = alloc_two n1 n2 st"
  shows "posix_lock_file_conf ino tgid q a1 a2 cf st =
    (case (if fl_type r \<noteq> F_UNLCK then posix_conflict st ino q else None) of
       Some fl \<Rightarrow>
         (if has_flag r FL_SLEEP \<and> \<not> posix_locks_deadlock st0 q fl then locks_insert_block fl q st0 else st0,
          map_option (\<lambda>c. copy_lock_fields c (mem st0 fl)) cf,
          if \<not> has_flag r FL_SLEEP then Lock_Error EAGAIN
          else if posix_locks_deadlock st0 q fl then Lock_Error EDEADLK else FILE_LOCK_DEFERRED)
     | None \<Rightarrow>
         if has_flag r FL_ACCESS then (st0, cf, Lock_Ok)
         else let (st', res) = posix_apply ino tgid n1 n2 (posix_owner_loop ino st0
                  (length (takeWhile (\<lambda>fl. \<not> IS_POSIX (mem st0 fl) \<or> \<not> posix_same_owner r (mem st0 fl)) (i_flock st0 ino)))
                  q False None None)
              in (st', cf, res))"
proof -
  have "fresh_allocs st q n1 n2" using fresh by (auto simp: fresh_allocs_def n)
  note same = alloc_two_same [OF this, folded st0]
  have c: "posix_conflict st0 ino q = posix_conflict st ino q" by (rule posix_conflict_cong [OF same])
  have need: "(\<not> has_flag r FL_ACCESS \<and> (fl_type r \<noteq> F_UNLCK \<or> fl_start r \<noteq> 0 \<or> fl_end r \<noteq> OFFSET_MAX)) = alloc_needed r"
    by (simp add: alloc_needed_def)
  show ?thesis
    unfolding posix_lock_file_conf_def Let_def r [symmetric] need n [symmetric]
      alloc_two_def [symmetric] st0 [symmetric] c
    by (auto split: option.split)
qed

text \<open>A request that meets no conflict works on the group of its owner.\<close>

lemma posix_lock_file_group:
  assumes inv: "lock_inv st" and req: "request_ok st q" and fresh: "fresh_allocs st q a1 a2"
    and n: "n1 = (if alloc_needed (mem st q) then a1 else None)" "n2 = (if alloc_needed (mem st q) then a2 else None)"
    and st0: "st0 = alloc_two n1 n2 st" and o: "o' = lock_owner (mem st q)"
    and run: "posix_lock_file_conf ino tgid q a1 a2 cf st = (st', cf', res)"
    and none: "(if fl_type (mem st q) \<noteq> F_UNLCK then posix_conflict st ino q else None) = None"
    and acc: "\<not> has_flag (mem st q) FL_ACCESS"
  shows "\<exists>A G B. at_start ino st0 o' A G B q \<and> around o' (map (mem st0) A) (map (mem st0) B) \<and>
    held st ino o' = type_at (map (mem st0) G) \<and> outcome ino st0 o' A G B q n1 n2 (st', res) \<and>
    posix_apply ino tgid n1 n2 (posix_owner_loop ino st0 (length A) q False None None) = (st', res)"
proof -
  note unf = posix_lock_file_unfold [OF fresh refl n st0, of ino tgid cf]
  have fresh': "fresh_allocs st q n1 n2" using fresh by (auto simp: fresh_allocs_def n)
  note same = alloc_two_same [OF this, folded st0]
  note keep = same_chains [OF same(1,3)]
  have inv0: "lock_inv st0" and req0: "request_ok st0 q"
    using inv req keep same by (simp_all add: request_ok_def)
  have o0: "lock_owner (mem st0 q) = o'" using same(2) o by simp
  from owner_group_start [OF inv0 req0 refl, of ino, unfolded o0] obtain A G B where s: "at_start ino st0 o' A G B q"
    and ar: "around o' (map (mem st0) A) (map (mem st0) B)"
    and len: "length (takeWhile (\<lambda>fl. \<not> IS_POSIX (mem st0 fl) \<or> \<not> posix_same_owner (mem st0 q) (mem st0 fl)) (i_flock st0 ino)) = length A"
    by blast
  have run0: "posix_apply ino tgid n1 n2 (posix_owner_loop ino st0 (length A) q False None None) = (st', res)"
    using run len unfolding unf none same(2) by (simp add: acc split: prod.splits)
  have AGB: "set (A @ G @ B) \<subseteq> in_chains st"
    using s keep(1) in_chains_I [of _ st0 ino] by (auto simp: at_start_def)
  have fr: "(set_option n1 \<union> set_option n2) \<inter> insert q (in_chains st) = {}" "n1 = None \<or> n1 \<noteq> n2"
    using fresh' by (auto simp: fresh_allocs_def)
  have out: "outcome ino st0 o' A G B q n1 n2 (st', res)"
    using run_group [OF s, of n1 n2 tgid] fr AGB unfolding run0 by fastforce
  have G: "\<forall>g\<in>set (map (mem st0) G). owner_key g = Some o' \<and> posix_ok g" "chain (map (mem st0) G)"
    and i: "inode_locks st0 ino = map (mem st0) A @ map (mem st0) G @ map (mem st0) B"
    using s by (auto simp: at_start_def own_group_def owner_key_def posix_ok_def inode_locks_def)
  have "held st ino o' = type_at (map (mem st0) G)"
    unfolding held_def keep(2) [symmetric] i by (rule inode_inv_join(2) [OF ar G])
  then show ?thesis using s ar run0 out by blast
qed

lemma posix_lock_file_effect:
  assumes inv: "lock_inv st" and req: "request_ok st q" and fresh: "fresh_allocs st q a1 a2"
    and run: "posix_lock_file_conf ino tgid q a1 a2 cf st = (st', cf', res)"
  shows "lock_inv st' \<and> (\<forall>i. nonposix (inode_locks st' i) = nonposix (inode_locks st i)) \<and>
    (if res = Lock_Ok \<and> \<not> has_flag (mem st q) FL_ACCESS
     then held st' = (held st)(ino := (held st ino)(lock_owner (mem st q) :=
       set_range (held st ino (lock_owner (mem st q))) (fl_type (mem st q)) (fl_start (mem st q)) (fl_end (mem st q))))
     else i_flock st' = i_flock st \<and> (\<forall>a\<in>in_chains st. mem st' a = mem st a))"
proof -
  define n1 where "n1 = (if alloc_needed (mem st q) then a1 else None)"
  define n2 where "n2 = (if alloc_needed (mem st q) then a2 else None)"
  define st0 where "st0 = alloc_two n1 n2 st"
  note unf = posix_lock_file_unfold [OF fresh refl n1_def n2_def st0_def, of ino tgid cf]
  have fresh': "fresh_allocs st q n1 n2" using fresh by (auto simp: fresh_allocs_def n1_def n2_def)
  note same = alloc_two_same [OF this, folded st0_def]
  note keep = same_chains [OF same(1,3)]
  have keepI: ?thesis if "i_flock st' = i_flock st0" "mem st' = mem st0" "\<not> (res = Lock_Ok \<and> \<not> has_flag (mem st q) FL_ACCESS)"
    using that same same_chains [of st' st] inv by auto
  show ?thesis
  proof (cases "if fl_type (mem st q) \<noteq> F_UNLCK then posix_conflict st ino q else None")
    case (Some fl)
    then show ?thesis
      using run unfolding unf Some by (intro keepI) (auto simp: lock_frame split: if_splits)
  next
    case None
    show ?thesis
    proof (cases "has_flag (mem st q) FL_ACCESS")
      case True
      then show ?thesis using run unfolding unf None by (intro keepI) auto
    next
      case False
      have inv0: "lock_inv st0" using inv keep by simp
      have fr: "(set_option n1 \<union> set_option n2) \<inter> insert q (in_chains st) = {}"
        using fresh' by (auto simp: fresh_allocs_def)
      obtain A G B where s: "at_start ino st0 (lock_owner (mem st q)) A G B q"
        and ar: "around (lock_owner (mem st q)) (map (mem st0) A) (map (mem st0) B)"
        and "outcome ino st0 (lock_owner (mem st q)) A G B q n1 n2 (st', res)"
        using posix_lock_file_group [OF inv req fresh n1_def n2_def st0_def refl run None False] by blast
      then show ?thesis
        using group_set_held [OF inv0 s ar, of "set_option n1 \<union> set_option n2" st'] fr req same keep False inv0
        by (auto simp: outcome_def request_ok_def fun_eq_iff split: if_splits)
    qed
  qed
qed

section \<open>Conflicts\<close>

lemma held_iff:
  assumes "lock_inv st"
  shows "held st ino o' b = Some t \<longleftrightarrow>
    (\<exists>a\<in>set (i_flock st ino). IS_POSIX (mem st a) \<and> lock_owner (mem st a) = o' \<and> covers (mem st a) b \<and> fl_type (mem st a) = t)"
    (is "_ \<longleftrightarrow> ?R t")
proof -
  let ?F = "filter (\<lambda>f. owner_key f = Some o') (inode_locks st ino)"
  have ch: "chain ?F" using assms unfolding lock_inv_def inode_inv_def by blast
  have "\<forall>f\<in>set (inode_locks st ino). IS_POSIX f \<longrightarrow> posix_ok f"
    using assms unfolding lock_inv_def inode_inv_def by blast
  then have ok: "\<forall>f\<in>set ?F. fl_start f \<le> fl_end f"
    using key_posix by (auto simp: posix_ok_def range_ok_def)
  have R: "?R t \<longleftrightarrow> (\<exists>f\<in>set ?F. covers f b \<and> fl_type f = t)"
    by (auto simp: inode_locks_def owner_key_def)
  show ?thesis
    unfolding R held_def lock_table_def
    using type_at_Some [of ?F b t] type_at_in_chain [OF ch _ _ ok] by auto
qed

text \<open>A request is refused for a lock exactly when another owner holds a byte of it in a mode that
  excludes the requested one.\<close>

definition excluded_by :: "lock_state \<Rightarrow> inode_nr \<Rightarrow> file_lock \<Rightarrow> bool" where
  "excluded_by st ino r \<longleftrightarrow> (\<exists>o' b t. o' \<noteq> lock_owner r \<and> covers r b \<and> held st ino o' b = Some t \<and>
     (t = F_WRLCK \<or> fl_type r = F_WRLCK))"

lemma posix_locks_conflict_iff:
  assumes "posix_ok f" "owner_ok r" "range_ok r"
  shows "posix_locks_conflict r f \<longleftrightarrow> lock_owner f \<noteq> lock_owner r \<and> (\<exists>b. covers r b \<and> covers f b) \<and>
    (fl_type f = F_WRLCK \<or> fl_type r = F_WRLCK)"
proof -
  have "locks_overlap r f \<longleftrightarrow> (\<exists>b. covers r b \<and> covers f b)"
    using assms by (auto simp: locks_overlap_def covers_def posix_ok_def range_ok_def
      intro: exI [of _ "max (fl_start r) (fl_start f)"])
  then show ?thesis
    using assms posix_same_owner_iff [of r f]
    by (auto simp: posix_locks_conflict_def locks_conflict_def posix_ok_def)
qed

lemma posix_conflict_Some:
  "posix_conflict st ino q = Some fl \<Longrightarrow>
   fl \<in> set (i_flock st ino) \<and> IS_POSIX (mem st fl) \<and> posix_locks_conflict (mem st q) (mem st fl)"
  by (auto simp: posix_conflict_def find_Some_iff)

lemma chain_posix_ok: "lock_inv st \<Longrightarrow> a \<in> set (i_flock st ino) \<Longrightarrow> IS_POSIX (mem st a) \<Longrightarrow> posix_ok (mem st a)"
  by (auto simp: lock_inv_def inode_inv_def inode_locks_def)

lemma posix_conflict_iff:
  assumes "lock_inv st" "request_ok st q"
  shows "posix_conflict st ino q \<noteq> None \<longleftrightarrow> excluded_by st ino (mem st q)"
proof -
  have r: "owner_ok (mem st q)" "range_ok (mem st q)" using assms(2) by (auto simp: request_ok_def)
  have "posix_conflict st ino q \<noteq> None \<longleftrightarrow>
      (\<exists>a\<in>set (i_flock st ino). IS_POSIX (mem st a) \<and> posix_locks_conflict (mem st q) (mem st a))"
    unfolding posix_conflict_def by (auto simp: find_None_iff)
  also have "\<dots> \<longleftrightarrow> excluded_by st ino (mem st q)"
    unfolding excluded_by_def held_iff [OF assms(1)]
    using posix_locks_conflict_iff [OF chain_posix_ok [OF assms(1)] r] by blast
  finally show ?thesis .
qed

text \<open>The complete case analysis of the result.\<close>

lemma posix_lock_file_result:
  assumes inv: "lock_inv st" and req: "request_ok st q" and fresh: "fresh_allocs st q a1 a2"
    and run: "posix_lock_file_conf ino tgid q a1 a2 cf st = (st', cf', res)"
  shows "(if fl_type (mem st q) \<noteq> F_UNLCK \<and> excluded_by st ino (mem st q)
     then if has_flag (mem st q) FL_SLEEP then res \<in> {Lock_Error EDEADLK, FILE_LOCK_DEFERRED} else res = Lock_Error EAGAIN
     else res \<in> {Lock_Ok, Lock_Error ENOLCK, Lock_Error ENOENT})"
proof -
  note unf = posix_lock_file_unfold [OF fresh refl refl refl refl, of ino tgid cf]
  show ?thesis
  proof (cases "fl_type (mem st q) \<noteq> F_UNLCK \<and> excluded_by st ino (mem st q)")
    case True
    then obtain fl where "posix_conflict st ino q = Some fl" using posix_conflict_iff [OF inv req] by auto
    then show ?thesis using run True unfolding unf by (auto split: if_splits)
  next
    case False
    then have "(if fl_type (mem st q) \<noteq> F_UNLCK then posix_conflict st ino q else None) = None"
      using posix_conflict_iff [OF inv req, of ino] by (cases "posix_conflict st ino q") auto
    then show ?thesis
      using run False unfolding unf
      by (auto simp: posix_apply_def Let_def split: if_splits prod.splits)
  qed
qed

text \<open>Unlocking a range of which the owner holds no byte passes all its locks.\<close>

lemma loop_unlock_free:
  assumes "i_flock st ino = P @ G @ B" "requester st o' q" "fl_type (mem st q) = F_UNLCK"
    "own_group st o' G" "group_end st o' B"
    "\<forall>g\<in>set G. fl_end (mem st g) < fl_start (mem st q) \<or> fl_end (mem st q) < fl_start (mem st g)"
  shows "\<exists>n. posix_owner_loop ino st (length P) q False None None = (st, n, q, False, None, None)"
  using assms
proof (induction G arbitrary: P)
  case Nil
  then show ?case using loop_stop [of st ino P B o' q] by simp
next
  case (Cons g G)
  have g: "posix_ok (mem st g)" "lock_owner (mem st g) = o'" using Cons.prems(4) by simp_all
  have "fl_type (mem st g) \<noteq> F_UNLCK" using g(1) by (auto simp: posix_ok_def lock_consts)
  then show ?case
    using loop_turn [of st ino P g "G @ B" o' q False None None] g Cons.prems Cons.IH [of "P @ [g]"]
    by (auto simp: Let_def)
qed

lemma group_free:
  assumes "own_group st o' G" "requester st o' q" "\<forall>b. covers (mem st q) b \<longrightarrow> type_at (map (mem st) G) b = None"
    "g \<in> set G"
  shows "fl_end (mem st g) < fl_start (mem st q) \<or> fl_end (mem st q) < fl_start (mem st g)"
proof (rule ccontr)
  assume no: "\<not> ?thesis"
  let ?b = "max (fl_start (mem st q)) (fl_start (mem st g))"
  have "covers (mem st q) ?b" "covers (mem st g) ?b"
    using no assms(1,2,4) by (auto simp: covers_def requester_def own_group_def posix_ok_def range_ok_def)
  then show False using assms(3,4) by (auto simp: type_at_None)
qed

text \<open>When a request without a conflict fails.\<close>

definition cuts :: "(int \<Rightarrow> u8 option) \<Rightarrow> file_lock \<Rightarrow> bool" where
  "cuts own r \<longleftrightarrow> (\<exists>t. t \<noteq> fl_type r \<and> (\<forall>b. fl_start r - 1 \<le> b \<and> b \<le> fl_end r + 1 \<longrightarrow> own b = Some t))"

lemma cut_in_two_cuts:
  assumes "chain (map (mem st) G)" "own_group st o' G" "cut_in_two st q G"
  shows "cuts (type_at (map (mem st) G)) (mem st q)" "\<exists>g\<in>set G. range_ok (mem st g) \<and> fl_start (mem st g) < fl_start (mem st q)"
proof -
  obtain g where g: "g \<in> set G" "fl_type (mem st g) \<noteq> fl_type (mem st q)"
      "fl_start (mem st g) < fl_start (mem st q)" "fl_end (mem st q) < fl_end (mem st g)"
    using assms(3) by (auto simp: cut_in_two_def)
  have "\<forall>f\<in>set (map (mem st) G). fl_start f \<le> fl_end f"
    using assms(2) by (auto simp: own_group_def posix_ok_def range_ok_def)
  from type_at_in_chain [OF assms(1) _ _ this, of "mem st g"] g
  show "cuts (type_at (map (mem st) G)) (mem st q)"
    by (auto simp: cuts_def covers_def intro!: exI [of _ "fl_type (mem st g)"])
  show "\<exists>g\<in>set G. range_ok (mem st g) \<and> fl_start (mem st g) < fl_start (mem st q)"
    using g assms(2) by (auto simp: own_group_def posix_ok_def)
qed

lemma posix_lock_file_failure:
  assumes inv: "lock_inv st" and req: "request_ok st q" and fresh: "fresh_allocs st q a1 a2"
    and run: "posix_lock_file_conf ino tgid q a1 a2 cf st = (st', cf', res)"
    and none: "(if fl_type (mem st q) \<noteq> F_UNLCK then posix_conflict st ino q else None) = None"
    and acc: "\<not> has_flag (mem st q) FL_ACCESS"
  defines "own \<equiv> held st ino (lock_owner (mem st q))"
  shows "res \<in> {Lock_Ok, Lock_Error ENOLCK, Lock_Error ENOENT}"
    "res = Lock_Error ENOLCK \<Longrightarrow> a1 = None \<and> fl_type (mem st q) \<noteq> F_UNLCK \<or> a2 = None \<and> cuts own (mem st q)"
    "res = Lock_Error ENOENT \<longleftrightarrow> fl_type (mem st q) = F_UNLCK \<and> has_flag (mem st q) FL_EXISTS \<and>
       (\<forall>b. covers (mem st q) b \<longrightarrow> own b = None)"
proof -
  define n1 where "n1 = (if alloc_needed (mem st q) then a1 else None)"
  define n2 where "n2 = (if alloc_needed (mem st q) then a2 else None)"
  define st0 where "st0 = alloc_two n1 n2 st"
  have "fresh_allocs st q n1 n2" using fresh by (auto simp: fresh_allocs_def n1_def n2_def)
  note q = alloc_two_same(2) [OF this, folded st0_def]
  let ?o = "lock_owner (mem st q)"
  obtain A G B where s: "at_start ino st0 ?o A G B q" and own: "own = type_at (map (mem st0) G)"
    and out: "outcome ino st0 ?o A G B q n1 n2 (st', res)"
    and ap: "posix_apply ino tgid n1 n2 (posix_owner_loop ino st0 (length A) q False None None) = (st', res)"
    unfolding own_def
    using posix_lock_file_group [OF inv req fresh n1_def n2_def st0_def refl run none acc] by blast
  have G: "chain (map (mem st0) G)" "own_group st0 ?o G" and rq: "requester st0 ?o q"
    and i: "i_flock st0 ino = A @ G @ B" "group_end st0 ?o B"
    using s by (auto simp: at_start_def)
  show "res \<in> {Lock_Ok, Lock_Error ENOLCK, Lock_Error ENOENT}"
    using out by (auto simp: outcome_def split: if_splits)
  have cut: "cuts own (mem st q) \<and> alloc_needed (mem st q)" if "cut_in_two st0 q G"
    using cut_in_two_cuts [OF G that] own q acc by (auto simp: alloc_needed_def range_ok_def)
  show "a1 = None \<and> fl_type (mem st q) \<noteq> F_UNLCK \<or> a2 = None \<and> cuts own (mem st q)" if "res = Lock_Error ENOLCK"
    using out that cut q acc by (auto simp: outcome_def n1_def n2_def alloc_needed_def split: if_splits)
  show "res = Lock_Error ENOENT \<longleftrightarrow> fl_type (mem st q) = F_UNLCK \<and> has_flag (mem st q) FL_EXISTS \<and>
       (\<forall>b. covers (mem st q) b \<longrightarrow> own b = None)" (is "_ \<longleftrightarrow> ?U \<and> ?E \<and> ?F")
  proof
    assume e: "res = Lock_Error ENOENT"
    then have u: "?U" "?E" and g: "group_set ino st0 ?o A G B q {} st0"
      using out q by (auto simp: outcome_def)
    obtain G' where "i_flock st0 = (i_flock st0)(ino := A @ G' @ B)"
        "type_at (map (mem st0) G') = set_range own F_UNLCK (fl_start (mem st q)) (fl_end (mem st q))"
      using g u(1) q own unfolding group_set_def by auto
    moreover from this(1) have "G' = G" using i(1) by (metis append_same_eq fun_upd_same same_append_eq)
    ultimately have "own = set_range own F_UNLCK (fl_start (mem st q)) (fl_end (mem st q))" using own by simp
    then have "?F" by (metis covers_def set_range_def)
    with u show "?U \<and> ?E \<and> ?F" by blast
  next
    assume u: "?U \<and> ?E \<and> ?F"
    have "\<forall>b. covers (mem st0 q) b \<longrightarrow> type_at (map (mem st0) G) b = None" using u q own by simp
    from loop_unlock_free [OF i(1) rq _ G(2) i(2)] group_free [OF G(2) rq this] u q
    obtain n where "posix_owner_loop ino st0 (length A) q False None None = (st0, n, q, False, None, None)" by auto
    with ap u q show "res = Lock_Error ENOENT" by (auto simp: posix_apply_def)
  qed
qed

lemma posix_lock_file_access:
  assumes fresh: "fresh_allocs st q a1 a2" and run: "posix_lock_file_conf ino tgid q a1 a2 cf st = (st', cf', res)"
    and none: "(if fl_type (mem st q) \<noteq> F_UNLCK then posix_conflict st ino q else None) = None"
    and acc: "has_flag (mem st q) FL_ACCESS"
  shows "res = Lock_Ok"
  using run unfolding posix_lock_file_unfold [OF fresh refl refl refl refl, of ino tgid cf] none by (simp add: acc)

lemma posix_lock_file_conflict:
  assumes inv: "lock_inv st" and req: "request_ok st q" and fresh: "fresh_allocs st q a1 a2"
    and run: "posix_lock_file_conf ino tgid q a1 a2 cf st = (st', cf', res)"
    and ex: "fl_type (mem st q) \<noteq> F_UNLCK" "excluded_by st ino (mem st q)"
  shows "if has_flag (mem st q) FL_SLEEP
    then \<exists>fl. posix_conflict st ino q = Some fl \<and>
      (res = Lock_Error EDEADLK \<and> posix_locks_deadlock st' q fl \<or>
       res = FILE_LOCK_DEFERRED \<and> waits_on st' q = Some fl)
    else res = Lock_Error EAGAIN"
proof -
  obtain fl where fl: "posix_conflict st ino q = Some fl" using posix_conflict_iff [OF inv req] ex by auto
  then show ?thesis
    using run ex(1) unfolding posix_lock_file_unfold [OF fresh refl refl refl refl, of ino tgid cf]
    by (auto simp: locks_insert_block_def Let_def split: if_splits)
qed

section \<open>Exclusion\<close>

definition exclusive :: "lock_state \<Rightarrow> bool" where
  "exclusive st \<longleftrightarrow> (\<forall>ino o1 o2 b. o1 \<noteq> o2 \<and> held st ino o1 b = Some F_WRLCK \<longrightarrow> held st ino o2 b = None)"

lemma posix_lock_file_exclusive:
  assumes inv: "lock_inv st" and req: "request_ok st q" and fresh: "fresh_allocs st q a1 a2"
    and run: "posix_lock_file_conf ino tgid q a1 a2 cf st = (st', cf', res)" and ex: "exclusive st"
  shows "exclusive st'"
proof (cases "res = Lock_Ok \<and> \<not> has_flag (mem st q) FL_ACCESS")
  case False
  then have "held st' i = held st i" for i
    using posix_lock_file_effect [OF inv req fresh run] same_chains [of st' st] by auto
  then show ?thesis using ex by (simp add: exclusive_def)
next
  case True
  let ?r = "mem st q"
  have h: "held st' = (held st)(ino := (held st ino)(lock_owner ?r :=
       set_range (held st ino (lock_owner ?r)) (fl_type ?r) (fl_start ?r) (fl_end ?r)))"
    using posix_lock_file_effect [OF inv req fresh run] True by simp
  have free: "fl_type ?r = F_UNLCK \<or> \<not> excluded_by st ino ?r"
    using posix_lock_file_result [OF inv req fresh run] True by (auto split: if_splits)
  have types: "t \<in> {F_RDLCK, F_WRLCK}" if "held st i o' b = Some t" for i o' b t
    using that chain_posix_ok [OF inv] unfolding held_iff [OF inv] by (auto simp: posix_ok_def)
  show ?thesis
    unfolding exclusive_def
  proof (intro allI impI)
    fix i o1 o2 b assume a: "o1 \<noteq> o2 \<and> held st' i o1 b = Some F_WRLCK"
    have old: "held st i o1 b = Some F_WRLCK \<Longrightarrow> held st i o2 b = None" using ex a unfolding exclusive_def by blast
    have no: "held st ino o' b = None" if "o' \<noteq> lock_owner ?r" "covers ?r b" "fl_type ?r = F_WRLCK" for o'
    proof -
      have "\<not> excluded_by st ino ?r" using free that(3) by (auto simp: lock_consts)
      then show ?thesis using that unfolding excluded_by_def by (metis option.exhaust)
    qed
    have no': "held st ino o' b \<noteq> Some F_WRLCK" if "o' \<noteq> lock_owner ?r" "covers ?r b" "fl_type ?r \<noteq> F_UNLCK" for o'
      using free that unfolding excluded_by_def by blast
    show "held st' i o2 b = None"
      using a old no [of o2] no' [of o1] by (auto simp: h set_range_def covers_def split: if_splits)
  qed
qed

section \<open>What a lock call promises\<close>

text \<open>States for the examples: no locks at all, and one read lock of 10 bytes.\<close>

definition empty_locks :: lock_state where
  "empty_locks = \<lparr>mem = (\<lambda>_. locks_init_lock_always), i_flock = (\<lambda>_. []), file_lock_list = [], blocked_list = [],
     fl_block = (\<lambda>_. []), waits_on = (\<lambda>_. None), woken = []\<rparr>"

definition range_lock :: "nat \<Rightarrow> u8 \<Rightarrow> int \<Rightarrow> int \<Rightarrow> file_lock" where
  "range_lock i type s e = locks_init_lock_always\<lparr>fl_owner := Files i, fl_flags := FL_POSIX OR FL_SLEEP,
     fl_type := type, fl_start := s, fl_end := e\<rparr>"

definition one_lock :: "file_lock \<Rightarrow> lock_state" where
  "one_lock request = empty_locks\<lparr>mem := (\<lambda>a. if a = 7 then range_lock 3 F_RDLCK 0 9 else request),
     i_flock := (\<lambda>ino. if ino = 0 then [7] else [])\<rparr>"

lemma range_lock_simps [simp]:
  "fl_type (range_lock i t s e) = t" "fl_start (range_lock i t s e) = s" "fl_end (range_lock i t s e) = e"
  "IS_POSIX (range_lock i t s e)" "owner_ok (range_lock i t s e)" "lock_owner (range_lock i t s e) = (Files i, 0)"
  "has_flag (range_lock i t s e) FL_SLEEP" "\<not> has_flag (range_lock i t s e) FL_ACCESS"
  by (simp_all add: range_lock_def locks_init_lock_always_def IS_POSIX_def owner_ok_def lock_owner_def IS_LEASE_def IS_FLOCK_def
      has_flag_def lock_consts)

lemma one_lock_locks: "inode_locks (one_lock r) ino = (if ino = 0 then [range_lock 3 F_RDLCK 0 9] else [])"
  by (simp add: inode_locks_def one_lock_def)

lemma one_lock_ok:
  assumes "IS_POSIX r" "owner_ok r" "range_ok r" "fl_type r \<in> {F_RDLCK, F_WRLCK, F_UNLCK}"
  shows "lock_inv (one_lock r)" "request_ok (one_lock r) 0" "fresh_allocs (one_lock r) 0 (Some 5) (Some 6)"
    "mem (one_lock r) 0 = r"
    "held (one_lock r) 0 (Files 3, 0) = (\<lambda>b. if 0 \<le> b \<and> b \<le> 9 then Some F_RDLCK else None)"
proof -
  have c: "in_chains (one_lock r) = {7}" by (auto simp: in_chains_def one_lock_def split: if_splits)
  show "mem (one_lock r) 0 = r" by (simp add: one_lock_def)
  have k: "owner_key (range_lock 3 F_RDLCK 0 9) = Some (Files 3, 0)" by (simp add: owner_key_def)
  have "inode_inv (inode_locks (one_lock r) i)" for i
    by (simp add: one_lock_locks inode_inv_def posix_ok_def range_ok_def OFFSET_MAX_def chain_def)
  then show "lock_inv (one_lock r)" by (auto simp: lock_inv_def one_lock_def)
  show "request_ok (one_lock r) 0" using assms c by (simp add: request_ok_def one_lock_def)
  show "fresh_allocs (one_lock r) 0 (Some 5) (Some 6)" using c by (simp add: fresh_allocs_def)
  show "held (one_lock r) 0 (Files 3, 0) = (\<lambda>b. if 0 \<le> b \<and> b \<le> 9 then Some F_RDLCK else None)"
    by (auto simp: held_def lock_table_def one_lock_locks k type_at_def covers_def)
qed

text \<open>
  C1: A POSIX lock request that succeeds sets the requested type on exactly the requested bytes of
  its owner and changes nothing else: with \<open>held\<close> as the abstract lock table (file, owner, byte),
  merging, splitting and trimming the lock structures refine one range update.
\<close>

theorem posix_lock_file_refines:
  assumes "lock_inv st" "request_ok st q" "fresh_allocs st q a1 a2"
    and "posix_lock_file ino tgid q a1 a2 st = (st', Lock_Ok)" "\<not> has_flag (mem st q) FL_ACCESS"
  shows "held st' = (held st)(ino := (held st ino)(lock_owner (mem st q) :=
    set_range (held st ino (lock_owner (mem st q))) (fl_type (mem st q)) (fl_start (mem st q)) (fl_end (mem st q))))"
proof -
  obtain cf where "posix_lock_file_conf ino tgid q a1 a2 None st = (st', cf, Lock_Ok)"
    using assms(4) by (auto simp: posix_lock_file_def split: prod.splits)
  from posix_lock_file_effect [OF assms(1-3) this] assms(5) show ?thesis by simp
qed

theorem posix_lock_file_refines_witness:
  "snd (posix_lock_file 0 0 0 (Some 5) (Some 6) (one_lock (range_lock 3 F_UNLCK 3 5))) = Lock_Ok \<and>
   held (fst (posix_lock_file 0 0 0 (Some 5) (Some 6) (one_lock (range_lock 3 F_UNLCK 3 5)))) 0 (Files 3, 0) 2 = Some F_RDLCK \<and>
   held (fst (posix_lock_file 0 0 0 (Some 5) (Some 6) (one_lock (range_lock 3 F_UNLCK 3 5)))) 0 (Files 3, 0) 4 = None \<and>
   held (fst (posix_lock_file 0 0 0 (Some 5) (Some 6) (one_lock (range_lock 3 F_UNLCK 3 5)))) 0 (Files 3, 0) 6 = Some F_RDLCK"
proof -
  let ?r = "range_lock 3 F_UNLCK 3 5"
  let ?run = "posix_lock_file 0 0 0 (Some 5) (Some 6) (one_lock ?r)"
  have res: "snd ?run = Lock_Ok" by code_simp
  then have run: "?run = (fst ?run, Lock_Ok)" by (metis prod.collapse)
  have r: "IS_POSIX ?r" "owner_ok ?r" "range_ok ?r" "fl_type ?r \<in> {F_RDLCK, F_WRLCK, F_UNLCK}"
    by (simp_all add: range_ok_def OFFSET_MAX_def)
  note ok = one_lock_ok [OF r]
  have "\<not> has_flag (mem (one_lock ?r) 0) FL_ACCESS" by (simp add: ok)
  from posix_lock_file_refines [OF ok(1-3) run this] res show ?thesis by (simp add: ok set_range_def)
qed

text \<open>
  C16: Whenever a POSIX lock request does not succeed (a conflict, a deadlock, a request that has to
  wait, no memory for the structures, or nothing to unlock) every lock of every file is left as it was.
\<close>

theorem posix_lock_file_error:
  assumes "lock_inv st" "request_ok st q" "fresh_allocs st q a1 a2"
    and "posix_lock_file ino tgid q a1 a2 st = (st', res)" "res \<noteq> Lock_Ok"
  shows "i_flock st' = i_flock st \<and> (\<forall>a\<in>in_chains st. mem st' a = mem st a) \<and> held st' = held st"
proof -
  obtain cf where "posix_lock_file_conf ino tgid q a1 a2 None st = (st', cf, res)"
    using assms(4) by (auto simp: posix_lock_file_def split: prod.splits)
  from posix_lock_file_effect [OF assms(1-3) this] assms(5)
  have same: "i_flock st' = i_flock st" "\<forall>a\<in>in_chains st. mem st' a = mem st a" by simp_all
  moreover have "held st' = held st" using same_chains(3) [OF same] by blast
  ultimately show ?thesis by blast
qed

theorem posix_lock_file_error_witness:
  "snd (posix_lock_file 0 0 0 (Some 5) None (one_lock (range_lock 3 F_UNLCK 3 5))) = Lock_Error ENOLCK \<and>
   i_flock (fst (posix_lock_file 0 0 0 (Some 5) None (one_lock (range_lock 3 F_UNLCK 3 5)))) =
     i_flock (one_lock (range_lock 3 F_UNLCK 3 5))"
proof -
  let ?r = "range_lock 3 F_UNLCK 3 5"
  let ?run = "posix_lock_file 0 0 0 (Some 5) None (one_lock ?r)"
  have res: "snd ?run = Lock_Error ENOLCK" by code_simp
  then have run: "?run = (fst ?run, Lock_Error ENOLCK)" by (metis prod.collapse)
  have r: "IS_POSIX ?r" "owner_ok ?r" "range_ok ?r" "fl_type ?r \<in> {F_RDLCK, F_WRLCK, F_UNLCK}"
    by (simp_all add: range_ok_def OFFSET_MAX_def)
  note ok = one_lock_ok [OF r]
  have "fresh_allocs (one_lock ?r) 0 (Some 5) None" using ok(3) by (simp add: fresh_allocs_def)
  from posix_lock_file_error [OF ok(1,2) this run] res show ?thesis by simp
qed

text \<open>
  C13: The result of a POSIX lock request. If another owner holds one of its bytes in a conflicting
  mode it fails with \<^verbatim>\<open>EAGAIN\<close> when it may not sleep; otherwise it is queued behind the conflicting
  lock, or refused with \<^verbatim>\<open>EDEADLK\<close> because the deadlock search found the caller. Without a conflict a
  request that only asks for access succeeds; unlocking with \<^verbatim>\<open>FL_EXISTS\<close> fails with \<^verbatim>\<open>ENOENT\<close> exactly
  when the owner holds no byte of the range; and \<^verbatim>\<open>ENOLCK\<close> needs a failed allocation: the first one
  for a lock, or the second one when a lock of another type has to be cut in two.
\<close>

theorem posix_lock_file_outcome:
  assumes "lock_inv st" "request_ok st q" "fresh_allocs st q a1 a2"
    and "posix_lock_file ino tgid q a1 a2 st = (st', res)"
  shows "if fl_type (mem st q) \<noteq> F_UNLCK \<and> excluded_by st ino (mem st q)
    then if has_flag (mem st q) FL_SLEEP
      then \<exists>fl. posix_conflict st ino q = Some fl \<and>
        (res = Lock_Error EDEADLK \<and> posix_locks_deadlock st' q fl \<or>
         res = FILE_LOCK_DEFERRED \<and> waits_on st' q = Some fl)
      else res = Lock_Error EAGAIN
    else if has_flag (mem st q) FL_ACCESS then res = Lock_Ok
    else if fl_type (mem st q) = F_UNLCK \<and> has_flag (mem st q) FL_EXISTS \<and>
      (\<forall>b. covers (mem st q) b \<longrightarrow> held st ino (lock_owner (mem st q)) b = None)
    then res = Lock_Error ENOENT
    else res = Lock_Ok \<or> res = Lock_Error ENOLCK \<and>
      (a1 = None \<and> fl_type (mem st q) \<noteq> F_UNLCK \<or>
       a2 = None \<and> cuts (held st ino (lock_owner (mem st q))) (mem st q))"
proof -
  obtain cf where run: "posix_lock_file_conf ino tgid q a1 a2 None st = (st', cf, res)"
    using assms(4) by (auto simp: posix_lock_file_def split: prod.splits)
  note wait = posix_lock_file_conflict [OF assms(1-3) run] and access = posix_lock_file_access [OF assms(3) run]
  have free: "(if fl_type (mem st q) \<noteq> F_UNLCK then posix_conflict st ino q else None) = None"
    if "\<not> (fl_type (mem st q) \<noteq> F_UNLCK \<and> excluded_by st ino (mem st q))"
    using that posix_conflict_iff [OF assms(1,2), of ino] by (cases "posix_conflict st ino q") auto
  note fail = posix_lock_file_failure [OF assms(1-3) run free]
  show ?thesis using wait access [OF free] fail by (auto split: if_splits)
qed

theorem posix_lock_file_outcome_witness:
  "snd (posix_lock_file 0 0 0 (Some 5) (Some 6) (one_lock (range_lock 4 F_WRLCK 9 20)))
     \<in> {Lock_Error EDEADLK, FILE_LOCK_DEFERRED} \<and>
   snd (posix_lock_file 0 0 0 (Some 5) (Some 6) (one_lock (range_lock 3 F_UNLCK 3 5))) = Lock_Ok"
proof
  let ?r = "range_lock 4 F_WRLCK 9 20" and ?u = "range_lock 3 F_UNLCK 3 5"
  let ?run = "\<lambda>r. posix_lock_file 0 0 0 (Some 5) (Some 6) (one_lock r)"
  have split: "?run r = (fst (?run r), snd (?run r))" for r by simp
  have r: "IS_POSIX ?r" "owner_ok ?r" "range_ok ?r" "fl_type ?r \<in> {F_RDLCK, F_WRLCK, F_UNLCK}"
    and u: "IS_POSIX ?u" "owner_ok ?u" "range_ok ?u" "fl_type ?u \<in> {F_RDLCK, F_WRLCK, F_UNLCK}"
    by (simp_all add: range_ok_def OFFSET_MAX_def)
  note ok = one_lock_ok [OF r] and ok' = one_lock_ok [OF u]
  have "excluded_by (one_lock ?r) 0 ?r"
    unfolding excluded_by_def
    by (rule exI [of _ "(Files 3, 0)"], rule exI [of _ 9], rule exI [of _ F_RDLCK]) (simp add: ok covers_def)
  moreover have "F_WRLCK \<noteq> F_UNLCK" by (simp add: lock_consts)
  ultimately show "snd (?run ?r) \<in> {Lock_Error EDEADLK, FILE_LOCK_DEFERRED}"
    using posix_lock_file_outcome [OF ok(1-3) split] by (auto simp: ok)
  have "covers ?u 4" "held (one_lock ?u) 0 (Files 3, 0) 4 = Some F_RDLCK" by (simp_all add: covers_def ok')
  then show "snd (?run ?u) = Lock_Ok"
    using posix_lock_file_outcome [OF ok'(1-3) split] by (auto simp: ok' split: if_splits)
qed

end
