(* ===== verification/Flock_Lease.thy ===== *)
theory Flock_Lease
  imports Posix_Lock
begin

text \<open>
  Whole-file locks and leases: \<^verbatim>\<open>flock_lock_file\<close>, \<^verbatim>\<open>lease_modify\<close>, \<^verbatim>\<open>time_out_leases\<close>,
  \<^verbatim>\<open>__break_lease\<close>, \<^verbatim>\<open>generic_setlease\<close> and what closing a file removes. They share the chains with
  the byte-range locks: leases first, then whole-file locks, then byte-range locks. Functions
  that give up the spinlock are cut there.
\<close>

section \<open>Whole-file locks\<close>

definition LOCK_SH :: u32 where "LOCK_SH = 1"
definition LOCK_EX :: u32 where "LOCK_EX = 2"
definition LOCK_NB :: u32 where "LOCK_NB = 4"
definition LOCK_UN :: u32 where "LOCK_UN = 8"
definition LOCK_RW :: u32 where "LOCK_RW = 192"

definition flock_translate_cmd :: "u32 \<Rightarrow> u8 result" where
  "flock_translate_cmd cmd =
     (if cmd AND ucast LOCK_MAND \<noteq> 0 then Inr (ucast (cmd AND (ucast LOCK_MAND OR LOCK_RW)))
      else if cmd = LOCK_SH then Inr F_RDLCK
      else if cmd = LOCK_EX then Inr F_WRLCK
      else if cmd = LOCK_UN then Inr F_UNLCK
      else Inl EINVAL)"

text \<open>The fields of the structure that \<^verbatim>\<open>flock_make_lock\<close> fills in, if it gets one.\<close>

definition flock_make_lock :: "lock_file \<Rightarrow> u32 \<Rightarrow> u32 \<Rightarrow> bool \<Rightarrow> file_lock result" where
  "flock_make_lock filp tgid cmd allocated =
     (case flock_translate_cmd cmd of
        Inl e \<Rightarrow> Inl e
      | Inr type \<Rightarrow>
          if \<not> allocated then Inl ENOMEM
          else Inr (locks_init_lock_always\<lparr>fl_file := Some filp, fl_pid := tgid, fl_flags := FL_FLOCK,
                      fl_type := type, fl_end := OFFSET_MAX\<rparr>))"

text \<open>The position of the first POSIX lock in a chain, where the loops over whole-file locks end.\<close>

definition flock_end :: "lock_state \<Rightarrow> inode_nr \<Rightarrow> nat" where
  "flock_end st ino = length (takeWhile (\<lambda>fl. \<not> IS_POSIX (mem st fl)) (i_flock st ino))"

text \<open>The first loop: the old lock of the file, if there is one.\<close>

fun flock_old :: "(addr \<Rightarrow> file_lock) \<Rightarrow> lock_file \<Rightarrow> nat \<Rightarrow> addr list \<Rightarrow> nat option" where
  "flock_old m filp n [] = None"
| "flock_old m filp n (fl # fls) =
     (if IS_POSIX (m fl) then None
      else if IS_LEASE (m fl) then flock_old m filp (n + 1) fls
      else if Some filp \<noteq> fl_file (m fl) then flock_old m filp (n + 1) fls
      else Some n)"

text \<open>The second loop: the first lock in the way of the request.\<close>

fun flock_conflict :: "(addr \<Rightarrow> file_lock) \<Rightarrow> file_lock \<Rightarrow> addr list \<Rightarrow> addr option" where
  "flock_conflict m r [] = None"
| "flock_conflict m r (fl # fls) =
     (if IS_POSIX (m fl) then None
      else if IS_LEASE (m fl) then flock_conflict m r fls
      else if \<not> flock_locks_conflict r (m fl) then flock_conflict m r fls
      else Some fl)"

text \<open>
  \<^verbatim>\<open>flock_lock_file\<close> in two parts. Between them it gives up the spinlock if it removed an old lock,
  and other tasks may run. The first part returns the result if the call ends there.
\<close>

definition flock_replace :: "inode_nr \<Rightarrow> lock_file \<Rightarrow> addr \<Rightarrow> lock_state \<Rightarrow> lock_state \<times> lock_result option" where
  "flock_replace ino filp request st =
     (let r = mem st request in
      case flock_old (mem st) filp 0 (i_flock st ino) of
        Some n \<Rightarrow>
          if fl_type r = fl_type (mem st (i_flock st ino ! n)) then (st, Some Lock_Ok)
          else (locks_delete_lock ino n st, if fl_type r = F_UNLCK then Some Lock_Ok else None)
      | None \<Rightarrow>
          (st, if fl_type r = F_UNLCK
               then Some (if has_flag r FL_EXISTS then Lock_Error ENOENT else Lock_Ok) else None))"

definition flock_find_conflict :: "inode_nr \<Rightarrow> u32 \<Rightarrow> addr \<Rightarrow> addr \<Rightarrow> lock_state \<Rightarrow> lock_state \<times> lock_result" where
  "flock_find_conflict ino tgid request new_fl st =
     (let r = mem st request in
      case flock_conflict (mem st) r (i_flock st ino) of
        Some fl \<Rightarrow>
          if \<not> has_flag r FL_SLEEP then (st, Lock_Error EAGAIN)
          else (locks_insert_block fl request st, FILE_LOCK_DEFERRED)
      | None \<Rightarrow>
          if has_flag r FL_ACCESS then (st, Lock_Ok)
          else (locks_insert_lock ino tgid (flock_end st ino) new_fl
                  (upd_lock new_fl (\<lambda>n. locks_copy_lock n r) st), Lock_Ok))"

text \<open>The whole call; \<open>yield\<close> is what other tasks do while the spinlock is released.\<close>

definition flock_lock_file ::
  "inode_nr \<Rightarrow> u32 \<Rightarrow> lock_file \<Rightarrow> addr \<Rightarrow> addr option \<Rightarrow> (lock_state \<Rightarrow> lock_state) \<Rightarrow> lock_state \<Rightarrow>
   lock_state \<times> lock_result" where
  "flock_lock_file ino tgid filp request alloc yield st =
     (let r = mem st request;
          need = (\<not> has_flag r FL_ACCESS \<and> fl_type r \<noteq> F_UNLCK) in
      if need \<and> alloc = None then (st, Lock_Error ENOMEM)
      else
        let st = locks_alloc_lock (if need then alloc else None) st in
        if has_flag r FL_ACCESS then flock_find_conflict ino tgid request 0 st
        else case flock_replace ino filp request st of
               (st', Some res) \<Rightarrow> (st', res)
             | (st', None) \<Rightarrow>
                 let found = flock_old (mem st) filp 0 (i_flock st ino) \<noteq> None in
                 flock_find_conflict ino tgid request (the alloc) (if found then yield st' else st'))"

section \<open>Leases\<close>

definition assign_type :: "file_lock \<Rightarrow> int \<Rightarrow> file_lock result" where
  "assign_type fl type =
     (if type = uint F_RDLCK \<or> type = uint F_WRLCK \<or> type = uint F_UNLCK
      then Inr (fl\<lparr>fl_type := of_int type\<rparr>) else Inl EINVAL)"

definition lease_modify :: "inode_nr \<Rightarrow> nat \<Rightarrow> u8 \<Rightarrow> lock_state \<Rightarrow> lock_state result" where
  "lease_modify ino before arg st =
     (let fl = i_flock st ino ! before in
      case assign_type (mem st fl) (uint arg) of
        Inl e \<Rightarrow> Inl e
      | Inr f \<Rightarrow>
          let st = locks_wake_up_blocks fl (upd_lock fl (\<lambda>_. f) st)
          in Inr (if arg = F_UNLCK then locks_delete_lock ino before st else st))"

lemma lease_modify_length:
  assumes "lease_modify ino before arg st = Inr st'" "before < length (i_flock st ino)"
  shows "i_flock st' ino = (if arg = F_UNLCK then delete_at before (i_flock st ino) else i_flock st ino)"
  using assms by (auto simp: lease_modify_def Let_def lock_frame split: sum.splits if_splits)

text \<open>
  Leases whose break time has passed get their new type. Jiffies are compared by signed difference.
\<close>

definition time_before :: "u32 \<Rightarrow> u32 \<Rightarrow> bool" where
  "time_before a b \<longleftrightarrow> (a - b) <s 0"

function time_out_loop :: "inode_nr \<Rightarrow> u32 \<Rightarrow> nat \<Rightarrow> lock_state \<Rightarrow> lock_state" where
  "time_out_loop ino jiffies before st =
     (if before < length (i_flock st ino) \<and> IS_LEASE (mem st (i_flock st ino ! before)) \<and>
         fl_type (mem st (i_flock st ino ! before)) AND F_INPROGRESS \<noteq> 0
      then
        let fl = i_flock st ino ! before; f = mem st fl in
        if fl_break_time f = 0 \<or> time_before jiffies (fl_break_time f)
        then time_out_loop ino jiffies (before + 1) st
        else case lease_modify ino before (fl_type f AND NOT F_INPROGRESS) st of
               Inl e \<Rightarrow> time_out_loop ino jiffies (before + 1) st
             | Inr st' \<Rightarrow>
                 if fl_type f AND NOT F_INPROGRESS = F_UNLCK then time_out_loop ino jiffies before st'
                 else time_out_loop ino jiffies (before + 1) st'
      else st)"
  by pat_completeness auto
termination
  by (relation "measure (\<lambda>(ino, j, before, st). length (i_flock st ino) - before)")
    (auto simp: lease_modify_length length_delete_at)

declare time_out_loop.simps [simp del]

definition time_out_leases :: "inode_nr \<Rightarrow> u32 \<Rightarrow> lock_state \<Rightarrow> lock_state" where
  "time_out_leases ino jiffies st = time_out_loop ino jiffies 0 st"

definition fcntl_getlease :: "inode_nr \<Rightarrow> lock_file \<Rightarrow> u32 \<Rightarrow> lock_state \<Rightarrow> lock_state \<times> u8" where
  "fcntl_getlease ino filp jiffies st =
     (let st = time_out_leases ino jiffies st in
      (st, case find (\<lambda>fl. fl_file (mem st fl) = Some filp)
                  (takeWhile (\<lambda>fl. IS_LEASE (mem st fl)) (i_flock st ino)) of
             None \<Rightarrow> F_UNLCK
           | Some fl \<Rightarrow> fl_type (mem st fl) AND NOT F_INPROGRESS))"

section \<open>Setting and breaking leases\<close>

definition lease_init :: "lock_file option \<Rightarrow> int \<Rightarrow> fl_owner_t \<Rightarrow> u32 \<Rightarrow> file_lock \<Rightarrow> file_lock result" where
  "lease_init filp type files tgid fl =
     (case assign_type fl type of
        Inl e \<Rightarrow> Inl EINVAL
      | Inr fl \<Rightarrow> Inr (fl\<lparr>fl_owner := files, fl_pid := tgid, fl_file := filp, fl_flags := FL_LEASE, fl_start := 0,
                         fl_end := OFFSET_MAX, fl_lmops := Some lease_manager_ops\<rparr>))"

definition lease_alloc :: "addr option \<Rightarrow> lock_file option \<Rightarrow> int \<Rightarrow> fl_owner_t \<Rightarrow> u32 \<Rightarrow> lock_state \<Rightarrow>
    lock_state \<times> addr result" where
  "lease_alloc alloc filp type files tgid st =
     (case alloc of
        None \<Rightarrow> (st, Inl ENOMEM)
      | Some a \<Rightarrow>
          let st = locks_alloc_lock alloc st in
          (case lease_init filp type files tgid (mem st a) of
             Inl e \<Rightarrow> (st, Inl e)
           | Inr fl \<Rightarrow> (upd_lock a (\<lambda>_. fl) st, Inr a)))"

text \<open>The methods of the two lock managers that have leases, as far as they change the lock.\<close>

definition fl_break :: "file_lock \<Rightarrow> file_lock" where
  "fl_break fl = (if fl_lmops fl = Some nfsd_lease_mng_ops then fl\<lparr>fl_break_time := 0\<rparr> else fl)"

definition fl_change :: "lock_manager option \<Rightarrow> inode_nr \<Rightarrow> nat \<Rightarrow> u8 \<Rightarrow> lock_state \<Rightarrow> lock_state result" where
  "fl_change lm ino before arg st =
     (if lm = Some nfsd_lease_mng_ops \<and> arg AND F_UNLCK = 0 then Inl EAGAIN
      else lease_modify ino before arg st)"

text \<open>The leases at the front of a chain, over which the loops run.\<close>

definition leases :: "lock_state \<Rightarrow> inode_nr \<Rightarrow> addr list" where
  "leases st ino = takeWhile (\<lambda>fl. IS_LEASE (mem st fl)) (i_flock st ino)"

fun break_loop :: "u8 \<Rightarrow> u32 \<Rightarrow> addr list \<Rightarrow> lock_state \<Rightarrow> lock_state" where
  "break_loop future break_time [] st = st"
| "break_loop future break_time (fl # fls) st =
     break_loop future break_time fls
       (if fl_type (mem st fl) \<noteq> future
        then upd_lock fl (\<lambda>f. fl_break (f\<lparr>fl_type := future, fl_break_time := break_time\<rparr>)) st
        else st)"

definition O_ACCMODE :: u32 where "O_ACCMODE = 3"
definition O_RDONLY :: u32 where "O_RDONLY = 0"
definition O_NONBLOCK :: u32 where "O_NONBLOCK = 0x800"

text \<open>The type that breaking gives the leases, or none if the first one allows the access.\<close>

definition break_future :: "bool \<Rightarrow> u8 \<Rightarrow> u8 option" where
  "break_future want_write type =
     (if want_write then Some (F_UNLCK OR F_INPROGRESS)
      else if type AND F_INPROGRESS \<noteq> 0 then Some type
      else if type AND F_WRLCK \<noteq> 0 then Some (F_RDLCK OR F_INPROGRESS)
      else None)"

text \<open>
  \<^verbatim>\<open>__break_lease\<close> up to where it sleeps, and what it does when it wakes up. \<open>lease_break_time\<close> and \<open>hz\<close>
  are the tunable and the timer frequency. The call either ends with a result or sleeps as a blocked request.
\<close>

datatype break_outcome = Break_Done "unit result" | Break_Sleeps

datatype wait_result = Interrupted errno | Timed_Out | Woken_Up

definition break_lease_start :: "inode_nr \<Rightarrow> u32 \<Rightarrow> fl_owner_t \<Rightarrow> u32 \<Rightarrow> u32 \<Rightarrow> int \<Rightarrow> u32 \<Rightarrow> addr option \<Rightarrow> lock_state \<Rightarrow>
    lock_state \<times> break_outcome" where
  "break_lease_start ino mode files tgid jiffies lease_break_time hz alloc st =
     (let want_write = (mode AND O_ACCMODE \<noteq> O_RDONLY);
          (st, new_fl) = lease_alloc alloc None (uint (if want_write then F_WRLCK else F_RDLCK)) files tgid st;
          st = time_out_leases ino jiffies st
      in case leases st ino of
           [] \<Rightarrow> (st, Break_Done (Inr ()))
         | flock # _ \<Rightarrow>
             let i_have_this_lease = (\<exists>fl\<in>set (leases st ino). fl_owner (mem st fl) = files) in
             (case break_future want_write (fl_type (mem st flock)) of
                None \<Rightarrow> (st, Break_Done (Inr ()))
              | Some future \<Rightarrow>
                  if isl new_fl \<and> \<not> i_have_this_lease \<and> mode AND O_NONBLOCK = 0
                  then (st, Break_Done (Inl (projl new_fl)))
                  else
                    let break_time = (if lease_break_time > 0 then
                            let t = jiffies + of_int lease_break_time * hz in if t = 0 then 1 else t
                          else 0);
                        st = break_loop future break_time (leases st ino) st
                    in if i_have_this_lease \<or> mode AND O_NONBLOCK \<noteq> 0 then (st, Break_Done (Inl EAGAIN))
                       else (locks_insert_block flock (projr new_fl) st, Break_Sleeps)))"

text \<open>How long a sleeping call waits at most; 0 means that the lease has no break time.\<close>

definition break_timeout :: "u32 \<Rightarrow> u32 \<Rightarrow> u32" where
  "break_timeout break_time jiffies =
     (if break_time \<noteq> 0 then if break_time - jiffies = 0 then 1 else break_time - jiffies else 0)"

definition break_lease_resume :: "inode_nr \<Rightarrow> addr \<Rightarrow> u32 \<Rightarrow> wait_result \<Rightarrow> lock_state \<Rightarrow>
    lock_state \<times> break_outcome" where
  "break_lease_resume ino new_fl jiffies error st =
     (let st = locks_delete_block new_fl st in
      case error of
        Interrupted e \<Rightarrow> (st, Break_Done (Inl e))
      | _ \<Rightarrow>
          let st = (if error = Timed_Out then time_out_leases ino jiffies st else st) in
          (case find (\<lambda>fl. fl_type (mem st fl) AND F_INPROGRESS \<noteq> 0) (leases st ino) of
             Some flock \<Rightarrow> (locks_insert_block flock new_fl st, Break_Sleeps)
           | None \<Rightarrow> (st, Break_Done (Inr ()))))"

text \<open>
  \<^verbatim>\<open>generic_setlease\<close> after its checks of the caller: the leases of other open files are counted,
  the own lease is changed if there is one, and else the new one is put behind the other leases.
  The position of the own lease is that of the last one.
\<close>

fun setlease_scan :: "(addr \<Rightarrow> file_lock) \<Rightarrow> lock_file \<Rightarrow> nat \<Rightarrow> nat option \<times> nat \<times> nat \<Rightarrow> addr list \<Rightarrow>
    nat option \<times> nat \<times> nat" where
  "setlease_scan m filp n acc [] = acc"
| "setlease_scan m filp n (my_before, rd, wr) (fl # fls) =
     setlease_scan m filp (n + 1)
       (if fl_file (m fl) = Some filp then (Some n, rd, wr)
        else if fl_type (m fl) = F_INPROGRESS OR F_UNLCK then (my_before, rd, wr + 1)
        else (my_before, rd + 1, wr)) fls"

definition setlease_locked :: "inode_nr \<Rightarrow> lock_file \<Rightarrow> u8 \<Rightarrow> addr \<Rightarrow> u32 \<Rightarrow> u32 \<Rightarrow> int \<Rightarrow> int \<Rightarrow> int \<Rightarrow> bool \<Rightarrow>
    lock_state \<Rightarrow> lock_state \<times> addr option result" where
  "setlease_locked ino filp arg lease tgid jiffies i_writecount d_count i_count leases_enable st =
     (let st = time_out_leases ino jiffies st in
      if arg \<noteq> F_UNLCK \<and> (arg = F_RDLCK \<and> i_writecount > 0 \<or> arg = F_WRLCK \<and> (d_count > 1 \<or> i_count > 1))
      then (st, Inl EAGAIN)
      else
        let (my_before, rdlease_count, wrlease_count) =
              setlease_scan (mem st) filp 0 (None, 0, 0) (leases st ino) in
        if arg = F_RDLCK \<and> wrlease_count > 0 \<or> arg = F_WRLCK \<and> rdlease_count + wrlease_count > 0
        then (st, Inl EAGAIN)
        else case my_before of
               Some n \<Rightarrow>
                 (case fl_change (fl_lmops (mem st lease)) ino n arg st of
                    Inl e \<Rightarrow> (st, Inl e)
                  | Inr st' \<Rightarrow> (st', Inr (if n < length (i_flock st' ino) then Some (i_flock st' ino ! n) else None)))
             | None \<Rightarrow>
                 if arg = F_UNLCK then (st, Inl EAGAIN)
                 else if \<not> leases_enable then (st, Inl EINVAL)
                 else (locks_insert_lock ino tgid (length (leases st ino)) lease st, Inr (Some lease)))"

section \<open>Closing a file\<close>

text \<open>\<^verbatim>\<open>locks_remove_posix\<close>: the request of the closing task is the structure at \<open>lock\<close>.\<close>

definition locks_remove_posix :: "inode_nr \<Rightarrow> u32 \<Rightarrow> fl_owner_t \<Rightarrow> lock_file \<Rightarrow> addr \<Rightarrow> lock_state \<Rightarrow> lock_state" where
  "locks_remove_posix ino tgid owner filp lock st =
     (if i_flock st ino = [] then st
      else
        let st = upd_lock lock (\<lambda>l. l\<lparr>fl_type := F_UNLCK, fl_flags := FL_POSIX OR FL_CLOSE, fl_start := 0,
              fl_end := OFFSET_MAX, fl_owner := owner, fl_pid := tgid, fl_file := Some filp, fl_lmops := None\<rparr>) st
        in fst (posix_lock_file ino tgid lock None None st))"

text \<open>
  \<^verbatim>\<open>locks_remove_flock\<close> for file systems without a method of their own. A POSIX lock of the file
  here is a kernel bug, which is the error branch.
\<close>

function remove_flock_loop :: "inode_nr \<Rightarrow> lock_file \<Rightarrow> nat \<Rightarrow> lock_state \<Rightarrow> lock_state option" where
  "remove_flock_loop ino filp before st =
     (if before < length (i_flock st ino) then
        let fl = i_flock st ino ! before; f = mem st fl in
        if fl_file f = Some filp then
          if IS_FLOCK f then remove_flock_loop ino filp before (locks_delete_lock ino before st)
          else if IS_LEASE f then
            (case lease_modify ino before F_UNLCK st of
               Inl e \<Rightarrow> None
             | Inr st' \<Rightarrow> remove_flock_loop ino filp before st')
          else None
        else remove_flock_loop ino filp (before + 1) st
      else Some st)"
  by pat_completeness auto
termination
  by (relation "measure (\<lambda>(ino, f, before, st). length (i_flock st ino) - before)")
    (auto simp: lease_modify_length lock_frame length_delete_at)

declare remove_flock_loop.simps [simp del]

definition locks_remove_flock :: "inode_nr \<Rightarrow> lock_file \<Rightarrow> lock_state \<Rightarrow> lock_state option" where
  "locks_remove_flock ino filp st =
     (if i_flock st ino = [] then Some st else remove_flock_loop ino filp 0 st)"

section \<open>Whole-file locks in the chain\<close>

abbreviation posix_part :: "file_lock list \<Rightarrow> file_lock list" where
  "posix_part V \<equiv> filter IS_POSIX V"

lemma posix_after_Cons: "IS_POSIX x \<Longrightarrow> sorted_wrt (\<lambda>a b. IS_POSIX a \<longrightarrow> IS_POSIX b) (x # V) \<Longrightarrow> \<forall>f\<in>set V. IS_POSIX f"
  unfolding sorted_wrt.simps by blast

text \<open>The chain is the whole-file locks followed by the POSIX locks.\<close>

lemma posix_last_iff: "sorted_wrt (\<lambda>a b. IS_POSIX a \<longrightarrow> IS_POSIX b) V \<longleftrightarrow> V = nonposix V @ posix_part V"
proof (induction V)
  case (Cons x V)
  show ?case
  proof (cases "IS_POSIX x")
    case True
    have "(\<forall>f\<in>set V. IS_POSIX f) \<longleftrightarrow> x # V = nonposix (x # V) @ posix_part (x # V)"
    proof
      assume all: "\<forall>f\<in>set V. IS_POSIX f"
      then show "x # V = nonposix (x # V) @ posix_part (x # V)" using True by (simp add: filter_all filter_none)
    next
      assume eq: "x # V = nonposix (x # V) @ posix_part (x # V)"
      then have "nonposix V = []" using True by (cases "nonposix V") (auto dest: filter_eq_ConsD)
      then show "\<forall>f\<in>set V. IS_POSIX f" by (simp add: filter_empty_conv)
    qed
    moreover have "sorted_wrt (\<lambda>a b. IS_POSIX a \<longrightarrow> IS_POSIX b) (x # V) \<longleftrightarrow> (\<forall>f\<in>set V. IS_POSIX f)"
      using posix_after_Cons [OF True, of V] posix_last [of "x # V"] True unfolding set_simps by blast
    ultimately show ?thesis by blast
  next
    case False
    have "sorted_wrt (\<lambda>a b. IS_POSIX a \<longrightarrow> IS_POSIX b) (x # V) \<longleftrightarrow> sorted_wrt (\<lambda>a b. IS_POSIX a \<longrightarrow> IS_POSIX b) V"
      unfolding sorted_wrt.simps using False by blast
    then show ?thesis using Cons.IH False by simp
  qed
qed simp

lemma key_filter: "filter (\<lambda>f. owner_key f = Some o') V = filter (\<lambda>f. owner_key f = Some o') (posix_part V)"
  unfolding filter_filter by (rule filter_cong) (auto dest: key_posix)

lemma lock_table_posix_part: "lock_table V = lock_table (posix_part V)"
  unfolding lock_table_def key_filter [of _ V] ..

lemma grouped_none: "\<forall>f\<in>set N. owner_key f = None \<Longrightarrow> \<forall>f\<in>set P. owner_key f \<noteq> None \<Longrightarrow>
    grouped (map owner_key (N @ P)) \<longleftrightarrow> grouped (map owner_key P)"
proof -
  assume a: "\<forall>f\<in>set N. owner_key f = None" "\<forall>f\<in>set P. owner_key f \<noteq> None"
  then have "set (map owner_key N) \<subseteq> {None}" by auto
  moreover have "None \<notin> set (map owner_key P)" using a(2) by force
  ultimately have "set (map owner_key N) \<inter> set (map owner_key P) = {}" by blast
  from grouped_append_disjoint [OF this] grouped_same [of "map owner_key N" None] a(1) show ?thesis by auto
qed

lemma inode_inv_parts:
  "inode_inv V \<longleftrightarrow> V = nonposix V @ posix_part V \<and> inode_inv (posix_part V)"
proof -
  have g: "grouped (map owner_key V) \<longleftrightarrow> grouped (map owner_key (posix_part V))" if "V = nonposix V @ posix_part V"
    by (subst that, rule grouped_none) (auto simp: owner_key_def)
  have s: "sorted_wrt (\<lambda>a b. IS_POSIX a \<longrightarrow> IS_POSIX b) (posix_part V)" by (rule posix_last) simp
  show ?thesis
    unfolding inode_inv_def posix_last_iff [of V] using g s key_filter by auto
qed

lemma inode_inv_nonposix:
  assumes "inode_inv (A @ B)" "\<forall>f\<in>set A. \<not> IS_POSIX f" "\<not> IS_POSIX x"
  shows "inode_inv (A @ x # B)" "lock_table (A @ x # B) = lock_table (A @ B)"
proof -
  have A: "nonposix A = A" "posix_part A = []" using assms(2) by (simp_all add: filter_all filter_none)
  have "B = nonposix B @ posix_part B" using assms(1) unfolding inode_inv_parts [of "A @ B"] by (simp add: A)
  then show "inode_inv (A @ x # B)"
    using assms(1,3) unfolding inode_inv_parts [of "A @ B"] inode_inv_parts [of "A @ x # B"] by (simp add: A)
  show "lock_table (A @ x # B) = lock_table (A @ B)"
    unfolding lock_table_posix_part [of "A @ x # B"] lock_table_posix_part [of "A @ B"] using assms(3) by simp
qed

lemma inode_inv_remove:
  assumes "inode_inv (A @ x # B)" "\<not> IS_POSIX x"
  shows "inode_inv (A @ B)" "lock_table (A @ B) = lock_table (A @ x # B)"
proof -
  have "sorted_wrt (\<lambda>a b. IS_POSIX a \<longrightarrow> IS_POSIX b) (A @ B)"
    using assms(1) unfolding inode_inv_def sorted_wrt_append sorted_wrt.simps set_simps by blast
  moreover have "posix_part (A @ B) = posix_part (A @ x # B)" using assms(2) by simp
  ultimately show "inode_inv (A @ B)"
    using assms(1) unfolding inode_inv_parts [of "A @ B"] inode_inv_parts [of "A @ x # B"] posix_last_iff
    by metis
  show "lock_table (A @ B) = lock_table (A @ x # B)"
    unfolding lock_table_posix_part [of "A @ x # B"] lock_table_posix_part [of "A @ B"] using assms(2) by simp
qed

text \<open>No two whole-file locks exclude each other.\<close>

definition whole_file :: "file_lock \<Rightarrow> bool" where
  "whole_file f \<longleftrightarrow> \<not> IS_POSIX f \<and> \<not> IS_LEASE f"

definition flock_compatible :: "file_lock \<Rightarrow> file_lock \<Rightarrow> bool" where
  "flock_compatible a b \<longleftrightarrow> \<not> flock_locks_conflict a b \<and> \<not> flock_locks_conflict b a"

definition flock_excl :: "file_lock list \<Rightarrow> bool" where
  "flock_excl V \<longleftrightarrow> sorted_wrt flock_compatible (filter whole_file V)"

lemma flock_excl_nonposix: "flock_excl V = flock_excl (nonposix V)"
proof -
  have "filter whole_file (nonposix V) = filter whole_file V"
    unfolding filter_filter by (rule filter_cong) (auto simp: whole_file_def)
  then show ?thesis by (simp add: flock_excl_def)
qed

lemma flock_excl_remove: "flock_excl (A @ x # B) \<Longrightarrow> flock_excl (A @ B)"
  by (simp add: flock_excl_def sorted_wrt_append split: if_splits)

text \<open>The conflict search stops at the first POSIX lock, behind which there are no whole-file locks.\<close>

lemma flock_conflict_None:
  assumes "flock_conflict m r fls = None" "a \<in> set (takeWhile (\<lambda>a. \<not> IS_POSIX (m a)) fls)" "whole_file (m a)"
  shows "\<not> flock_locks_conflict r (m a)"
  using assms by (induction fls) (auto simp: whole_file_def split: if_splits)

lemma flock_conflict_Some:
  "flock_conflict m r fls = Some a \<Longrightarrow> a \<in> set fls \<and> whole_file (m a) \<and> flock_locks_conflict r (m a)"
  by (induction fls) (auto simp: whole_file_def split: if_splits)

lemma flock_old_Some:
  "flock_old m filp n fls = Some k \<Longrightarrow>
   n \<le> k \<and> k - n < length fls \<and> whole_file (m (fls ! (k - n))) \<and> fl_file (m (fls ! (k - n))) = Some filp"
  by (induction m filp n fls rule: flock_old.induct) (auto simp: whole_file_def nth_Cons' split: if_splits)

text \<open>A request for a whole-file lock.\<close>

definition flock_request :: "lock_state \<Rightarrow> addr \<Rightarrow> bool" where
  "flock_request st q \<longleftrightarrow> q \<notin> in_chains st \<and> IS_FLOCK (mem st q) \<and> whole_file (mem st q)"

lemma chain_split_flock_end:
  assumes "lock_inv st"
  shows "\<exists>A B. i_flock st ino = A @ B \<and> length A = flock_end st ino \<and> (\<forall>a\<in>set A. \<not> IS_POSIX (mem st a)) \<and>
    (\<forall>b\<in>set B. IS_POSIX (mem st b))"
proof -
  let ?N = "\<lambda>a. \<not> IS_POSIX (mem st a)"
  let ?A = "takeWhile ?N (i_flock st ino)" and ?B = "dropWhile ?N (i_flock st ino)"
  have "sorted_wrt (\<lambda>a b. IS_POSIX a \<longrightarrow> IS_POSIX b) (map (mem st) (?A @ ?B))"
    using assms unfolding lock_inv_def inode_inv_def inode_locks_def by simp
  then have s: "sorted_wrt (\<lambda>a b. IS_POSIX a \<longrightarrow> IS_POSIX b) (map (mem st) ?B)"
    unfolding map_append sorted_wrt_append by blast
  have "\<forall>b\<in>set ?B. IS_POSIX (mem st b)"
  proof (cases ?B)
    case (Cons b B)
    then have "IS_POSIX (mem st b)" using hd_dropWhile [of ?N "i_flock st ino"] by (metis list.sel(1) list.distinct(1))
    from posix_after_Cons [OF this s [unfolded Cons list.map]] this show ?thesis unfolding Cons by simp
  next
    case Nil
    then show ?thesis by (simp only: list.set ball_empty)
  qed
  moreover have "\<forall>a\<in>set ?A. ?N a" using set_takeWhileD by metis
  ultimately show ?thesis
    unfolding flock_end_def by (metis takeWhile_dropWhile_id)
qed

text \<open>Leases come first, and every other lock that is not a POSIX lock is a whole-file lock.\<close>

definition leases_first :: "file_lock list \<Rightarrow> bool" where
  "leases_first V \<longleftrightarrow> sorted_wrt (\<lambda>a b. IS_LEASE b \<longrightarrow> IS_LEASE a) V"

definition whole_file_ok :: "file_lock list \<Rightarrow> bool" where
  "whole_file_ok V \<longleftrightarrow> flock_excl V \<and> leases_first V \<and> (\<forall>f\<in>set V. whole_file f \<longrightarrow> IS_FLOCK f)"

definition chains_ok :: "lock_state \<Rightarrow> bool" where
  "chains_ok st \<longleftrightarrow> lock_inv st \<and> exclusive st \<and> (\<forall>ino. whole_file_ok (inode_locks st ino))"

lemma leases_first_append:
  "leases_first (A @ B) \<longleftrightarrow> leases_first A \<and> leases_first B \<and> ((\<forall>a\<in>set A. IS_LEASE a) \<or> (\<forall>b\<in>set B. \<not> IS_LEASE b))"
  unfolding leases_first_def sorted_wrt_append by blast

lemma leases_first_none: "\<forall>a\<in>set A. \<not> IS_LEASE a \<Longrightarrow> leases_first A"
  by (induction A) (auto simp: leases_first_def)

lemma leases_first_all: "\<forall>a\<in>set A. IS_LEASE a \<Longrightarrow> leases_first A"
  by (induction A) (auto simp: leases_first_def)

lemma held_same_exclusive: "held st' = held st \<Longrightarrow> exclusive st \<Longrightarrow> exclusive st'"
  by (simp add: exclusive_def)

text \<open>A POSIX lock is never a lease, so the conditions concern the other locks only.\<close>

lemma whole_file_ok_nonposix:
  assumes "inode_inv V"
  shows "whole_file_ok V \<longleftrightarrow> whole_file_ok (nonposix V)"
proof -
  have V: "V = nonposix V @ posix_part V" using assms inode_inv_parts by blast
  have p: "\<forall>f\<in>set (posix_part V). \<not> IS_LEASE f"
    using assms by (auto simp: inode_inv_def posix_ok_def owner_ok_def)
  have "leases_first V \<longleftrightarrow> leases_first (nonposix V)"
    by (subst V) (use p in \<open>simp add: leases_first_append leases_first_none\<close>)
  moreover have "(\<forall>f\<in>set V. whole_file f \<longrightarrow> IS_FLOCK f) \<longleftrightarrow> (\<forall>f\<in>set (nonposix V). whole_file f \<longrightarrow> IS_FLOCK f)"
    by (auto simp: whole_file_def)
  ultimately show ?thesis unfolding whole_file_ok_def flock_excl_nonposix [of V] by simp
qed

text \<open>Replacing some locks that are not POSIX locks by others.\<close>

lemma inode_inv_swap:
  assumes "inode_inv (A @ C @ B)" "\<forall>f\<in>set (A @ C @ D). \<not> IS_POSIX f"
  shows "inode_inv (A @ D @ B)" "lock_table (A @ D @ B) = lock_table (A @ C @ B)"
proof -
  have n: "nonposix A = A" "posix_part A = []" "nonposix C = C" "posix_part C = []" "nonposix D = D" "posix_part D = []"
    using assms(2) by (simp_all add: filter_all filter_none)
  have "B = nonposix B @ posix_part B" using assms(1) unfolding inode_inv_parts [of "A @ C @ B"] by (simp add: n)
  then show "inode_inv (A @ D @ B)"
    using assms(1) unfolding inode_inv_parts [of "A @ C @ B"] inode_inv_parts [of "A @ D @ B"] by (simp add: n)
  show "lock_table (A @ D @ B) = lock_table (A @ C @ B)"
    unfolding lock_table_posix_part [of "A @ D @ B"] lock_table_posix_part [of "A @ C @ B"] by (simp add: n)
qed

lemma chains_swap:
  assumes ok: "chains_ok st" and i: "i_flock st ino = A @ C @ B" and i': "i_flock st' = (i_flock st)(ino := A @ D @ B)"
    and mem: "\<And>a. a \<notin> set C \<Longrightarrow> a \<notin> set D \<Longrightarrow> mem st' a = mem st a"
    and D: "distinct D" "set D \<inter> (in_chains st - set C) = {}"
    and np: "\<forall>a\<in>set (A @ C). \<not> IS_POSIX (mem st a)" "\<forall>a\<in>set D. \<not> IS_POSIX (mem st' a)"
    and wf: "whole_file_ok (map (mem st) A @ map (mem st') D @ map (mem st) B)"
  shows "chains_ok st'" "held st' = held st"
proof -
  have inv: "lock_inv st" using ok by (simp add: chains_ok_def)
  have d: "distinct (A @ C @ B)" using inv i by (metis lock_inv_def)
  have disj: "set (i_flock st x) \<inter> set (i_flock st y) = {}" if "x \<noteq> y" for x y using inv that by (simp add: lock_inv_def)
  have other: "a \<notin> set C \<and> a \<notin> set D" if "a \<in> set (i_flock st j)" "j \<noteq> ino" for a j
  proof -
    have "a \<notin> set C" using disj [OF that(2)] that(1) i by auto
    then show ?thesis using D(2) in_chains_I [OF that(1)] by auto
  qed
  have AB: "a \<notin> set C \<and> a \<notin> set D" if "a \<in> set A \<union> set B" for a
  proof -
    have "a \<notin> set C" using d that by auto
    then show ?thesis using D(2) in_chains_I [of a st ino] that i by auto
  qed
  have locks: "inode_locks st' ino = map (mem st) A @ map (mem st') D @ map (mem st) B"
    "inode_locks st ino = map (mem st) A @ map (mem st) C @ map (mem st) B"
    using AB mem by (auto simp: inode_locks_def i i')
  have same: "inode_locks st' j = inode_locks st j" if "j \<noteq> ino" for j
    using other [OF _ that] mem that by (simp add: inode_locks_def i')
  have li: "inode_inv (inode_locks st j)" for j using inv by (simp add: lock_inv_def)
  have "\<forall>f\<in>set (map (mem st) A @ map (mem st) C @ map (mem st') D). \<not> IS_POSIX f" using np by auto
  note swap = inode_inv_swap [OF li [of ino, unfolded locks(2)] this, folded locks]
  have "held st' j = held st j" for j using swap(2) same by (cases "j = ino") (simp_all add: held_def)
  then show h: "held st' = held st" by auto
  have "inode_inv (inode_locks st' j)" for j using swap(1) same li by (cases "j = ino") simp_all
  moreover have "distinct (i_flock st' j)" for j using inv d D(1) AB by (auto simp: i' lock_inv_def)
  moreover have "set (i_flock st' x) \<inter> set (i_flock st' y) = {}" if "x \<noteq> y" for x y
  proof -
    have D: "set D \<inter> set (i_flock st j) = {}" "set A \<inter> set (i_flock st j) = {}" "set B \<inter> set (i_flock st j) = {}"
      if "j \<noteq> ino" for j using other [of _ j] disj [of ino j] that i by auto
    show ?thesis using D [of x] D [of y] disj [OF that] that by (cases "x = ino"; cases "y = ino") (auto simp: i')
  qed
  ultimately have "lock_inv st'" by (simp add: lock_inv_def)
  moreover have "whole_file_ok (inode_locks st' j)" for j
    using wf same ok locks by (cases "j = ino") (simp_all add: chains_ok_def)
  ultimately show "chains_ok st'" using held_same_exclusive [OF h] ok by (simp add: chains_ok_def)
qed

text \<open>In front of a lock that is not a POSIX lock there is none.\<close>

lemma nonposix_before:
  assumes "lock_inv st" "i_flock st ino = A @ a # B" "\<not> IS_POSIX (mem st a)"
  shows "\<forall>x\<in>set A. \<not> IS_POSIX (mem st x)"
proof -
  have "sorted_wrt (\<lambda>a b. IS_POSIX a \<longrightarrow> IS_POSIX b) (map (mem st) A @ mem st a # map (mem st) B)"
    using assms(1,2) unfolding lock_inv_def inode_inv_def inode_locks_def by (metis map_append list.simps(9))
  then show ?thesis using assms(3) unfolding sorted_wrt_append by auto
qed

lemma whole_file_ok_remove: "whole_file_ok (A @ x # B) \<Longrightarrow> whole_file_ok (A @ B)"
  unfolding whole_file_ok_def leases_first_def using flock_excl_remove [of A x B] by (auto simp: sorted_wrt_append)

lemma delete_nonposix_ok:
  assumes ok: "chains_ok st" and n: "n < length (i_flock st ino)" "\<not> IS_POSIX (mem st (i_flock st ino ! n))"
  shows "chains_ok (locks_delete_lock ino n st)" "held (locks_delete_lock ino n st) = held st"
proof -
  let ?A = "take n (i_flock st ino)" and ?a = "i_flock st ino ! n" and ?B = "drop (Suc n) (i_flock st ino)"
  have i: "i_flock st ino = ?A @ [?a] @ ?B" using id_take_nth_drop [OF n(1)] by simp
  have np: "\<forall>x\<in>set (?A @ [?a]). \<not> IS_POSIX (mem st x)"
    using nonposix_before [of st ino ?A ?a ?B] ok n(2) i by (auto simp: chains_ok_def)
  have "whole_file_ok (map (mem st) ?A @ mem st ?a # map (mem st) ?B)"
  proof -
    have "inode_locks st ino = map (mem st) ?A @ mem st ?a # map (mem st) ?B"
      unfolding inode_locks_def by (subst i) (simp del: append_take_drop_id)
    then show ?thesis using ok by (metis chains_ok_def)
  qed
  from whole_file_ok_remove [OF this]
  have wf: "whole_file_ok (map (mem st) ?A @ map (mem (locks_delete_lock ino n st)) [] @ map (mem st) ?B)" by simp
  have i': "i_flock (locks_delete_lock ino n st) = (i_flock st)(ino := ?A @ [] @ ?B)"
    by (simp add: lock_frame delete_at_def)
  show "chains_ok (locks_delete_lock ino n st)" "held (locks_delete_lock ino n st) = held st"
    by (rule chains_swap [OF ok i i' _ _ _ np _ wf]; simp add: lock_frame)+
qed

lemma copy_lock_kind:
  "IS_POSIX ((locks_copy_lock n r)\<lparr>fl_nspid := p\<rparr>) = IS_POSIX r"
  "IS_LEASE ((locks_copy_lock n r)\<lparr>fl_nspid := p\<rparr>) = IS_LEASE r"
  "IS_FLOCK ((locks_copy_lock n r)\<lparr>fl_nspid := p\<rparr>) = IS_FLOCK r"
  "whole_file ((locks_copy_lock n r)\<lparr>fl_nspid := p\<rparr>) = whole_file r"
  "flock_locks_conflict ((locks_copy_lock n r)\<lparr>fl_nspid := p\<rparr>) f = flock_locks_conflict r f"
  "flock_locks_conflict f ((locks_copy_lock n r)\<lparr>fl_nspid := p\<rparr>) = flock_locks_conflict f r"
  by (simp_all add: locks_copy_lock_def copy_lock_fields_def IS_POSIX_def IS_LEASE_def IS_FLOCK_def whole_file_def
      flock_locks_conflict_def locks_conflict_def)

lemma flock_conflict_sym:
  "IS_FLOCK a \<Longrightarrow> flock_locks_conflict b a \<Longrightarrow> IS_FLOCK b \<Longrightarrow> flock_locks_conflict a b"
  by (auto simp: flock_locks_conflict_def locks_conflict_def split: if_splits)

lemma flock_excl_insert:
  assumes "flock_excl (A @ B)" "\<forall>a\<in>set A. whole_file a \<longrightarrow> flock_compatible a x" "\<forall>b\<in>set B. \<not> whole_file b"
  shows "flock_excl (A @ x # B)"
  using assms by (auto simp: flock_excl_def sorted_wrt_append filter_none)

text \<open>A whole-file lock goes behind the others that are not POSIX locks.\<close>

lemma whole_file_ok_flock:
  assumes "whole_file_ok (A @ B)" "\<forall>b\<in>set B. IS_POSIX b \<and> \<not> IS_LEASE b" "whole_file x" "IS_FLOCK x"
    "\<forall>a\<in>set A. whole_file a \<longrightarrow> \<not> flock_locks_conflict x a"
  shows "whole_file_ok (A @ x # B)"
proof -
  have "flock_excl (A @ x # B)"
  proof (rule flock_excl_insert)
    have k: "IS_FLOCK a" if "a \<in> set A" "whole_file a" for a using assms(1) that by (simp add: whole_file_ok_def)
    show "\<forall>a\<in>set A. whole_file a \<longrightarrow> flock_compatible a x"
      using assms(4,5) k flock_conflict_sym by (auto simp: flock_compatible_def)
  qed (use assms in \<open>auto simp: whole_file_ok_def whole_file_def\<close>)
  moreover have "\<not> IS_LEASE x" using assms(3) by (simp add: whole_file_def)
  then have "leases_first (A @ x # B)"
    using assms(1,2) leases_first_append [of A B] leases_first_append [of A "x # B"] leases_first_none [of "x # B"]
    by (auto simp: whole_file_ok_def)
  ultimately show ?thesis using assms(1,4) by (auto simp: whole_file_ok_def)
qed

text \<open>A lease goes behind the other leases, and a lease may be replaced by another.\<close>

lemma whole_file_ok_lease:
  assumes "whole_file_ok (A @ B)" "\<forall>a\<in>set A. IS_LEASE a" "IS_LEASE x"
  shows "whole_file_ok (A @ x # B)"
proof -
  have "flock_excl (A @ x # B) = flock_excl (A @ B)" using assms(3) by (simp add: flock_excl_def whole_file_def)
  moreover have "leases_first (A @ x # B)"
    using assms leases_first_append [of A B] leases_first_append [of "A @ [x]" B] leases_first_all [of "A @ [x]"]
    by (auto simp: whole_file_ok_def)
  ultimately show ?thesis using assms by (auto simp: whole_file_ok_def whole_file_def)
qed

lemma whole_file_ok_lease_change:
  assumes "whole_file_ok (A @ x # B)" "IS_LEASE x" "IS_LEASE y"
  shows "whole_file_ok (A @ y # B)"
proof -
  have "\<forall>a\<in>set A. IS_LEASE a"
    using assms(1,2) leases_first_append [of A "x # B"] by (auto simp: whole_file_ok_def)
  then show ?thesis using whole_file_ok_lease whole_file_ok_remove assms by blast
qed

text \<open>The state after inserting a structure that is in no chain.\<close>

lemma insert_nonposix_ok:
  assumes ok: "chains_ok st" and i: "i_flock st ino = A @ B" and A: "\<forall>a\<in>set A. \<not> IS_POSIX (mem st a)"
    and new: "n \<notin> in_chains st" and i': "i_flock st' = (i_flock st)(ino := A @ n # B)" and m: "mem st' = (mem st)(n := x)"
    and x: "\<not> IS_POSIX x" "whole_file_ok (map (mem st) A @ x # map (mem st) B)"
  shows "chains_ok st' \<and> held st' = held st"
proof -
  have i2: "i_flock st ino = A @ [] @ B" and i2': "i_flock st' = (i_flock st)(ino := A @ [n] @ B)"
    using i i' by simp_all
  have A2: "\<forall>a\<in>set (A @ []). \<not> IS_POSIX (mem st a)" using A by simp
  have wf: "whole_file_ok (map (mem st) A @ map (mem st') [n] @ map (mem st) B)" using x(2) m by simp
  show ?thesis
    by (rule conjI; rule chains_swap [OF ok i2 i2' _ _ _ A2 _ wf]) (use new m x(1) in auto)
qed

lemma insert_flock_ok:
  assumes ok: "chains_ok st" and req: "flock_request st q"
    and none: "flock_conflict (mem st) (mem st q) (i_flock st ino) = None" and new: "n \<notin> in_chains st"
    and st': "st' = locks_insert_lock ino tgid (flock_end st ino) n (upd_lock n (\<lambda>x. locks_copy_lock x (mem st q)) st)"
  shows "chains_ok st' \<and> held st' = held st"
proof -
  have inv: "lock_inv st" and wf: "whole_file_ok (inode_locks st ino)" using ok by (simp_all add: chains_ok_def)
  obtain A B where i: "i_flock st ino = A @ B" and len: "length A = flock_end st ino"
    and A: "\<forall>a\<in>set A. \<not> IS_POSIX (mem st a)" and B: "\<forall>b\<in>set B. IS_POSIX (mem st b)"
    using chain_split_flock_end [OF inv, of ino] by blast
  let ?x = "(locks_copy_lock (mem st n) (mem st q))\<lparr>fl_nspid := Some tgid\<rparr>"
  have fl: "i_flock st' = (i_flock st)(ino := A @ n # B)" and m: "mem st' = (mem st)(n := ?x)"
    using insert_new_frame [OF i, of tgid n] by (simp_all add: st' len)
  have q: "IS_FLOCK (mem st q)" "whole_file (mem st q)" using req by (simp_all add: flock_request_def)
  have tw: "takeWhile (\<lambda>a. \<not> IS_POSIX (mem st a)) (i_flock st ino) = A"
    unfolding i using A B by (cases B) (simp_all add: takeWhile_append2)
  have "\<forall>a\<in>set (map (mem st) A). whole_file a \<longrightarrow> \<not> flock_locks_conflict ?x a"
    using flock_conflict_None [OF none] tw by (simp add: copy_lock_kind)
  moreover have "\<forall>b\<in>set (map (mem st) B). IS_POSIX b \<and> \<not> IS_LEASE b"
    using B chain_posix_ok [OF inv, of _ ino] i by (auto simp: posix_ok_def owner_ok_def)
  ultimately have "whole_file_ok (map (mem st) A @ ?x # map (mem st) B)"
    using wf q by (intro whole_file_ok_flock) (simp_all add: copy_lock_kind inode_locks_def i)
  then show ?thesis
    using q(2) by (intro insert_nonposix_ok [OF ok i A new fl m]) (simp_all add: copy_lock_kind whole_file_def)
qed

lemma insert_lease_ok:
  assumes ok: "chains_ok st" and l: "IS_LEASE (mem st n)" "\<not> IS_POSIX (mem st n)" "n \<notin> in_chains st"
  shows "chains_ok (locks_insert_lock ino tgid (length (leases st ino)) n st) \<and>
    held (locks_insert_lock ino tgid (length (leases st ino)) n st) = held st"
proof -
  let ?A = "leases st ino" and ?B = "dropWhile (\<lambda>fl. IS_LEASE (mem st fl)) (i_flock st ino)"
  let ?x = "(mem st n)\<lparr>fl_nspid := Some tgid\<rparr>"
  have i: "i_flock st ino = ?A @ ?B" by (simp add: leases_def)
  have A: "IS_LEASE (mem st a)" if "a \<in> set ?A" for a using that by (auto simp: leases_def dest: set_takeWhileD)
  have posix: "\<forall>a\<in>set ?A. \<not> IS_POSIX (mem st a)"
    using A chain_posix_ok [of st _ ino] i ok set_takeWhileD
    by (fastforce simp: chains_ok_def posix_ok_def owner_ok_def leases_def)
  have fl: "i_flock (locks_insert_lock ino tgid (length ?A) n st) = (i_flock st)(ino := ?A @ n # ?B)"
    using insert_at_append [of ?A n ?B] by (simp add: lock_frame flip: i)
  have m: "mem (locks_insert_lock ino tgid (length ?A) n st) = (mem st)(n := ?x)" by (simp add: lock_frame)
  have "whole_file_ok (map (mem st) ?A @ map (mem st) ?B)"
    using ok unfolding chains_ok_def inode_locks_def by (metis i map_append)
  then have "whole_file_ok (map (mem st) ?A @ ?x # map (mem st) ?B)"
    by (rule whole_file_ok_lease) (use A l in \<open>auto simp: IS_LEASE_def\<close>)
  then show ?thesis
    using l by (intro insert_nonposix_ok [OF ok i posix _ fl m]) (simp_all add: IS_POSIX_def)
qed

text \<open>Changing a lease in place.\<close>

lemma change_lease_ok:
  assumes ok: "chains_ok st" and a: "a \<in> set (i_flock st ino)" "IS_LEASE (mem st a)" "IS_LEASE (f (mem st a))"
    "\<not> IS_POSIX (f (mem st a))"
  shows "chains_ok (upd_lock a f st) \<and> held (upd_lock a f st) = held st"
proof -
  obtain A B where i: "i_flock st ino = A @ [a] @ B" using a(1) by (metis split_list append_Cons append_Nil)
  have inv: "lock_inv st" and wf: "whole_file_ok (inode_locks st ino)" using ok by (simp_all add: chains_ok_def)
  have np: "\<not> IS_POSIX (mem st a)" using chain_posix_ok [OF inv a(1)] a(2) by (auto simp: posix_ok_def owner_ok_def)
  then have A: "\<forall>x\<in>set (A @ [a]). \<not> IS_POSIX (mem st x)" using nonposix_before [OF inv, of ino A a B] i by simp
  have i': "i_flock (upd_lock a f st) = (i_flock st)(ino := A @ [a] @ B)" using i by (simp add: lock_frame fun_upd_idem)
  have wf': "whole_file_ok (map (mem st) A @ map (mem (upd_lock a f st)) [a] @ map (mem st) B)"
    using whole_file_ok_lease_change [of "map (mem st) A" "mem st a" "map (mem st) B" "f (mem st a)"] wf a
    by (simp add: inode_locks_def i lock_frame)
  show ?thesis
    by (rule conjI; rule chains_swap [OF ok i i' _ _ _ A _ wf']) (use a(4) in \<open>auto simp: lock_frame\<close>)
qed

end
