(* ===== verification/Lock_System.thy ===== *)
theory Lock_System
  imports Flock_Lease
begin

text \<open>
  All file lock operations together, as a transition system over the shared state: which requests
  may wait for which locks, the invariant that every operation keeps, and what it gives in every
  reachable state. The deadlock detection of byte-range locks is characterised exactly.
\<close>

section \<open>Waiting requests\<close>

text \<open>
  A blocked request is on the list of the lock it waits for, that lock is still in a chain, and it
  still excludes the request: no request sleeps for a lock that no longer stands in its way.
\<close>

definition blocks_on :: "file_lock \<Rightarrow> file_lock \<Rightarrow> bool" where
  "blocks_on w f =
     (if IS_POSIX f then posix_locks_conflict w f
      else if IS_LEASE f then fl_type f AND F_INPROGRESS \<noteq> 0
      else flock_locks_conflict w f)"

definition wait_inv :: "lock_state \<Rightarrow> bool" where
  "wait_inv st \<longleftrightarrow> (\<forall>w a. w \<in> set (fl_block st a) \<longleftrightarrow> waits_on st w = Some a) \<and>
     (\<forall>w a. waits_on st w = Some a \<longrightarrow> a \<in> in_chains st \<and> w \<notin> in_chains st \<and> blocks_on (mem st w) (mem st a))"

lemma wait_invI:
  assumes "\<And>w a. w \<in> set (fl_block st a) \<longleftrightarrow> waits_on st w = Some a"
    "\<And>w a. waits_on st w = Some a \<Longrightarrow> a \<in> in_chains st \<and> w \<notin> in_chains st \<and> blocks_on (mem st w) (mem st a)"
  shows "wait_inv st"
  using assms by (simp add: wait_inv_def)

lemma chain_not_waiting: "wait_inv st \<Longrightarrow> a \<in> in_chains st \<Longrightarrow> waits_on st a = None"
  unfolding wait_inv_def by (metis option.exhaust)

lemma wait_frame:
  "fl_block (upd_lock a f st) = fl_block st" "waits_on (upd_lock a f st) = waits_on st"
  "in_chains (upd_lock a f st) = in_chains st"
  "fl_block (locks_insert_lock ino tgid n a st) = fl_block st" "waits_on (locks_insert_lock ino tgid n a st) = waits_on st"
  "in_chains (locks_wake_up_blocks a st) = in_chains st" "in_chains (locks_alloc_lock m st) = in_chains st"
  by (simp_all add: upd_lock_def locks_insert_lock_def in_chains_def lock_frame alloc_frame)

lemma set_insert_at: "set (insert_at n a xs) = insert a (set xs)"
proof -
  have "set xs = set (take n xs) \<union> set (drop n xs)" by (metis append_take_drop_id set_append)
  then show ?thesis by (auto simp: insert_at_def)
qed

lemma in_chains_insert: "in_chains (locks_insert_lock ino tgid n a st) = insert a (in_chains st)"
  by (auto simp: in_chains_def lock_frame set_insert_at split: if_splits)

text \<open>Waking removes the requests blocked on one lock.\<close>

lemma waits_on_wake:
  "waits_on (locks_wake_up_blocks b st) w = (if w \<in> set (fl_block st b) then None else waits_on st w)"
  "w \<in> set (fl_block (locks_wake_up_blocks b st) a) \<longleftrightarrow> w \<in> set (fl_block st a) \<and> w \<notin> set (fl_block st b)"
  using wake_up_blocks_spec [of b st] by simp_all

text \<open>Changing a lock and then waking its waiters; the lock may also leave its chain.\<close>

lemma wait_inv_wake:
  assumes inv: "wait_inv st" and x: "waits_on st x = None"
    and st1: "fl_block st1 = fl_block st" "waits_on st1 = waits_on st" "\<And>a. a \<noteq> x \<Longrightarrow> mem st1 a = mem st a"
      "in_chains st1 \<subseteq> in_chains st" "in_chains st - {x} \<subseteq> in_chains st1"
  shows "wait_inv (locks_wake_up_blocks x st1)" "\<And>w. waits_on st w = None \<Longrightarrow> waits_on (locks_wake_up_blocks x st1) w = None"
proof -
  have iff: "\<And>w a. w \<in> set (fl_block st a) \<longleftrightarrow> waits_on st w = Some a"
    and old: "\<And>w a. waits_on st w = Some a \<Longrightarrow> a \<in> in_chains st \<and> w \<notin> in_chains st \<and> blocks_on (mem st w) (mem st a)"
    using inv by (simp_all add: wait_inv_def)
  show "wait_inv (locks_wake_up_blocks x st1)"
  proof (rule wait_invI)
    show "w \<in> set (fl_block (locks_wake_up_blocks x st1) a) \<longleftrightarrow> waits_on (locks_wake_up_blocks x st1) w = Some a" for w a
      using iff by (auto simp: waits_on_wake st1)
    fix w a assume "waits_on (locks_wake_up_blocks x st1) w = Some a"
    then have w: "waits_on st w = Some a" "a \<noteq> x" "w \<noteq> x"
      using iff x by (auto simp: waits_on_wake st1 split: if_splits)
    then show "a \<in> in_chains (locks_wake_up_blocks x st1) \<and> w \<notin> in_chains (locks_wake_up_blocks x st1) \<and>
        blocks_on (mem (locks_wake_up_blocks x st1) w) (mem (locks_wake_up_blocks x st1) a)"
      using old [OF w(1)] st1(3-5) by (auto simp: wait_frame lock_frame)
  qed
  show "waits_on (locks_wake_up_blocks x st1) w = None" if "waits_on st w = None" for w
    using that by (simp add: waits_on_wake st1)
qed

lemma wait_inv_upd:
  assumes inv: "wait_inv st" and x: "waits_on st x = None"
    and f: "\<And>w. waits_on st w = Some x \<Longrightarrow> blocks_on (mem st w) (f (mem st x))"
  shows "wait_inv (upd_lock x f st)"
proof (rule wait_invI)
  show "w \<in> set (fl_block (upd_lock x f st) a) \<longleftrightarrow> waits_on (upd_lock x f st) w = Some a" for w a
    using inv by (simp add: wait_frame wait_inv_def)
  fix w a assume "waits_on (upd_lock x f st) w = Some a"
  then have w: "waits_on st w = Some a" by (simp add: wait_frame)
  then have "w \<noteq> x" using x by auto
  then show "a \<in> in_chains (upd_lock x f st) \<and> w \<notin> in_chains (upd_lock x f st) \<and>
      blocks_on (mem (upd_lock x f st) w) (mem (upd_lock x f st) a)"
    using w f inv by (auto simp: wait_frame lock_frame wait_inv_def)
qed

lemma in_chains_delete:
  assumes "n < length (i_flock st ino)"
  shows "in_chains (locks_delete_lock ino n st) \<subseteq> in_chains st"
    "in_chains st - {i_flock st ino ! n} \<subseteq> in_chains (locks_delete_lock ino n st)"
proof -
  have "set (i_flock st ino) = set (delete_at n (i_flock st ino)) \<union> {i_flock st ino ! n}"
    using id_take_nth_drop [OF assms] by (metis (no_types, lifting) delete_at_def Un_insert_right set_append
        list.simps(15) sup_bot.right_neutral insert_is_Un Un_commute Un_left_commute)
  then have z: "set (i_flock (locks_delete_lock ino n st) z) \<subseteq> set (i_flock st z)"
      "set (i_flock st z) - {i_flock st ino ! n} \<subseteq> set (i_flock (locks_delete_lock ino n st) z)" for z
    by (auto simp: lock_frame)
  show "in_chains (locks_delete_lock ino n st) \<subseteq> in_chains st"
    "in_chains st - {i_flock st ino ! n} \<subseteq> in_chains (locks_delete_lock ino n st)"
    using z unfolding in_chains_def by blast+
qed

lemma wait_inv_delete:
  assumes inv: "wait_inv st" and n: "n < length (i_flock st ino)"
  shows "wait_inv (locks_delete_lock ino n st)" "\<And>w. waits_on st w = None \<Longrightarrow> waits_on (locks_delete_lock ino n st) w = None"
proof -
  let ?x = "i_flock st ino ! n"
  let ?st1 = "st\<lparr>i_flock := (i_flock st)(ino := delete_at n (i_flock st ino)),
      file_lock_list := removeAll ?x (file_lock_list st), mem := (mem st)(?x := (mem st ?x)\<lparr>fl_nspid := None\<rparr>)\<rparr>"
  have d: "locks_delete_lock ino n st = locks_wake_up_blocks ?x ?st1" by (simp add: locks_delete_lock_def Let_def)
  have "in_chains (locks_delete_lock ino n st) = in_chains ?st1" by (simp add: d wait_frame)
  with in_chains_delete [OF n] have c: "in_chains ?st1 \<subseteq> in_chains st" "in_chains st - {?x} \<subseteq> in_chains ?st1" by simp_all
  have x: "waits_on st ?x = None" by (rule chain_not_waiting [OF inv in_chains_I [of _ _ ino]]) (use n in simp)
  show "wait_inv (locks_delete_lock ino n st)" "\<And>w. waits_on st w = None \<Longrightarrow> waits_on (locks_delete_lock ino n st) w = None"
    unfolding d by (rule wait_inv_wake [OF inv x]; use c in simp)+
qed

text \<open>Growing a range keeps its waiters blocked.\<close>

lemma blocks_on_grow:
  assumes "blocks_on w f" "s \<le> fl_start f" "fl_end f \<le> e"
  shows "blocks_on w (f\<lparr>fl_start := s, fl_end := e\<rparr>)"
proof -
  have "posix_same_owner w (f\<lparr>fl_start := s, fl_end := e\<rparr>) = posix_same_owner w f"
    by (simp add: posix_same_owner_def compare_owner_bind nlmsvc_same_owner_def)
  then show ?thesis
    using assms by (auto simp: blocks_on_def posix_locks_conflict_def flock_locks_conflict_def locks_conflict_def
        locks_overlap_def IS_POSIX_def IS_FLOCK_def IS_LEASE_def split: if_splits)
qed

text \<open>Both structures of a merge grow to the union.\<close>

lemma merge_locks_upd:
  "mem (merge_locks a q st) x =
     (if x = a \<or> x = q then (mem st x)\<lparr>fl_start := min (fl_start (mem st a)) (fl_start (mem st q)),
        fl_end := max (fl_end (mem st a)) (fl_end (mem st q))\<rparr> else mem st x)"
proof (cases "a = q")
  case True
  then show ?thesis by (auto simp: merge_locks_def Let_def lock_frame)
next
  case False
  then show ?thesis by (simp add: merge_locks_mem)
qed

lemma merge_frame:
  "fl_block (merge_locks a q st) = fl_block st" "waits_on (merge_locks a q st) = waits_on st"
  "in_chains (merge_locks a q st) = in_chains st"
  by (simp_all add: merge_locks_def Let_def upd_lock_def in_chains_def)

lemma wait_inv_merge:
  assumes inv: "wait_inv st" and a: "waits_on st a = None" "waits_on st q = None"
  shows "wait_inv (merge_locks a q st)"
proof (rule wait_invI)
  show "w \<in> set (fl_block (merge_locks a q st) x) \<longleftrightarrow> waits_on (merge_locks a q st) w = Some x" for w x
    using inv by (simp add: merge_frame wait_inv_def)
  fix w x assume "waits_on (merge_locks a q st) w = Some x"
  then have w: "waits_on st w = Some x" "w \<noteq> a" "w \<noteq> q" using a by (auto simp: merge_frame)
  have old: "x \<in> in_chains st" "w \<notin> in_chains st" "blocks_on (mem st w) (mem st x)"
    using inv w(1) by (auto simp: wait_inv_def)
  have "blocks_on (mem st w) (mem (merge_locks a q st) x)"
    using old(3) blocks_on_grow [OF old(3)] by (auto simp: merge_locks_upd)
  then show "x \<in> in_chains (merge_locks a q st) \<and> w \<notin> in_chains (merge_locks a q st) \<and>
      blocks_on (mem (merge_locks a q st) w) (mem (merge_locks a q st) x)"
    using old w by (simp add: merge_frame merge_locks_upd)
qed

lemma wait_inv_replace:
  assumes inv: "wait_inv st" and a: "waits_on st a = None"
  shows "wait_inv (replace_lock a q st)" "\<And>w. waits_on st w = None \<Longrightarrow> waits_on (replace_lock a q st) w = None"
proof -
  have w: "wait_inv (locks_wake_up_blocks a st)" "\<And>w. waits_on st w = None \<Longrightarrow> waits_on (locks_wake_up_blocks a st) w = None"
    by (rule wait_inv_wake [OF inv a]; simp)+
  have "waits_on (locks_wake_up_blocks a st) x \<noteq> Some a" for x
    using inv by (auto simp: waits_on_wake wait_inv_def)
  then show "wait_inv (replace_lock a q st)"
    unfolding replace_lock_def Let_def by (intro wait_inv_upd w a) simp
  show "waits_on (replace_lock a q st) w = None" if "waits_on st w = None" for w
    using w(2) [OF that] by (simp add: replace_lock_def Let_def wait_frame)
qed

text \<open>The loop: requests only ever stop waiting, and the trimmed neighbours are not requests.\<close>

definition loop_calm :: "lock_state \<Rightarrow> posix_vars \<Rightarrow> bool" where
  "loop_calm st res \<longleftrightarrow> (case res of (st', before, q', added, left, right) \<Rightarrow>
     wait_inv st' \<and> waits_on st' q' = None \<and> (\<forall>w. waits_on st w = None \<longrightarrow> waits_on st' w = None) \<and>
     (\<forall>a\<in>set_option left \<union> set_option right. waits_on st' a = None) \<and> in_chains st' \<subseteq> in_chains st)"

lemma loop_calm_trans:
  assumes "loop_calm st1 res" "\<And>w. waits_on st w = None \<Longrightarrow> waits_on st1 w = None" "in_chains st1 \<subseteq> in_chains st"
  shows "loop_calm st res"
  using assms by (auto simp: loop_calm_def split: prod.splits)

lemma replace_chains: "in_chains (replace_lock a q st) = in_chains st"
  by (simp add: replace_lock_def Let_def wait_frame)

lemma posix_loop_calm:
  assumes "wait_inv st" "waits_on st q = None" "\<forall>a\<in>set_option left \<union> set_option right. waits_on st a = None"
  shows "loop_calm st (posix_owner_loop ino st before q added left right)"
  using assms
proof (induction "length (i_flock st ino) - before" arbitrary: st before q added left right rule: less_induct)
  case less
  let ?fl = "i_flock st ino ! before"
  let ?go = "before < length (i_flock st ino) \<and> posix_same_owner (mem st q) (mem st ?fl)"
  have stop: "loop_calm st (st, before, q, added', left', right')"
    if "\<forall>a\<in>set_option left' \<union> set_option right'. waits_on st a = None" for added' left' right'
    using less.prems(1,2) that by (simp add: loop_calm_def)
  have step: "loop_calm st (posix_owner_loop ino st1 before1 q1 added1 left1 right)"
    if "length (i_flock st1 ino) - before1 < length (i_flock st ino) - before" "wait_inv st1"
      "\<And>w. waits_on st w = None \<Longrightarrow> waits_on st1 w = None" "in_chains st1 \<subseteq> in_chains st" "waits_on st q1 = None"
      "\<forall>a\<in>set_option left1. waits_on st a = None" for st1 before1 q1 added1 left1
    by (rule loop_calm_trans [OF less.hyps [OF that(1,2)] that(3,4)]) (use that(3,5,6) less.prems(3) in auto)
  show ?case
  proof (cases ?go)
    case False
    then show ?thesis using stop [OF less.prems(3)] by (subst posix_owner_loop.simps, subst if_not_P)
  next
    case True
    then have n: "before < length (i_flock st ino)" by simp
    have fl: "waits_on st ?fl = None"
      by (rule chain_not_waiting [OF less.prems(1) in_chains_I [of _ _ ino]]) (use n in simp)
    note m = wait_inv_merge [OF less.prems(1) fl less.prems(2)]
    have mn: "before < length (i_flock (merge_locks ?fl q st) ino)" using n by (simp add: lock_frame)
    note md = wait_inv_delete [OF m mn] and d = wait_inv_delete [OF less.prems(1) n]
    note r = wait_inv_replace [OF less.prems(1) fl, where q = q]
    have left: "\<forall>a\<in>set_option (if c then Some ?fl else left). waits_on st a = None" for c
      using fl less.prems(3) by simp
    have next1: "loop_calm st (posix_owner_loop ino st (before + 1) q added1 left1 right)"
      if "\<forall>a\<in>set_option left1. waits_on st a = None" for added1 left1
      by (rule step) (use n that less.prems in auto)
    have mdel: "loop_calm st (posix_owner_loop ino (locks_delete_lock ino before (merge_locks ?fl q st)) before q added left right)"
      by (rule step) (use n md in_chains_delete(1) [OF mn] less.prems in \<open>auto simp: lock_frame length_delete_at merge_frame\<close>)
    have mkeep: "loop_calm st (posix_owner_loop ino (merge_locks ?fl q st) (before + 1) ?fl True left right)"
      by (rule step) (use n m fl less.prems in \<open>auto simp: lock_frame merge_frame\<close>)
    have del: "loop_calm st (posix_owner_loop ino (locks_delete_lock ino before st) before q added1 left1 right)"
      if "\<forall>a\<in>set_option left1. waits_on st a = None" for added1 left1
      by (rule step) (use n that d in_chains_delete(1) [OF n] less.prems in \<open>auto simp: lock_frame length_delete_at\<close>)
    have rep: "loop_calm st (posix_owner_loop ino (replace_lock ?fl q st) (before + 1) ?fl True left1 right)"
      if "\<forall>a\<in>set_option left1. waits_on st a = None" for left1
      by (rule step) (use n that r fl less.prems in \<open>auto simp: lock_frame replace_chains\<close>)
    have ifI: "(c \<Longrightarrow> loop_calm st x) \<Longrightarrow> (\<not> c \<Longrightarrow> loop_calm st y) \<Longrightarrow> loop_calm st (if c then x else y)" for c x y
      by simp
    have old: "\<forall>a\<in>set_option left. waits_on st a = None" using less.prems(3) by simp
    show ?thesis
      unfolding posix_owner_loop.simps [of ino st before q added left right] if_P [OF True] Let_def
      by (intro ifI next1 mdel mkeep del rep stop left old less.prems(3)) (use fl less.prems(3) in auto)
  qed
qed

text \<open>A new structure enters a chain; nobody waits for it yet.\<close>

lemma wait_inv_new:
  assumes inv: "wait_inv st" and a: "waits_on st a = None" "a \<notin> in_chains st"
  shows "wait_inv (upd_lock a f st)" "wait_inv (locks_insert_lock ino tgid n a (upd_lock a f st))"
proof -
  have none: "waits_on st w \<noteq> Some a" for w using inv a(2) by (auto simp: wait_inv_def)
  then show "wait_inv (upd_lock a f st)" by (intro wait_inv_upd inv a) simp
  show "wait_inv (locks_insert_lock ino tgid n a (upd_lock a f st))"
  proof (rule wait_invI)
    fix w x assume "waits_on (locks_insert_lock ino tgid n a (upd_lock a f st)) w = Some x"
    then have w: "waits_on st w = Some x" "w \<noteq> a" "x \<noteq> a" using a none by (auto simp: wait_frame)
    then show "x \<in> in_chains (locks_insert_lock ino tgid n a (upd_lock a f st)) \<and>
        w \<notin> in_chains (locks_insert_lock ino tgid n a (upd_lock a f st)) \<and>
        blocks_on (mem (locks_insert_lock ino tgid n a (upd_lock a f st)) w)
          (mem (locks_insert_lock ino tgid n a (upd_lock a f st)) x)"
      using inv by (auto simp: in_chains_insert wait_frame lock_frame wait_inv_def)
  qed (use inv in \<open>simp add: wait_frame wait_inv_def\<close>)
qed

lemma wait_inv_trim:
  assumes "wait_inv st" "waits_on st a = None"
  shows "wait_inv (locks_wake_up_blocks a (upd_lock a f st))"
    "\<And>w. waits_on st w = None \<Longrightarrow> waits_on (locks_wake_up_blocks a (upd_lock a f st)) w = None"
  by (rule wait_inv_wake [OF assms]; simp add: wait_frame lock_frame)+

text \<open>What the operations keep of the waiting requests.\<close>

definition calm :: "lock_state \<Rightarrow> lock_state \<Rightarrow> bool" where
  "calm st st' \<longleftrightarrow> wait_inv st' \<and> (\<forall>w. waits_on st w = None \<longrightarrow> waits_on st' w = None)"

lemma calm_trans: "calm st st1 \<Longrightarrow> calm st1 st2 \<Longrightarrow> calm st st2"
  by (auto simp: calm_def)

lemma calm_refl: "wait_inv st \<Longrightarrow> calm st st"
  by (simp add: calm_def)

lemma calm_insert:
  assumes "wait_inv st" "waits_on st a = None" "a \<notin> in_chains st"
  shows "calm st (locks_insert_lock ino tgid n a (upd_lock a f st))"
  using wait_inv_new(2) [OF assms] by (simp add: calm_def wait_frame)

lemma calm_trim:
  assumes "wait_inv st" "waits_on st a = None"
  shows "calm st (locks_wake_up_blocks a (upd_lock a f st))"
  using wait_inv_trim [OF assms] by (simp add: calm_def)

lemma calm_delete: "wait_inv st \<Longrightarrow> n < length (i_flock st ino) \<Longrightarrow> calm st (locks_delete_lock ino n st)"
  using wait_inv_delete by (simp add: calm_def)

lemma posix_split_calm:
  assumes inv: "wait_inv st" and sides: "\<forall>a\<in>set_option left \<union> set_option right. waits_on st a = None"
    and n2: "right \<noteq> None \<and> left = right \<Longrightarrow> waits_on st n2 = None \<and> n2 \<notin> in_chains st"
  shows "calm st (posix_split ino tgid n2 before q left right st)"
proof -
  have trim_left: "calm st (case left' of None \<Rightarrow> st1 | Some l \<Rightarrow> locks_wake_up_blocks l (upd_lock l f st1))"
    if "calm st st1" "\<forall>a\<in>set_option left'. waits_on st a = None" for left' st1 f
    using that calm_trans [OF that(1) calm_trim] by (auto simp: calm_def split: option.split)
  show ?thesis
  proof (cases right)
    case None
    then show ?thesis using trim_left [OF calm_refl [OF inv]] sides by (simp add: posix_split_def)
  next
    case r: (Some r)
    then have rn: "waits_on st r = None" using sides by simp
    show ?thesis
    proof (cases "left = right")
      case False
      then show ?thesis
        using trim_left [OF calm_trim [OF inv rn]] sides r by (simp add: posix_split_def Let_def)
    next
      case True
      let ?st = "locks_insert_lock ino tgid before n2 (upd_lock n2 (\<lambda>l. locks_copy_lock l (mem st r)) st)"
      have n2': "waits_on st n2 = None" "n2 \<notin> in_chains st" using n2 r True by auto
      have c: "calm st ?st" by (rule calm_insert [OF inv n2'])
      then have "calm st (locks_wake_up_blocks r (upd_lock r f ?st))" for f
        using rn by (intro calm_trans [OF c calm_trim]) (auto simp: calm_def)
      then show ?thesis using trim_left [of _ "Some n2"] n2' r True by (simp add: posix_split_def Let_def)
    qed
  qed
qed

lemma posix_apply_calm:
  assumes calm: "loop_calm st (st', before, q', added, left, right)"
    and n1: "\<forall>a\<in>set_option n1. waits_on st a = None \<and> a \<notin> in_chains st"
    and n2: "\<forall>a\<in>set_option n2. waits_on st a = None \<and> a \<notin> in_chains st" and ne: "n1 = None \<or> n1 \<noteq> n2"
  shows "calm st (fst (posix_apply ino tgid n1 n2 (st', before, q', added, left, right)))"
proof -
  have c: "calm st st'" "in_chains st' \<subseteq> in_chains st"
    and sides: "\<forall>a\<in>set_option left \<union> set_option right. waits_on st' a = None"
    using calm by (simp_all add: loop_calm_def calm_def)
  have split: "calm st (posix_split ino tgid (the n2) before q' left right st1)"
    if st1: "calm st' st1" and n2': "right \<noteq> None \<and> left = right \<Longrightarrow> \<exists>a. n2 = Some a \<and> a \<notin> in_chains st1" for st1
  proof (rule calm_trans [OF c(1)], rule calm_trans [OF st1], rule posix_split_calm)
    show "wait_inv st1" "\<forall>a\<in>set_option left \<union> set_option right. waits_on st1 a = None"
      using st1 sides by (auto simp: calm_def)
    show "waits_on st1 (the n2) = None \<and> the n2 \<notin> in_chains st1" if "right \<noteq> None \<and> left = right"
      using n2' [OF that] n2 c(1) st1 by (auto simp: calm_def)
  qed
  have ins: "calm st' (locks_insert_lock ino tgid before a (upd_lock a f st'))" if "n1 = Some a" for a f
    by (rule calm_insert) (use c n1 that in \<open>auto simp: calm_def\<close>)
  have added: "calm st (posix_split ino tgid (the n2) before q' left right st')"
    if "\<not> (right \<noteq> None \<and> left = right \<and> n2 = None)"
    by (rule split [OF calm_refl]) (use c n2 that in \<open>auto simp: calm_def\<close>)
  have new: "calm st (posix_split ino tgid (the n2) before q' left right
      (locks_insert_lock ino tgid before (the n1) (upd_lock (the n1) f st')))"
    if s: "\<not> (right \<noteq> None \<and> left = right \<and> n2 = None)" and some: "n1 \<noteq> None" for f
  proof -
    obtain a where a: "n1 = Some a" using some by auto
    show ?thesis
      unfolding a option.sel
      by (rule split [OF ins [OF a]]) (use c n2 ne a s in \<open>auto simp: in_chains_insert wait_frame\<close>)
  qed
  show ?thesis
  proof (cases "right \<noteq> None \<and> left = right \<and> n2 = None")
    case True
    then show ?thesis using c(1) by (simp add: posix_apply_def)
  next
    case False
    show ?thesis
      using c(1) added [OF False] new [OF False]
      by (cases added; cases n1) (simp_all add: posix_apply_def Let_def if_not_P [OF False])
  qed
qed

section \<open>The system of lock operations\<close>

text \<open>A request starts to wait for a lock that excludes it, or gives up waiting.\<close>

lemma wait_inv_block:
  assumes inv: "wait_inv st" and q: "waits_on st q = None" "q \<notin> in_chains st"
    and b: "b \<in> in_chains st" "blocks_on (mem st q) (mem st b)"
  shows "wait_inv (locks_insert_block b q st)"
  using assms by (auto simp: wait_inv_def locks_insert_block_def in_chains_def)

lemma wait_inv_unblock: "wait_inv st \<Longrightarrow> calm st (locks_delete_block q st)"
  by (auto simp: wait_inv_def calm_def locks_delete_block_def in_chains_def)

lemma wait_inv_alloc:
  assumes "wait_inv st" "\<forall>a\<in>set_option n. waits_on st a = None \<and> a \<notin> in_chains st"
  shows "wait_inv (locks_alloc_lock n st)"
proof (cases n)
  case (Some a)
  then have "locks_alloc_lock n st = upd_lock a (\<lambda>_. locks_init_lock_always) st"
    by (simp add: locks_alloc_lock_def upd_lock_def)
  then show ?thesis using wait_inv_new(1) assms Some by simp
qed (use assms in \<open>simp add: locks_alloc_lock_def\<close>)

text \<open>Structures that are neither locks in a chain nor blocked requests.\<close>

definition spare :: "lock_state \<Rightarrow> addr \<Rightarrow> bool" where
  "spare st a \<longleftrightarrow> a \<notin> in_chains st \<and> waits_on st a = None"

lemma posix_lock_file_waiters:
  assumes inv: "wait_inv st" and spare: "spare st q" "\<forall>a\<in>set_option a1 \<union> set_option a2. spare st a"
    and fresh: "fresh_allocs st q a1 a2" and run: "posix_lock_file_conf ino tgid q a1 a2 cf st = (st', cf', res)"
  shows "wait_inv st'"
proof -
  define n1 where "n1 = (if alloc_needed (mem st q) then a1 else None)"
  define n2 where "n2 = (if alloc_needed (mem st q) then a2 else None)"
  define st0 where "st0 = alloc_two n1 n2 st"
  note unf = posix_lock_file_unfold [OF fresh refl n1_def n2_def st0_def, of ino tgid cf]
  have n: "\<forall>a\<in>set_option n1 \<union> set_option n2. spare st a" "n1 = None \<or> n1 \<noteq> n2"
    using spare fresh by (auto simp: n1_def n2_def fresh_allocs_def)
  have fresh': "fresh_allocs st q n1 n2" using fresh by (auto simp: fresh_allocs_def n1_def n2_def)
  note same = alloc_two_same [OF this, folded st0_def]
  have w: "waits_on st0 = waits_on st" and c: "in_chains st0 = in_chains st"
    by (simp_all add: st0_def alloc_two_def alloc_frame wait_frame)
  have inv0: "wait_inv st0"
    unfolding st0_def alloc_two_def
    by (intro wait_inv_alloc inv) (use n in \<open>auto simp: spare_def alloc_frame wait_frame\<close>)
  have run_wait: "wait_inv (fst (posix_apply ino tgid n1 n2 (posix_owner_loop ino st0 k q False None None)))" for k
  proof -
    obtain s b r ad l ri where eq: "posix_owner_loop ino st0 k q False None None = (s, b, r, ad, l, ri)"
      by (metis prod_cases6)
    have "loop_calm st0 (posix_owner_loop ino st0 k q False None None)"
      by (rule posix_loop_calm [OF inv0]) (use spare w in \<open>simp_all add: spare_def\<close>)
    then show ?thesis
      unfolding eq using posix_apply_calm [of st0 s b r ad l ri n1 n2] n w c by (auto simp: spare_def calm_def)
  qed
  have block: "wait_inv (locks_insert_block fl q st0)" if "posix_conflict st ino q = Some fl" for fl
    using posix_conflict_Some [OF that] in_chains_I [of fl st ino] spare same w c
    by (intro wait_inv_block inv0) (auto simp: spare_def blocks_on_def)
  show ?thesis
    using run inv0 block run_wait unfolding unf
    by (auto split: if_splits option.splits prod.splits) (metis fst_conv)+
qed

text \<open>The invariant of the whole system.\<close>

definition locks_ok :: "lock_state \<Rightarrow> bool" where
  "locks_ok st \<longleftrightarrow> chains_ok st \<and> wait_inv st"

lemma locks_ok_frame:
  assumes "chains_ok st" "i_flock st' = i_flock st" "\<And>a. a \<in> in_chains st \<Longrightarrow> mem st' a = mem st a"
  shows "chains_ok st'"
proof -
  have m: "\<forall>a\<in>in_chains st. mem st' a = mem st a" using assms(3) by simp
  note s = same_chains [OF assms(2) m]
  have "held st' = held st" using s(3) by blast
  then show ?thesis using assms(1) s(2,4) held_same_exclusive by (simp add: chains_ok_def)
qed

lemma posix_lock_file_ok:
  assumes ok: "locks_ok st" and spare: "spare st q" "\<forall>a\<in>set_option a1 \<union> set_option a2. spare st a"
    and req: "request_ok st q" and fresh: "fresh_allocs st q a1 a2"
    and run: "posix_lock_file_conf ino tgid q a1 a2 cf st = (st', cf', res)"
  shows "locks_ok st'"
proof -
  have inv: "lock_inv st" and ex: "exclusive st" and w: "wait_inv st"
    using ok by (simp_all add: locks_ok_def chains_ok_def)
  note eff = posix_lock_file_effect [OF inv req fresh run]
  have "whole_file_ok (inode_locks st' i)" for i
  proof -
    have "whole_file_ok (inode_locks st i)" "inode_inv (inode_locks st i)" "inode_inv (inode_locks st' i)"
      "nonposix (inode_locks st' i) = nonposix (inode_locks st i)"
      using ok eff by (simp_all add: locks_ok_def chains_ok_def lock_inv_def)
    then show ?thesis using whole_file_ok_nonposix by metis
  qed
  then show ?thesis
    using eff posix_lock_file_exclusive [OF inv req fresh run ex] posix_lock_file_waiters [OF w spare fresh run]
    by (simp add: locks_ok_def chains_ok_def)
qed

lemma unblock_ok: "locks_ok st \<Longrightarrow> locks_ok (locks_delete_block q st)"
  using wait_inv_unblock [of st q] locks_ok_frame [of st "locks_delete_block q st"]
  by (simp add: locks_ok_def calm_def lock_frame)

lemma prepare_ok:
  assumes "locks_ok st" "spare st q"
  shows "locks_ok (upd_lock q f st)"
proof -
  have "chains_ok (upd_lock q f st)"
    by (rule locks_ok_frame [of st]) (use assms in \<open>auto simp: locks_ok_def spare_def lock_frame\<close>)
  then show ?thesis using assms wait_inv_new(1) [of st q f] by (simp add: locks_ok_def spare_def)
qed

lemma flock_replace_ok:
  assumes ok: "locks_ok st"
  shows "locks_ok (fst (flock_replace ino filp q st))"
proof (cases "flock_old (mem st) filp 0 (i_flock st ino)")
  case (Some n)
  note old = flock_old_Some [OF Some]
  have "locks_ok (locks_delete_lock ino n st)"
    using ok old delete_nonposix_ok [of st n ino] calm_delete [of st n ino]
    by (simp add: locks_ok_def whole_file_def calm_def)
  then show ?thesis using ok Some by (simp add: flock_replace_def Let_def)
qed (use ok in \<open>simp add: flock_replace_def Let_def\<close>)

lemma flock_find_conflict_ok:
  assumes ok: "locks_ok st" and req: "flock_request st q" and spare: "spare st q" "spare st n"
  shows "locks_ok (fst (flock_find_conflict ino tgid q n st))"
proof (cases "flock_conflict (mem st) (mem st q) (i_flock st ino)")
  case (Some fl)
  note c = flock_conflict_Some [OF Some]
  have "wait_inv (locks_insert_block fl q st)"
    using ok spare c in_chains_I [of fl st ino] by (intro wait_inv_block) (auto simp: locks_ok_def spare_def blocks_on_def whole_file_def)
  moreover have "chains_ok (locks_insert_block fl q st)"
    by (rule locks_ok_frame [of st]) (use ok in \<open>simp_all add: locks_ok_def locks_insert_block_def\<close>)
  ultimately show ?thesis using ok Some by (simp add: flock_find_conflict_def Let_def locks_ok_def)
next
  case None
  have "chains_ok (locks_insert_lock ino tgid (flock_end st ino) n (upd_lock n (\<lambda>x. locks_copy_lock x (mem st q)) st))"
    using insert_flock_ok [OF _ req None _ refl] ok spare by (simp add: locks_ok_def spare_def)
  moreover have "wait_inv (locks_insert_lock ino tgid (flock_end st ino) n (upd_lock n (\<lambda>x. locks_copy_lock x (mem st q)) st))"
    using wait_inv_new(2) ok spare by (simp add: locks_ok_def spare_def)
  ultimately show ?thesis using ok None by (simp add: flock_find_conflict_def Let_def locks_ok_def)
qed

text \<open>Leases: waking those that wait for a lease whose type changes, and deleting it.\<close>

lemma lease_upd_ok:
  assumes ok: "locks_ok st" and a: "a \<in> set (i_flock st ino)" "IS_LEASE (mem st a)" "IS_LEASE (f (mem st a))"
    "\<not> IS_POSIX (f (mem st a))"
  shows "locks_ok (locks_wake_up_blocks a (upd_lock a f st))"
proof -
  have w: "waits_on st a = None" using chain_not_waiting ok in_chains_I [OF a(1)] by (simp add: locks_ok_def)
  have "chains_ok (upd_lock a f st)" using change_lease_ok [of st a ino f] a ok by (simp add: locks_ok_def)
  then have "chains_ok (locks_wake_up_blocks a (upd_lock a f st))"
    by (rule locks_ok_frame) (simp_all add: lock_frame)
  then show ?thesis using calm_trim [OF _ w, of f] ok by (simp add: locks_ok_def calm_def)
qed

lemma lease_not_posix: "locks_ok st \<Longrightarrow> a \<in> set (i_flock st ino) \<Longrightarrow> IS_LEASE (mem st a) \<Longrightarrow> \<not> IS_POSIX (mem st a)"
  using chain_posix_ok by (auto simp: locks_ok_def chains_ok_def posix_ok_def owner_ok_def)

lemma assign_type_Inr: "assign_type f t = Inr f' \<Longrightarrow> f' = f\<lparr>fl_type := of_int t\<rparr>"
  by (simp add: assign_type_def split: if_splits)

lemma lease_modify_ok:
  assumes ok: "locks_ok st" and n: "n < length (i_flock st ino)" "IS_LEASE (mem st (i_flock st ino ! n))"
    and run: "lease_modify ino n arg st = Inr st'"
  shows "locks_ok st'"
proof -
  let ?a = "i_flock st ino ! n"
  obtain f where f: "assign_type (mem st ?a) (uint arg) = Inr f" "f = (mem st ?a)\<lparr>fl_type := of_int (uint arg)\<rparr>"
    using run assign_type_Inr by (fastforce simp: lease_modify_def Let_def split: sum.splits)
  let ?st = "locks_wake_up_blocks ?a (upd_lock ?a (\<lambda>_. f) st)"
  have np: "\<not> IS_POSIX (mem st ?a)" using lease_not_posix [OF ok _ n(2), of ino] n(1) by simp
  have st: "locks_ok ?st"
    using n np f by (intro lease_upd_ok [OF ok, of _ ino]) (simp_all add: IS_LEASE_def IS_POSIX_def)
  have "locks_ok (locks_delete_lock ino n ?st)"
    using st delete_nonposix_ok [of ?st n ino] calm_delete [of ?st n ino] np n f
    by (simp add: locks_ok_def calm_def lock_frame IS_POSIX_def)
  then show ?thesis using run st f by (auto simp: lease_modify_def Let_def)
qed

lemma time_out_loop_ok: "locks_ok st \<Longrightarrow> locks_ok (time_out_loop ino jiffies n st)"
proof (induction ino jiffies n st rule: time_out_loop.induct)
  case (1 ino jiffies n st)
  show ?case
    by (subst time_out_loop.simps)
      (use 1 lease_modify_ok [OF 1(5)] in \<open>auto simp: Let_def split: sum.split\<close>)
qed

lemma remove_flock_loop_ok: "locks_ok st \<Longrightarrow> remove_flock_loop ino filp n st = Some st' \<Longrightarrow> locks_ok st'"
proof (induction ino filp n st rule: remove_flock_loop.induct)
  case (1 ino filp n st)
  let ?a = "i_flock st ino ! n"
  have del: "locks_ok (locks_delete_lock ino n st)" if "n < length (i_flock st ino)" "\<not> IS_POSIX (mem st ?a)"
    using delete_nonposix_ok [of st n ino] calm_delete [of st n ino] 1(4) that by (simp add: locks_ok_def calm_def)
  have flock: "\<not> IS_POSIX (mem st ?a)" if "n < length (i_flock st ino)" "IS_FLOCK (mem st ?a)"
    using chain_posix_ok [of st ?a ino] 1(4) that by (auto simp: locks_ok_def chains_ok_def posix_ok_def owner_ok_def)
  show ?case
    using 1(5) 1(1-3) [OF _ refl refl] 1(4) del flock lease_modify_ok [OF 1(4), of n ino]
    by (subst (asm) remove_flock_loop.simps) (auto simp: Let_def split: if_splits sum.splits)
qed

text \<open>Structures that are spare stay spare while leases time out.\<close>

lemma idle_calm: "calm st st' \<Longrightarrow> in_chains st' \<subseteq> in_chains st \<Longrightarrow> spare st a \<Longrightarrow> spare st' a"
  by (auto simp: calm_def spare_def)

lemma lease_modify_idle:
  assumes ok: "locks_ok st" and n: "n < length (i_flock st ino)" and run: "lease_modify ino n arg st = Inr st'"
    and a: "spare st a"
  shows "spare st' a \<and> mem st' a = mem st a"
proof -
  let ?b = "i_flock st ino ! n"
  have b: "?b \<in> in_chains st" using in_chains_I [of ?b st ino] n by simp
  have w: "wait_inv st" "waits_on st ?b = None" using ok chain_not_waiting b by (auto simp: locks_ok_def)
  have st1: "calm st (locks_wake_up_blocks ?b (upd_lock ?b f st))" for f by (rule calm_trim [OF w])
  have n1: "n < length (i_flock (locks_wake_up_blocks ?b (upd_lock ?b f st)) ino)" for f using n by (simp add: lock_frame)
  have st2: "calm st (locks_delete_lock ino n (locks_wake_up_blocks ?b (upd_lock ?b f st)))" for f
    using calm_trans [OF st1 calm_delete [OF _ n1]] st1 by (simp add: calm_def)
  have "a \<noteq> ?b" using a b by (auto simp: spare_def)
  then show ?thesis
    using run idle_calm [OF st1 _ a] idle_calm [OF st2 _ a] in_chains_delete(1) [OF n1]
    by (auto simp: lease_modify_def Let_def lock_frame wait_frame split: sum.splits if_splits)
qed

lemma time_out_loop_idle: "locks_ok st \<Longrightarrow> spare st a \<Longrightarrow>
    spare (time_out_loop ino jiffies n st) a \<and> mem (time_out_loop ino jiffies n st) a = mem st a"
proof (induction ino jiffies n st rule: time_out_loop.induct)
  case (1 ino jiffies n st)
  show ?case
    by (subst (1 2) time_out_loop.simps)
      (use 1 lease_modify_ok [OF 1(5), of n ino] lease_modify_idle [OF 1(5) _ _ 1(6), of n ino] in
        \<open>auto simp: Let_def split: sum.split\<close>)
qed

lemma time_out_leases_ok: "locks_ok st \<Longrightarrow> locks_ok (time_out_leases ino jiffies st)"
  "locks_ok st \<Longrightarrow> spare st a \<Longrightarrow> spare (time_out_leases ino jiffies st) a"
  "locks_ok st \<Longrightarrow> spare st a \<Longrightarrow> mem (time_out_leases ino jiffies st) a = mem st a"
  by (simp_all add: time_out_leases_def time_out_loop_ok time_out_loop_idle)

section \<open>Breaking leases\<close>

lemma leases_lease: "a \<in> set (leases st ino) \<Longrightarrow> a \<in> set (i_flock st ino) \<and> IS_LEASE (mem st a)"
  by (auto simp: leases_def dest: set_takeWhileD)

lemma lease_kind_update [simp]:
  "IS_LEASE (f\<lparr>fl_type := t\<rparr>) = IS_LEASE f" "IS_POSIX (f\<lparr>fl_type := t\<rparr>) = IS_POSIX f"
  "IS_LEASE (f\<lparr>fl_break_time := b\<rparr>) = IS_LEASE f" "IS_POSIX (f\<lparr>fl_break_time := b\<rparr>) = IS_POSIX f"
  by (simp_all add: IS_LEASE_def IS_POSIX_def)

lemma fl_break_kind [simp]:
  "IS_LEASE (fl_break f) = IS_LEASE f" "IS_POSIX (fl_break f) = IS_POSIX f" "fl_type (fl_break f) = fl_type f"
  "fl_file (fl_break f) = fl_file f"
  by (simp_all add: fl_break_def IS_LEASE_def IS_POSIX_def)

lemma break_upd_ok:
  assumes ok: "locks_ok st" and a: "a \<in> set (i_flock st ino)" "IS_LEASE (mem st a)" and fut: "future AND F_INPROGRESS \<noteq> 0"
  shows "locks_ok (upd_lock a (\<lambda>f. fl_break (f\<lparr>fl_type := future, fl_break_time := bt\<rparr>)) st)" (is "locks_ok (upd_lock a ?f st)")
proof -
  have np: "\<not> IS_POSIX (mem st a)" using lease_not_posix [OF ok a] .
  then have k: "IS_LEASE (?f (mem st a))" "\<not> IS_POSIX (?f (mem st a))" using a(2) by simp_all
  have "blocks_on w (?f (mem st a))" for w using k fut by (simp add: blocks_on_def)
  then have "wait_inv (upd_lock a ?f st)"
    using ok chain_not_waiting [OF _ in_chains_I [OF a(1)]] by (intro wait_inv_upd) (simp_all add: locks_ok_def)
  then show ?thesis using change_lease_ok [of st a ino ?f] ok a k by (simp add: locks_ok_def)
qed

lemma break_loop_spec:
  assumes "locks_ok st" "\<forall>a\<in>set fls. a \<in> set (i_flock st ino) \<and> IS_LEASE (mem st a)" "future AND F_INPROGRESS \<noteq> 0"
  shows "locks_ok (break_loop future bt fls st) \<and> i_flock (break_loop future bt fls st) = i_flock st \<and>
    waits_on (break_loop future bt fls st) = waits_on st \<and>
    (\<forall>a. fl_type (mem (break_loop future bt fls st) a) = (if a \<in> set fls then future else fl_type (mem st a)) \<and>
         IS_LEASE (mem (break_loop future bt fls st) a) = IS_LEASE (mem st a) \<and>
         (a \<notin> set fls \<longrightarrow> mem (break_loop future bt fls st) a = mem st a))"
  using assms
proof (induction fls arbitrary: st)
  case (Cons b fls)
  let ?st = "if fl_type (mem st b) \<noteq> future
    then upd_lock b (\<lambda>f. fl_break (f\<lparr>fl_type := future, fl_break_time := bt\<rparr>)) st else st"
  have ok: "locks_ok ?st" using break_upd_ok [of st b ino] Cons.prems by simp
  have fr: "i_flock ?st = i_flock st" "waits_on ?st = waits_on st" "\<And>a. IS_LEASE (mem ?st a) = IS_LEASE (mem st a)"
    "\<And>a. fl_type (mem ?st a) = (if a = b then future else fl_type (mem st a))" "\<And>a. a \<noteq> b \<Longrightarrow> mem ?st a = mem st a"
    by (simp_all add: lock_frame wait_frame)
  show ?case using Cons.IH [OF ok] Cons.prems fr by auto
qed simp

text \<open>A request that sleeps until a lease is given up.\<close>

lemma sleep_on_lease_ok:
  assumes ok: "locks_ok st" and f: "f \<in> set (i_flock st ino)" "IS_LEASE (mem st f)" "fl_type (mem st f) AND F_INPROGRESS \<noteq> 0"
    and a: "spare st a"
  shows "locks_ok (locks_insert_block f a st)"
proof -
  have "blocks_on (mem st a) (mem st f)" using lease_not_posix [OF ok f(1,2)] f by (simp add: blocks_on_def)
  then have "wait_inv (locks_insert_block f a st)"
    using ok a in_chains_I [OF f(1)] by (intro wait_inv_block) (simp_all add: locks_ok_def spare_def)
  moreover have "chains_ok (locks_insert_block f a st)"
    by (rule locks_ok_frame [of st]) (use ok in \<open>simp_all add: locks_ok_def locks_insert_block_def\<close>)
  ultimately show ?thesis by (simp add: locks_ok_def)
qed

lemma locks_alloc_Some: "locks_alloc_lock (Some x) st = upd_lock x (\<lambda>_. locks_init_lock_always) st"
  by (simp add: locks_alloc_lock_def upd_lock_def)

lemma lease_alloc_ok:
  assumes ok: "locks_ok st" and a: "\<forall>a\<in>set_option alloc. spare st a"
    and run: "lease_alloc alloc filp type files tgid st = (st', r)"
  shows "locks_ok st'" "\<And>x. spare st x \<Longrightarrow> spare st' x" "\<And>x. r = Inr x \<Longrightarrow> spare st' x"
    "leases st' ino = leases st ino"
proof -
  have u: "locks_ok (upd_lock x f s) \<and> (\<forall>y. spare s y \<longrightarrow> spare (upd_lock x f s) y)" if "locks_ok s" "spare s x" for x f s
    using prepare_ok [OF that] by (simp add: spare_def wait_frame)
  have ff: "leases (upd_lock x f s) ino = leases s ino" if "spare s x" for x f s
    unfolding leases_def upd_lock_def
    by (rule takeWhile_cong) (use that in_chains_I [of _ s ino] in \<open>auto simp: spare_def\<close>)
  show "locks_ok st'" "\<And>x. spare st x \<Longrightarrow> spare st' x" "\<And>x. r = Inr x \<Longrightarrow> spare st' x" "leases st' ino = leases st ino"
    using run ok a u ff
    by (auto simp: lease_alloc_def Let_def locks_alloc_Some split: option.splits sum.splits)
qed

lemma break_future_progress: "break_future w t = Some future \<Longrightarrow> future AND F_INPROGRESS \<noteq> 0"
  by (auto simp: break_future_def lock_consts split: if_splits)

lemma break_lease_start_ok:
  assumes ok: "locks_ok st" and a: "\<forall>a\<in>set_option alloc. spare st a"
  shows "locks_ok (fst (break_lease_start ino mode files tgid jiffies lease_break_time hz alloc st))"
proof -
  obtain st0 new where al: "lease_alloc alloc None (uint (if mode AND O_ACCMODE \<noteq> O_RDONLY then F_WRLCK else F_RDLCK)) files tgid st
      = (st0, new)" by (cases "lease_alloc alloc None (uint (if mode AND O_ACCMODE \<noteq> O_RDONLY then F_WRLCK else F_RDLCK)) files tgid st")
  define st1 where "st1 = time_out_leases ino jiffies st0"
  note s0 = lease_alloc_ok [OF ok a al]
  have ok1: "locks_ok st1" unfolding st1_def by (rule time_out_leases_ok(1)) (rule s0(1))
  have new: "spare st1 x" if "new = Inr x" for x unfolding st1_def by (rule time_out_leases_ok(2) [OF s0(1) s0(3) [OF that]])
  show ?thesis
  proof (cases "leases st1 ino")
    case Nil
    then show ?thesis using ok1 al by (simp add: break_lease_start_def Let_def st1_def)
  next
    case (Cons f fs)
    have loop: "locks_ok (break_loop future bt (leases st1 ino) st1) \<and>
        (\<not> isl new \<longrightarrow> locks_ok (locks_insert_block f (projr new) (break_loop future bt (leases st1 ino) st1)))"
      if "break_future (mode AND O_ACCMODE \<noteq> O_RDONLY) (fl_type (mem st1 f)) = Some future" for future bt
    proof -
      have l: "\<forall>a\<in>set (leases st1 ino). a \<in> set (i_flock st1 ino) \<and> IS_LEASE (mem st1 a)" using leases_lease by blast
      note sp = break_loop_spec [OF ok1 l break_future_progress [OF that], of bt]
      have f: "f \<in> set (leases st1 ino)" using Cons by simp
      have "spare (break_loop future bt (leases st1 ino) st1) x" if "spare st1 x" for x
        using that sp by (simp add: spare_def in_chains_def)
      then have "locks_ok (locks_insert_block f (projr new) (break_loop future bt (leases st1 ino) st1))" if "\<not> isl new"
        using sp l f new that break_future_progress [OF \<open>_ = Some future\<close>]
        by (intro sleep_on_lease_ok [of _ _ ino]) (auto simp: isl_def split: sum.splits intro: sum.exhaust_sel)
      then show ?thesis using sp by simp
    qed
    then show ?thesis
      using al Cons ok1 by (auto simp: break_lease_start_def Let_def st1_def [symmetric] split: option.split)
  qed
qed

lemma break_lease_resume_ok:
  assumes ok: "locks_ok st" and a: "new \<notin> in_chains st"
  shows "locks_ok (fst (break_lease_resume ino new jiffies error st))"
proof -
  define st0 where "st0 = locks_delete_block new st"
  define st1 where "st1 = (if error = Timed_Out then time_out_leases ino jiffies st0 else st0)"
  have ok0: "locks_ok st0" using unblock_ok [OF ok] by (simp add: st0_def)
  have "spare st0 new" using a by (simp add: st0_def spare_def locks_delete_block_def in_chains_def)
  then have s1: "locks_ok st1" "spare st1 new" using time_out_leases_ok ok0 by (simp_all add: st1_def)
  have "locks_ok (locks_insert_block f new st1)"
    if "find (\<lambda>fl. fl_type (mem st1 fl) AND F_INPROGRESS \<noteq> 0) (leases st1 ino) = Some f" for f
    using that leases_lease [of f st1 ino] s1 by (intro sleep_on_lease_ok [of _ _ ino]) (auto simp: find_Some_iff)
  then show ?thesis
    using s1 ok0 by (cases error) (auto simp: break_lease_resume_def Let_def st0_def [symmetric] st1_def split: option.split)
qed

text \<open>The scan returns the position of one of the leases it has seen.\<close>

lemma setlease_scan_pos:
  "setlease_scan m filp n (p, rd, wr) fls = (Some k, rd', wr') \<Longrightarrow> p = Some k \<or> (n \<le> k \<and> k < n + length fls \<and>
     fl_file (m (fls ! (k - n))) = Some filp)"
proof (induction fls arbitrary: n p rd wr)
  case (Cons f fls)
  from Cons.IH [of "Suc n"] Cons.prems show ?case
    by (fastforce simp: nth_Cons' Suc_diff_Suc split: if_splits)
qed simp

lemma setlease_ok:
  assumes ok: "locks_ok st" and l: "spare st lease" "IS_LEASE (mem st lease)" "\<not> IS_POSIX (mem st lease)"
  shows "locks_ok (fst (setlease_locked ino filp arg lease tgid jiffies wc dc ic en st))"
proof -
  define st1 where "st1 = time_out_leases ino jiffies st"
  have s1: "locks_ok st1" "spare st1 lease" "mem st1 lease = mem st lease"
    using time_out_leases_ok ok l(1) by (simp_all add: st1_def)
  obtain p rd wr where sc: "setlease_scan (mem st1) filp 0 (None, 0, 0) (leases st1 ino) = (p, rd, wr)"
    by (metis prod_cases3)
  have change: "locks_ok st2" if "p = Some k" "fl_change lm ino k arg st1 = Inr st2" for k lm st2
  proof -
    have k: "k < length (leases st1 ino)" using setlease_scan_pos sc that(1) by fastforce
    have "leases st1 ino ! k = i_flock st1 ino ! k" "length (leases st1 ino) \<le> length (i_flock st1 ino)"
      using k by (simp_all add: leases_def takeWhile_nth length_takeWhile_le)
    then have "k < length (i_flock st1 ino)" "IS_LEASE (mem st1 (i_flock st1 ino ! k))"
      using k leases_lease [OF nth_mem [OF k]] by simp_all
    then show ?thesis using lease_modify_ok [OF s1(1)] that(2) by (auto simp: fl_change_def split: if_splits)
  qed
  have new: "locks_ok (locks_insert_lock ino tgid (length (leases st1 ino)) lease st1)"
  proof -
    have "wait_inv (locks_insert_lock ino tgid (length (leases st1 ino)) lease (upd_lock lease id st1))"
      using s1 by (intro wait_inv_new(2)) (simp_all add: locks_ok_def spare_def)
    moreover have "upd_lock lease id st1 = st1" by (simp add: upd_lock_def)
    ultimately show ?thesis using insert_lease_ok [of st1 lease] s1 l by (simp add: locks_ok_def spare_def)
  qed
  show ?thesis
    using s1(1) change new sc
    by (auto simp: setlease_locked_def Let_def st1_def [symmetric] split: option.split sum.split)
qed

section \<open>Reachable states\<close>

definition no_locks :: "lock_state \<Rightarrow> bool" where
  "no_locks st \<longleftrightarrow> (\<forall>ino. i_flock st ino = []) \<and> (\<forall>a. fl_block st a = [] \<and> waits_on st a = None)"

text \<open>
  One operation under the spinlock, by any task. A lock structure is filled in while it is neither
  in a chain nor waiting; \<^verbatim>\<open>flock_lock_file\<close> and \<^verbatim>\<open>__break_lease\<close> are two steps each, because they
  give up the spinlock in between. Requests that are interrupted stop waiting at any time.
\<close>

inductive lock_step :: "lock_state \<Rightarrow> lock_state \<Rightarrow> bool" where
  fill_in: "spare st q \<Longrightarrow> lock_step st (upd_lock q f st)"
| posix: "spare st q \<Longrightarrow> \<forall>a\<in>set_option a1 \<union> set_option a2. spare st a \<Longrightarrow> request_ok st q \<Longrightarrow> fresh_allocs st q a1 a2 \<Longrightarrow>
    lock_step st (fst (posix_lock_file_conf ino tgid q a1 a2 cf st))"
| give_up: "lock_step st (locks_delete_block q st)"
| flock_old: "lock_step st (fst (flock_replace ino filp q st))"
| flock_new: "flock_request st q \<Longrightarrow> spare st q \<Longrightarrow> spare st n \<Longrightarrow>
    lock_step st (fst (flock_find_conflict ino tgid q n st))"
| break_start: "\<forall>a\<in>set_option alloc. spare st a \<Longrightarrow>
    lock_step st (fst (break_lease_start ino mode files tgid jiffies lease_break_time hz alloc st))"
| break_resume: "new \<notin> in_chains st \<Longrightarrow> lock_step st (fst (break_lease_resume ino new jiffies error st))"
| set_lease: "spare st lease \<Longrightarrow> IS_LEASE (mem st lease) \<Longrightarrow> \<not> IS_POSIX (mem st lease) \<Longrightarrow>
    lock_step st (fst (setlease_locked ino filp arg lease tgid jiffies wc dc ic en st))"
| last_close: "locks_remove_flock ino filp st = Some st' \<Longrightarrow> lock_step st st'"

inductive_cases lock_stepE: "lock_step st st'"

lemma no_locks_ok: "no_locks st \<Longrightarrow> locks_ok st"
proof -
  assume n: "no_locks st"
  have l: "inode_locks st i = []" for i using n by (simp add: no_locks_def inode_locks_def)
  have "inode_inv []" by (simp add: inode_inv_def chain_def)
  then have "lock_inv st" using l n by (simp add: lock_inv_def no_locks_def)
  moreover have "held st i = lock_table []" for i using l by (simp add: held_def)
  then have "exclusive st" by (simp add: exclusive_def lock_table_def type_at_def)
  moreover have "whole_file_ok []" by (simp add: whole_file_ok_def flock_excl_def leases_first_def)
  ultimately show ?thesis using l n by (simp add: locks_ok_def chains_ok_def wait_inv_def no_locks_def)
qed

lemma lock_step_ok: "locks_ok st \<Longrightarrow> lock_step st st' \<Longrightarrow> locks_ok st'"
proof (erule lock_stepE)
  assume ok: "locks_ok st"
  show "locks_ok st'" if "st' = upd_lock q f st" "spare st q" for q f using prepare_ok [OF ok that(2)] that(1) by simp
  show "locks_ok st'" if "st' = locks_delete_block q st" for q using unblock_ok [OF ok] that by simp
  show "locks_ok st'" if "st' = fst (flock_replace ino filp q st)" for ino filp q using flock_replace_ok [OF ok] that by simp
  show "locks_ok st'" if "st' = fst (posix_lock_file_conf ino tgid q a1 a2 cf st)" "spare st q"
    "\<forall>a\<in>set_option a1 \<union> set_option a2. spare st a" "request_ok st q" "fresh_allocs st q a1 a2" for q a1 a2 ino tgid cf
    using posix_lock_file_ok [OF ok that(2-5)] that(1) by (metis prod_cases3 fst_conv)
qed (auto simp: locks_remove_flock_def intro: flock_find_conflict_ok break_lease_start_ok break_lease_resume_ok setlease_ok
      remove_flock_loop_ok split: if_splits)

interpretation file_locks: invariant_system no_locks lock_step locks_ok
  by unfold_locales (blast intro: no_locks_ok lock_step_ok)+

section \<open>Deadlock detection\<close>

text \<open>The lock at the end of a number of hops from a lock to the lock its owner waits for.\<close>

fun wait_chain :: "lock_state \<Rightarrow> nat \<Rightarrow> addr \<Rightarrow> addr option" where
  "wait_chain st 0 b = Some b"
| "wait_chain st (Suc n) b = Option.bind (what_owner_is_waiting_for st b) (wait_chain st n)"

lemma wait_chain_pos:
  assumes "0 < n"
  shows "wait_chain st n b = Option.bind (what_owner_is_waiting_for st b) (wait_chain st (n - 1))"
  using assms by (cases n) auto

lemma deadlock_loop_iff:
  "deadlock_loop st c i b \<longleftrightarrow>
   (\<exists>n x. 0 < n \<and> i + n \<le> 11 \<and> wait_chain st n b = Some x \<and> posix_same_owner (mem st c) (mem st x))"
proof (induction st c i b rule: deadlock_loop.induct)
  case (1 st c i b)
  let ?P = "\<lambda>i b n x. 0 < n \<and> i + n \<le> 11 \<and> wait_chain st n b = Some x \<and> posix_same_owner (mem st c) (mem st x)"
  show ?case
  proof (cases "what_owner_is_waiting_for st b")
    case None
    then show ?thesis by (subst deadlock_loop.simps) (auto simp: wait_chain_pos)
  next
    case (Some b')
    show ?thesis
    proof (cases "i > MAX_DEADLK_ITERATIONS \<or> posix_same_owner (mem st c) (mem st b')")
      case True
      have "?P i b 1 b'" if "\<not> i > MAX_DEADLK_ITERATIONS" using that True Some by (simp add: MAX_DEADLK_ITERATIONS_def)
      then show ?thesis
        using True Some by (subst deadlock_loop.simps) (auto simp: MAX_DEADLK_ITERATIONS_def)
    next
      case False
      have "deadlock_loop st c i b = deadlock_loop st c (i + 1) b'" using Some False by (subst deadlock_loop.simps) simp
      also have "\<dots> \<longleftrightarrow> (\<exists>n x. ?P (i + 1) b' n x)" using 1 [OF Some] False by simp
      also have "\<dots> \<longleftrightarrow> (\<exists>n x. ?P i b n x)"
      proof
        assume "\<exists>n x. ?P (i + 1) b' n x"
        then obtain n x where "?P (i + 1) b' n x" by blast
        then have "?P i b (Suc n) x" using Some by simp
        then show "\<exists>n x. ?P i b n x" by blast
      next
        assume "\<exists>n x. ?P i b n x"
        then obtain n x where n: "?P i b n x" by blast
        then have c: "wait_chain st (n - 1) b' = Some x" using Some wait_chain_pos [of n st b] by simp
        have "n - 1 \<noteq> 0"
        proof
          assume "n - 1 = 0"
          then have "x = b'" using c by simp
          then show False using n False by simp
        qed
        then have "?P (i + 1) b' (n - 1) x" using n c by auto
        then show "\<exists>n x. ?P (i + 1) b' n x" by blast
      qed
      finally show ?thesis .
    qed
  qed
qed

text \<open>Owners that lock one file each and then all want the file of the next.\<close>

definition want_file :: "addr \<Rightarrow> addr option \<Rightarrow> nat \<Rightarrow> inode_nr \<Rightarrow> lock_state \<times> lock_result list \<Rightarrow>
    lock_state \<times> lock_result list" where
  "want_file q alloc i ino = (\<lambda>(st, results).
     let (st, res) = posix_lock_file ino 0 q alloc None (upd_lock q (\<lambda>_. range_lock i F_WRLCK 0 OFFSET_MAX) st)
     in (st, results @ [res]))"

definition ring :: "nat \<Rightarrow> lock_state \<times> lock_result list" where
  "ring n = fold (\<lambda>i. want_file (n + i + 1) None ((i + 1) mod n) ((i + 2) mod n)) [0..<n]
     (fold (\<lambda>i. want_file 0 (Some (i + 1)) i i) [0..<n] (empty_locks, []))"

section \<open>Every reachable state\<close>

text \<open>The first lock of a file is a copy of the request.\<close>

lemma first_lock:
  assumes "i_flock st ino = []" "r = mem st q" "fl_type r \<noteq> F_UNLCK" "\<not> has_flag r FL_ACCESS" "a \<noteq> q"
  shows "posix_lock_file_conf ino tgid q (Some a) None cf st =
    (locks_insert_lock ino tgid 0 a (upd_lock a (\<lambda>l. locks_copy_lock l r) (upd_lock a (\<lambda>_. locks_init_lock_always) st)),
     cf, Lock_Ok)"
  using assms
  by (simp add: posix_lock_file_conf_def Let_def locks_alloc_Some locks_alloc_lock_def [of None] posix_conflict_def lock_frame
      posix_owner_loop.simps posix_apply_def posix_split_def)

definition locked_state :: "file_lock \<Rightarrow> lock_state" where
  "locked_state r = fst (posix_lock_file_conf 0 0 4 (Some 7) None None (upd_lock 4 (\<lambda>_. r) empty_locks))"

definition waiting_state :: lock_state where
  "waiting_state = fst (posix_lock_file_conf 0 0 8 None None None
     (upd_lock 8 (\<lambda>_. range_lock 4 F_RDLCK 5 20) (locked_state (range_lock 3 F_WRLCK 0 9))))"

lemma lock_types: "F_WRLCK \<noteq> F_UNLCK" "F_RDLCK \<noteq> F_UNLCK" "F_RDLCK \<noteq> F_WRLCK"
  by (simp_all add: lock_consts)

lemma empty_facts: "in_chains empty_locks = {}" "waits_on empty_locks = (\<lambda>_. None)" "i_flock empty_locks = (\<lambda>_. [])"
  "fl_block empty_locks = (\<lambda>_. [])"
  by (simp_all add: empty_locks_def in_chains_def)

lemma locked_state_facts:
  assumes "fl_type r \<noteq> F_UNLCK" "\<not> has_flag r FL_ACCESS"
  shows "i_flock (locked_state r) = (\<lambda>_. [])(0 := [7])" "waits_on (locked_state r) = (\<lambda>_. None)"
    "in_chains (locked_state r) = {7}" "mem (locked_state r) 7 = (locks_copy_lock locks_init_lock_always r)\<lparr>fl_nspid := Some 0\<rparr>"
proof -
  have e: "locked_state r = locks_insert_lock 0 0 0 7 (upd_lock 7 (\<lambda>l. locks_copy_lock l r)
      (upd_lock 7 (\<lambda>_. locks_init_lock_always) (upd_lock 4 (\<lambda>_. r) empty_locks)))"
    unfolding locked_state_def
    by (subst first_lock) (use assms in \<open>simp_all add: lock_frame empty_facts\<close>)
  show "i_flock (locked_state r) = (\<lambda>_. [])(0 := [7])" "waits_on (locked_state r) = (\<lambda>_. None)"
    "in_chains (locked_state r) = {7}" "mem (locked_state r) 7 = (locks_copy_lock locks_init_lock_always r)\<lparr>fl_nspid := Some 0\<rparr>"
    by (simp_all add: e lock_frame wait_frame in_chains_insert empty_facts insert_at_def)
qed

lemma request_steps:
  assumes r: "reachable no_locks lock_step st" and q: "spare st q" and rq: "IS_POSIX r" "owner_ok r" "range_ok r"
    "fl_type r \<in> {F_RDLCK, F_WRLCK, F_UNLCK}" and a: "\<forall>a\<in>set_option al. spare st a \<and> a \<noteq> q"
  shows "reachable no_locks lock_step (fst (posix_lock_file_conf ino tgid q al None cf (upd_lock q (\<lambda>_. r) st)))"
proof -
  let ?st = "upd_lock q (\<lambda>_. r) st"
  have s: "spare ?st b = spare st b" for b by (simp add: spare_def wait_frame)
  have "reachable no_locks lock_step ?st" by (rule reach_step [OF r lock_step.fill_in [OF q]])
  moreover have "lock_step ?st (fst (posix_lock_file_conf ino tgid q al None cf ?st))"
    by (rule lock_step.posix) (use q a rq s in \<open>auto simp: request_ok_def fresh_allocs_def lock_frame wait_frame spare_def\<close>)
  ultimately show ?thesis by (rule reach_step)
qed

lemma locked_state_reachable:
  assumes "IS_POSIX r" "owner_ok r" "range_ok r" "fl_type r \<in> {F_RDLCK, F_WRLCK, F_UNLCK}"
  shows "reachable no_locks lock_step (locked_state r)"
  unfolding locked_state_def
proof (rule request_steps [OF _ _ assms])
  show "reachable no_locks lock_step empty_locks" by (rule reach_start) (simp add: no_locks_def empty_facts)
qed (simp_all add: spare_def empty_facts)

lemma waiting_state_reachable: "reachable no_locks lock_step waiting_state"
  unfolding waiting_state_def
proof (rule request_steps)
  show "reachable no_locks lock_step (locked_state (range_lock 3 F_WRLCK 0 9))"
    by (rule locked_state_reachable) (simp_all add: range_ok_def OFFSET_MAX_def)
  show "spare (locked_state (range_lock 3 F_WRLCK 0 9)) 8"
    by (simp add: spare_def locked_state_facts lock_types)
qed (simp_all add: range_ok_def OFFSET_MAX_def)

text \<open>
  C2: Mutual exclusion, in every state that any interleaving of lock calls, waiting requests,
  leases and closes can reach: while one owner has a byte write-locked no other owner has any lock
  on it, and no two whole-file locks of one file conflict.
\<close>

theorem file_locks_exclude:
  assumes "reachable no_locks lock_step st"
  shows "(held st ino o1 b = Some F_WRLCK \<and> o1 \<noteq> o2 \<longrightarrow> held st ino o2 b = None) \<and>
    sorted_wrt flock_compatible (filter whole_file (inode_locks st ino))"
  using file_locks.reachable_inv [OF assms]
  unfolding locks_ok_def chains_ok_def exclusive_def whole_file_ok_def flock_excl_def by blast

theorem file_locks_exclude_witness:
  "held (locked_state (range_lock 3 F_WRLCK 0 9)) 0 (Files 3, 0) 5 = Some F_WRLCK \<and>
   held (locked_state (range_lock 3 F_WRLCK 0 9)) 0 (Files 4, 0) 5 = None"
proof -
  let ?st = "locked_state (range_lock 3 F_WRLCK 0 9)"
  have r: "reachable no_locks lock_step ?st"
    by (rule locked_state_reachable) (simp_all add: range_ok_def OFFSET_MAX_def)
  have "held ?st 0 (Files 3, 0) 5 = Some F_WRLCK" by code_simp
  then show ?thesis using file_locks_exclude [OF r, of 0 "(Files 3, 0)" 5 "(Files 4, 0)"] by simp
qed

text \<open>
  C19: In every reachable state every lock chain is well-formed: leases come first, then whole-file
  locks, then byte-range locks; every byte-range lock has a valid type and range; the locks of one
  owner are adjacent, sorted and disjoint, and neighbours of the same type do not touch; no
  structure is in two places.
\<close>

theorem file_lock_chains_well_formed:
  assumes "reachable no_locks lock_step st"
  shows "inode_inv (inode_locks st ino) \<and> leases_first (inode_locks st ino) \<and> distinct (i_flock st ino) \<and>
    (\<forall>f\<in>set (inode_locks st ino). posix_ok f \<or> IS_LEASE f \<or> IS_FLOCK f) \<and>
    (\<forall>j. j \<noteq> ino \<longrightarrow> set (i_flock st ino) \<inter> set (i_flock st j) = {})"
proof -
  have ok: "locks_ok st" by (rule file_locks.reachable_inv [OF assms])
  then have "posix_ok f \<or> IS_LEASE f \<or> IS_FLOCK f" if "f \<in> set (inode_locks st ino)" for f
    using that unfolding locks_ok_def chains_ok_def lock_inv_def inode_inv_def whole_file_ok_def whole_file_def by blast
  then show ?thesis using ok unfolding locks_ok_def chains_ok_def lock_inv_def whole_file_ok_def by blast
qed

theorem file_lock_chains_well_formed_witness:
  "inode_inv (inode_locks waiting_state 0) \<and> distinct (i_flock waiting_state 0) \<and> i_flock waiting_state 0 = [7]"
proof -
  have "i_flock waiting_state 0 = [7]" by code_simp
  then show ?thesis using file_lock_chains_well_formed [OF waiting_state_reachable, of 0] by simp
qed

text \<open>
  C9: No request sleeps for nothing. In every reachable state a blocked request waits for a lock
  that is still in a chain and still stands in its way: a byte-range or whole-file lock that
  conflicts with it, or a lease that is being broken. So whenever a lock is released, shrunk or
  downgraded, all requests that it no longer excludes have been woken.
\<close>

theorem waiting_requests_blocked:
  assumes "reachable no_locks lock_step st" "waits_on st w = Some a"
  shows "w \<in> set (fl_block st a) \<and> (\<exists>ino. a \<in> set (i_flock st ino)) \<and> (\<forall>ino. w \<notin> set (i_flock st ino)) \<and>
    blocks_on (mem st w) (mem st a)"
  using file_locks.reachable_inv [OF assms(1)] assms(2)
  by (auto simp: locks_ok_def wait_inv_def in_chains_def)

theorem waiting_requests_blocked_witness:
  "waits_on waiting_state 8 = Some 7 \<and> 8 \<in> set (fl_block waiting_state 7) \<and>
   blocks_on (mem waiting_state 8) (mem waiting_state 7)"
proof -
  have "waits_on waiting_state 8 = Some 7" by code_simp
  then show ?thesis using waiting_requests_blocked [OF waiting_state_reachable] by blast
qed

text \<open>
  C36: \<^verbatim>\<open>posix_locks_deadlock\<close> reports a deadlock exactly when following the waiting owners from the
  blocking lock leads, in one to eleven hops, to a lock of the caller. So \<^verbatim>\<open>EDEADLK\<close> is never
  returned without such a cycle, and every cycle of up to twelve owners is found.
\<close>

theorem posix_locks_deadlock_exact:
  "posix_locks_deadlock st caller_fl block_fl \<longleftrightarrow>
   (\<exists>n x. 1 \<le> n \<and> n \<le> 11 \<and> wait_chain st n block_fl = Some x \<and> posix_same_owner (mem st caller_fl) (mem st x))"
  unfolding posix_locks_deadlock_def deadlock_loop_iff by (simp add: Suc_le_eq)

text \<open>
  The comment above the function says that there is never a cycle of waiting owners. A ring of
  thirteen owners is one: every request is put to sleep, each waiting for the lock of the next owner.
\<close>

theorem deadlock_ring_not_detected:
  "case ring 13 of (st, results) \<Rightarrow>
     results = replicate 13 Lock_Ok @ replicate 13 FILE_LOCK_DEFERRED \<and>
     map (waits_on st) [14..<27] = map (\<lambda>i. Some ((i + 2) mod 13 + 1)) [0..<13]"
  by code_simp

text \<open>The leases of a chain are those at its front.\<close>

lemma leases_all:
  assumes "locks_ok st" "a \<in> set (i_flock st ino)" "IS_LEASE (mem st a)"
  shows "a \<in> set (leases st ino)"
proof -
  let ?P = "\<lambda>fl. IS_LEASE (mem st fl)"
  have f: "leases_first (map (mem st) (i_flock st ino))"
    using assms(1) by (simp add: locks_ok_def chains_ok_def whole_file_ok_def inode_locks_def)
  have "leases_first (map (mem st) fls) \<Longrightarrow> a \<in> set fls \<Longrightarrow> a \<in> set (takeWhile ?P fls)" for fls
    by (induction fls) (use assms(3) in \<open>auto simp: leases_first_def\<close>)
  then show ?thesis using f assms(2) by (simp add: leases_def)
qed

lemma break_start_revokes:
  assumes ok: "locks_ok st" and w: "mode AND O_ACCMODE \<noteq> O_RDONLY" and a: "\<forall>a\<in>set_option alloc. spare st a"
    and run: "break_lease_start ino mode files tgid jiffies lease_break_time hz alloc st = (st', out)"
  shows "(out = Break_Done (Inr u) \<longrightarrow> (\<forall>a\<in>set (i_flock st' ino). \<not> IS_LEASE (mem st' a))) \<and>
    (out \<noteq> Break_Done (Inr u) \<longrightarrow> out = Break_Done (Inl ENOMEM) \<and> alloc = None \<and> mode AND O_NONBLOCK = 0 \<or>
      out \<in> {Break_Done (Inl EAGAIN), Break_Sleeps} \<and>
      (\<forall>a\<in>set (i_flock st' ino). IS_LEASE (mem st' a) \<longrightarrow> fl_type (mem st' a) = F_UNLCK OR F_INPROGRESS))"
proof -
  let ?fut = "F_UNLCK OR F_INPROGRESS"
  obtain st0 new where al: "lease_alloc alloc None (uint F_WRLCK) files tgid st = (st0, new)"
    by (cases "lease_alloc alloc None (uint F_WRLCK) files tgid st")
  define st1 where "st1 = time_out_leases ino jiffies st0"
  have ok1: "locks_ok st1" unfolding st1_def by (rule time_out_leases_ok(1) [OF lease_alloc_ok(1) [OF ok a al]])
  have fut: "?fut AND F_INPROGRESS \<noteq> 0" "break_future True t = Some ?fut" for t
    by (simp_all add: lock_consts break_future_def)
  have l: "\<forall>a\<in>set (leases st1 ino). a \<in> set (i_flock st1 ino) \<and> IS_LEASE (mem st1 a)" using leases_lease by blast
  note sp = break_loop_spec [OF ok1 l fut(1)]
  have broken: "fl_type (mem (break_loop ?fut bt (leases st1 ino) st1) a) = ?fut"
    if "a \<in> set (i_flock (break_loop ?fut bt (leases st1 ino) st1) ino)" "IS_LEASE (mem (break_loop ?fut bt (leases st1 ino) st1) a)"
    for a bt using leases_all [OF ok1, of a ino] that sp [of bt] by simp
  have enomem: "new = Inl e \<Longrightarrow> e = ENOMEM \<and> alloc = None" for e
    using al by (auto simp: lease_alloc_def lease_init_def assign_type_def Let_def split: option.splits)
  show ?thesis
  proof (cases "leases st1 ino")
    case Nil
    then have "st' = st1" "out = Break_Done (Inr ())" using run al w by (simp_all add: break_lease_start_def Let_def st1_def)
    then show ?thesis using Nil leases_all [OF ok1, of _ ino] by auto
  next
    case (Cons f fs)
    then show ?thesis
      using run al w broken enomem
      by (auto simp: break_lease_start_def Let_def fut(2) locks_insert_block_def isl_def projl_def
          simp flip: st1_def split: if_splits sum.splits)
  qed
qed

lemma break_resume_done:
  assumes ok: "locks_ok st" and new: "new \<notin> in_chains st"
    and run: "break_lease_resume ino new jiffies error st = (st', Break_Done (Inr u))"
    and a: "a \<in> set (i_flock st' ino)" "IS_LEASE (mem st' a)"
  shows "fl_type (mem st' a) AND F_INPROGRESS = 0"
proof -
  have ok': "locks_ok st'" using break_lease_resume_ok [OF ok new, of ino jiffies error] run by simp
  have "find (\<lambda>fl. fl_type (mem st' fl) AND F_INPROGRESS \<noteq> 0) (leases st' ino) = None"
    using run by (cases error) (auto simp: break_lease_resume_def Let_def split: option.splits)
  then show ?thesis using leases_all [OF ok' a] by (simp add: find_None_iff)
qed

lemma break_resume_sleeps:
  assumes run: "break_lease_resume ino new jiffies error st = (st', Break_Sleeps)"
  shows "\<exists>fl\<in>set (i_flock st' ino). waits_on st' new = Some fl \<and> IS_LEASE (mem st' fl) \<and> fl_type (mem st' fl) AND F_INPROGRESS \<noteq> 0"
proof -
  obtain st1 fl where "find (\<lambda>fl. fl_type (mem st1 fl) AND F_INPROGRESS \<noteq> 0) (leases st1 ino) = Some fl"
      "st' = locks_insert_block fl new st1"
    using run by (cases error) (auto simp: break_lease_resume_def Let_def split: option.splits)
  then show ?thesis
    using leases_lease [of fl st1 ino] by (auto simp: find_Some_iff locks_insert_block_def)
qed

text \<open>
  C22: Opening a file for writing revokes every lease on it. In any reachable state, when
  \<^verbatim>\<open>__break_lease\<close> succeeds at once there is no lease on the file; when it sleeps or returns
  \<^verbatim>\<open>EWOULDBLOCK\<close> all leases of the file are being broken with the target \<^verbatim>\<open>F_UNLCK\<close>; the only other
  result is \<^verbatim>\<open>ENOMEM\<close>, for a blocking call whose own structure could not be allocated. A call that
  wakes up and sleeps again waits for a lease of the file that is still being broken, and one that
  wakes up and succeeds leaves no such lease.
\<close>

theorem break_lease_revokes:
  assumes "reachable no_locks lock_step st" "mode AND O_ACCMODE \<noteq> O_RDONLY" "\<forall>a\<in>set_option alloc. spare st a"
  shows "(case break_lease_start ino mode files tgid jiffies lease_break_time hz alloc st of
      (st', Break_Done (Inr u)) \<Rightarrow> \<forall>a\<in>set (i_flock st' ino). \<not> IS_LEASE (mem st' a)
    | (st', Break_Done (Inl e)) \<Rightarrow> e = ENOMEM \<and> alloc = None \<and> mode AND O_NONBLOCK = 0 \<or> e = EAGAIN \<and>
        (\<forall>a\<in>set (i_flock st' ino). IS_LEASE (mem st' a) \<longrightarrow> fl_type (mem st' a) = F_UNLCK OR F_INPROGRESS)
    | (st', Break_Sleeps) \<Rightarrow>
        \<forall>a\<in>set (i_flock st' ino). IS_LEASE (mem st' a) \<longrightarrow> fl_type (mem st' a) = F_UNLCK OR F_INPROGRESS) \<and>
    (new \<notin> in_chains st \<longrightarrow>
      (case break_lease_resume ino new jiffies error st of
         (st', Break_Done (Inr u)) \<Rightarrow>
           \<forall>a\<in>set (i_flock st' ino). IS_LEASE (mem st' a) \<longrightarrow> fl_type (mem st' a) AND F_INPROGRESS = 0
       | (st', Break_Done (Inl e)) \<Rightarrow> error = Interrupted e
       | (st', Break_Sleeps) \<Rightarrow> \<exists>fl\<in>set (i_flock st' ino). waits_on st' new = Some fl \<and> IS_LEASE (mem st' fl) \<and>
           fl_type (mem st' fl) AND F_INPROGRESS \<noteq> 0))"
proof -
  have ok: "locks_ok st" by (rule file_locks.reachable_inv [OF assms(1)])
  have int: "error = Interrupted e" if "break_lease_resume ino new jiffies error st = (st', Break_Done (Inl e))" for st' e
    using that by (auto simp: break_lease_resume_def Let_def split: wait_result.splits option.splits)
  have start: "case break_lease_start ino mode files tgid jiffies lease_break_time hz alloc st of
      (st', Break_Done (Inr u)) \<Rightarrow> \<forall>a\<in>set (i_flock st' ino). \<not> IS_LEASE (mem st' a)
    | (st', Break_Done (Inl e)) \<Rightarrow> e = ENOMEM \<and> alloc = None \<and> mode AND O_NONBLOCK = 0 \<or> e = EAGAIN \<and>
        (\<forall>a\<in>set (i_flock st' ino). IS_LEASE (mem st' a) \<longrightarrow> fl_type (mem st' a) = F_UNLCK OR F_INPROGRESS)
    | (st', Break_Sleeps) \<Rightarrow>
        \<forall>a\<in>set (i_flock st' ino). IS_LEASE (mem st' a) \<longrightarrow> fl_type (mem st' a) = F_UNLCK OR F_INPROGRESS"
    using break_start_revokes [OF ok assms(2,3), of ino files tgid jiffies lease_break_time hz]
    by (fastforce split: prod.split break_outcome.split sum.split)
  show ?thesis
    using start break_resume_done [OF ok, of new ino jiffies error] break_resume_sleeps [of ino new jiffies error st] int
    by (fastforce split: prod.split break_outcome.split sum.split)
qed

definition lease_of :: "nat \<Rightarrow> u8 \<Rightarrow> file_lock" where
  "lease_of i type = locks_init_lock_always\<lparr>fl_owner := Files i, fl_flags := FL_LEASE, fl_type := type, fl_file := Some i,
     fl_end := OFFSET_MAX, fl_lmops := Some lease_manager_ops\<rparr>"

definition leased_state :: lock_state where
  "leased_state = fst (setlease_locked 0 3 F_RDLCK 4 0 0 0 1 1 True (upd_lock 4 (\<lambda>_. lease_of 3 F_RDLCK) empty_locks))"

lemma leased_state_facts: "in_chains leased_state = {4}" "waits_on leased_state = (\<lambda>_. None)"
  "reachable no_locks lock_step leased_state"
proof -
  let ?st = "upd_lock 4 (\<lambda>_. lease_of 3 F_RDLCK) empty_locks"
  have e: "leased_state = locks_insert_lock 0 0 0 4 ?st"
    by (simp add: leased_state_def setlease_locked_def time_out_leases_def time_out_loop.simps leases_def lock_frame empty_facts
        lock_types)
  show "in_chains leased_state = {4}" "waits_on leased_state = (\<lambda>_. None)"
    by (simp_all add: e in_chains_insert wait_frame empty_facts)
  have "no_locks empty_locks" by (simp add: no_locks_def empty_facts)
  then have "reachable no_locks lock_step empty_locks" by (rule reach_start)
  then have r: "reachable no_locks lock_step ?st"
    by (rule reach_step [of no_locks lock_step empty_locks, OF _ lock_step.fill_in]) (simp add: spare_def empty_facts)
  have k: "IS_LEASE (lease_of 3 F_RDLCK)" "\<not> IS_POSIX (lease_of 3 F_RDLCK)"
    by (simp_all add: lease_of_def IS_LEASE_def IS_POSIX_def lock_consts)
  show "reachable no_locks lock_step leased_state"
    unfolding leased_state_def
    by (rule reach_step [of no_locks lock_step, OF r lock_step.set_lease]) (simp_all add: spare_def wait_frame empty_facts lock_frame k)
qed

theorem break_lease_revokes_witness:
  "snd (break_lease_start 0 1 (Files 4) 0 100 45 100 (Some 9) leased_state) = Break_Sleeps \<and>
   fl_type (mem (fst (break_lease_start 0 1 (Files 4) 0 100 45 100 (Some 9) leased_state)) 4) = F_UNLCK OR F_INPROGRESS"
proof -
  let ?run = "break_lease_start 0 1 (Files 4) 0 100 45 100 (Some 9) leased_state"
  have res: "snd ?run = Break_Sleeps" "i_flock (fst ?run) 0 = [4]" "IS_LEASE (mem (fst ?run) 4)" by code_simp+
  have m: "(1 :: u32) AND O_ACCMODE \<noteq> O_RDONLY" by (simp add: O_ACCMODE_def O_RDONLY_def)
  have a: "\<forall>a\<in>set_option (Some 9). spare leased_state a" by (simp add: spare_def leased_state_facts)
  obtain st' where run: "?run = (st', Break_Sleeps)" using res(1) by (metis prod.collapse)
  have "\<forall>a\<in>set (i_flock st' 0). IS_LEASE (mem st' a) \<longrightarrow> fl_type (mem st' a) = F_UNLCK OR F_INPROGRESS"
    using break_lease_revokes [OF leased_state_facts(3) m a, of 0 "Files 4" 0 100 45 100] unfolding run by simp
  then show ?thesis using res unfolding run by simp
qed

section \<open>Replacing a whole-file lock\<close>

text \<open>A call of \<^verbatim>\<open>flock_lock_file\<close> is a sequence of steps of the system, those of other tasks included.\<close>

lemma flock_lock_file_steps:
  assumes ok: "locks_ok st" and q: "flock_request st q" "spare st q" and n: "spare st n" "n \<noteq> q"
    and yield: "\<And>s. spare s q \<Longrightarrow> spare s n \<Longrightarrow> lock_step\<^sup>*\<^sup>* s (yield s) \<and> spare (yield s) q \<and> spare (yield s) n \<and>
      mem (yield s) q = mem s q"
  shows "lock_step\<^sup>*\<^sup>* st (fst (flock_lock_file ino tgid filp q (Some n) yield st))"
proof -
  let ?r = "mem st q"
  let ?need = "\<not> has_flag ?r FL_ACCESS \<and> fl_type ?r \<noteq> F_UNLCK"
  define st0 where "st0 = locks_alloc_lock (if ?need then Some n else None) st"
  have st0: "lock_step\<^sup>*\<^sup>* st st0" "locks_ok st0"
    using lock_step.fill_in [OF n(1)] ok prepare_ok [OF ok n(1)]
    by (auto simp: st0_def locks_alloc_Some locks_alloc_lock_def [of None] simp del: if_split split: if_split_asm if_split)
  have st0': "spare st0 q" "spare st0 n" "mem st0 q = ?r"
    using q n by (simp_all add: st0_def locks_alloc_Some locks_alloc_lock_def [of None] lock_frame spare_def wait_frame)
  have find: "lock_step s (fst (flock_find_conflict ino tgid q n s))" if "spare s q" "spare s n" "mem s q = ?r" for s
    by (rule lock_step.flock_new) (use that q(1) in \<open>simp_all add: flock_request_def spare_def\<close>)
  have access: "flock_find_conflict ino tgid q 0 st0 = flock_find_conflict ino tgid q n st0" if "has_flag ?r FL_ACCESS"
    using that st0'(3) by (simp add: flock_find_conflict_def Let_def split: option.split)
  obtain st1 res where rep: "flock_replace ino filp q st0 = (st1, res)" by (metis surj_pair)
  have st1: "lock_step st0 st1" using lock_step.flock_old [of st0 ino filp q] rep by simp
  have keep: "spare st1 a \<and> mem st1 a = mem st0 a" if "spare st0 a" for a
  proof (cases "flock_old (mem st0) filp 0 (i_flock st0 ino)")
    case (Some k)
    have k: "k < length (i_flock st0 ino)" using flock_old_Some [OF Some] by simp
    have "a \<noteq> i_flock st0 ino ! k" using that in_chains_I [OF nth_mem [OF k]] by (auto simp: spare_def)
    moreover have "spare (locks_delete_lock ino k st0) a"
      using idle_calm [OF calm_delete [OF _ k] in_chains_delete(1) [OF k] that] st0(2) by (simp add: locks_ok_def)
    ultimately show ?thesis using that rep Some by (auto simp: flock_replace_def Let_def lock_frame split: if_splits)
  qed (use that rep in \<open>simp add: flock_replace_def Let_def\<close>)
  define st2 where "st2 = (if flock_old (mem st0) filp 0 (i_flock st0 ino) \<noteq> None then yield st1 else st1)"
  have st2: "lock_step\<^sup>*\<^sup>* st1 st2" "spare st2 q" "spare st2 n" "mem st2 q = ?r"
    using yield [of st1] keep [of q] keep [of n] st0' by (simp_all add: st2_def)
  have flock: "flock_lock_file ino tgid filp q (Some n) yield st =
      (if has_flag ?r FL_ACCESS then flock_find_conflict ino tgid q n st0
       else case res of Some r \<Rightarrow> (st1, r) | None \<Rightarrow> flock_find_conflict ino tgid q n st2)"
    unfolding flock_lock_file_def Let_def st0_def [symmetric] using access rep by (simp add: st2_def split: option.split)
  have "lock_step\<^sup>*\<^sup>* st (fst (flock_find_conflict ino tgid q n st0))"
    using st0(1) find [OF st0'] by (rule rtranclp.rtrancl_into_rtrancl)
  moreover have s1: "lock_step\<^sup>*\<^sup>* st st1" using st0(1) st1 by (rule rtranclp.rtrancl_into_rtrancl)
  moreover have "lock_step\<^sup>*\<^sup>* st (fst (flock_find_conflict ino tgid q n st2))"
    using rtranclp_trans [OF s1 st2(1)] find [OF st2(2-4)] by (rule rtranclp.rtrancl_into_rtrancl)
  ultimately show ?thesis unfolding flock by (simp split: option.split)
qed

text \<open>
  While \<^verbatim>\<open>flock_lock_file\<close> has the spinlock released between removing the old lock of an open file
  and inserting the new one, another task that shares the open file can insert a lock. The first
  task does not see a conflict, because the locks have the same file, and the file ends up with two
  locks. Unlocking removes only one of them and reports success.
\<close>

definition flock_of :: "lock_file \<Rightarrow> u8 \<Rightarrow> file_lock" where
  "flock_of filp type = locks_init_lock_always\<lparr>fl_flags := FL_FLOCK, fl_type := type, fl_file := Some filp, fl_end := OFFSET_MAX\<rparr>"

definition flock_call :: "u8 \<Rightarrow> addr \<Rightarrow> (lock_state \<Rightarrow> lock_state) \<Rightarrow> lock_state \<Rightarrow> lock_state \<times> lock_result" where
  "flock_call type q yield st = flock_lock_file 0 0 1 q (Some (q + 1)) yield (upd_lock q (\<lambda>_. flock_of 1 type) st)"

theorem flock_conversion_race:
  "let st = fst (flock_call F_RDLCK 0 id empty_locks);
       st = fst (flock_call F_WRLCK 2 (\<lambda>st. fst (flock_call F_RDLCK 4 id st)) st);
       (st', res) = flock_call F_UNLCK 6 id st
   in map (\<lambda>a. fl_type (mem st a)) (i_flock st 0) = [F_RDLCK, F_WRLCK] \<and> res = Lock_Ok \<and>
      map (\<lambda>a. fl_type (mem st' a)) (i_flock st' 0) = [F_WRLCK]"
  by code_simp

end
