(* ===== verification/Lock_Syscalls.thy ===== *)
theory Lock_Syscalls
  imports Lock_System Vfs_Permission
begin

text \<open>
  The system calls on file locks: the conversions between the structures of user space and lock
  ranges, \<^verbatim>\<open>fcntl\<close> get and set calls in their 32-bit and 64-bit forms, \<^verbatim>\<open>flock\<close>, mandatory locking, the
  checks for the NFS server, and setting leases, which asks for the capability \<^verbatim>\<open>CAP_LEASE\<close> of
  \<open>Commoncap\<close>. The machine is 32 bits wide: \<^verbatim>\<open>off_t\<close> and \<^verbatim>\<open>size_t\<close> have 32 bits, \<^verbatim>\<open>loff_t\<close> has 64.
\<close>

section \<open>Ranges of user space\<close>

text \<open>
  The structures of \<^verbatim>\<open>fcntl\<close> on a 32-bit machine. Offsets are the words of the C types \<^verbatim>\<open>off_t\<close> and
  \<^verbatim>\<open>loff_t\<close>, read as signed; the kernel is compiled so that their arithmetic wraps.
\<close>

record flock =
  l_type :: u16
  l_whence :: u16
  l_start :: u32
  l_len :: u32
  l_pid :: u32

record flock64 =
  l64_type :: u16
  l64_whence :: u16
  l64_start :: u64
  l64_len :: u64
  l64_pid :: u32

text \<open>An open file with what the lock calls read of it and of its inode.\<close>

record open_file =
  f_id :: lock_file
  f_inode :: inode_nr
  f_pos :: u64
  f_mode :: u32
  f_flags :: u32
  f_isize :: u64

definition SEEK_SET :: u16 where "SEEK_SET = 0"
definition SEEK_CUR :: u16 where "SEEK_CUR = 1"
definition SEEK_END :: u16 where "SEEK_END = 2"
definition FMODE_READ :: u32 where "FMODE_READ = 1"
definition FMODE_WRITE :: u32 where "FMODE_WRITE = 2"

definition seek_base :: "open_file \<Rightarrow> u16 \<Rightarrow> u64 result" where
  "seek_base filp whence =
     (if whence = SEEK_SET then Inr 0
      else if whence = SEEK_CUR then Inr (f_pos filp)
      else if whence = SEEK_END then Inr (f_isize filp)
      else Inl EINVAL)"

text \<open>The last part of both conversions: fill in the owner and check the type.\<close>

definition posix_fields :: "open_file \<Rightarrow> fl_owner_t \<Rightarrow> u32 \<Rightarrow> u16 \<Rightarrow> file_lock \<Rightarrow> file_lock result" where
  "posix_fields filp files tgid type fl =
     assign_type (fl\<lparr>fl_owner := files, fl_pid := tgid, fl_file := Some (f_id filp), fl_flags := FL_POSIX,
       fl_lmops := None\<rparr>) (sint type)"

text \<open>The range of a request whose absolute start is known.\<close>

definition flock_range :: "u32 \<Rightarrow> u32 \<Rightarrow> (int \<times> int) result" where
  "flock_range start len =
     (if start <s 0 then Inl EINVAL
      else if 0 <s len then Inr (sint start, sint (start + len - 1))
      else if len <s 0 then if start + len <s 0 then Inl EINVAL else Inr (sint (start + len), sint (start - 1))
      else Inr (sint start, OFFSET_MAX))"

definition flock_to_posix_lock :: "open_file \<Rightarrow> fl_owner_t \<Rightarrow> u32 \<Rightarrow> file_lock \<Rightarrow> flock \<Rightarrow> file_lock result" where
  "flock_to_posix_lock filp files tgid fl l =
     (case seek_base filp (l_whence l) of
        Inl e \<Rightarrow> Inl e
      | Inr base \<Rightarrow>
          (case flock_range ((ucast base :: u32) + l_start l) (l_len l) of
             Inl e \<Rightarrow> Inl e
           | Inr (start, end') \<Rightarrow>
               if end' < start then Inl EOVERFLOW
               else posix_fields filp files tgid (l_type l) (fl\<lparr>fl_start := start, fl_end := end'\<rparr>)))"

definition flock64_range :: "u64 \<Rightarrow> u64 \<Rightarrow> (int \<times> int) result" where
  "flock64_range start len =
     (if start <s 0 then Inl EINVAL
      else if 0 <s len then Inr (sint start, sint (start + len - 1))
      else if len <s 0 then if start + len <s 0 then Inl EINVAL else Inr (sint (start + len), sint (start - 1))
      else Inr (sint start, OFFSET_MAX))"

definition flock64_to_posix_lock :: "open_file \<Rightarrow> fl_owner_t \<Rightarrow> u32 \<Rightarrow> file_lock \<Rightarrow> flock64 \<Rightarrow> file_lock result" where
  "flock64_to_posix_lock filp files tgid fl l =
     (case seek_base filp (l64_whence l) of
        Inl e \<Rightarrow> Inl e
      | Inr base \<Rightarrow>
          (case flock64_range (base + l64_start l) (l64_len l) of
             Inl e \<Rightarrow> Inl e
           | Inr (start, end') \<Rightarrow>
               if end' < start then Inl EOVERFLOW
               else posix_fields filp files tgid (l64_type l) (fl\<lparr>fl_start := start, fl_end := end'\<rparr>)))"

definition posix_lock_to_flock :: "flock \<Rightarrow> file_lock \<Rightarrow> flock result" where
  "posix_lock_to_flock flock fl =
     (if fl_start fl > OFFT_OFFSET_MAX then Inl EOVERFLOW
      else if fl_end fl \<noteq> OFFSET_MAX \<and> fl_end fl > OFFT_OFFSET_MAX then Inl EOVERFLOW
      else Inr (flock\<lparr>l_pid := fl_pid fl, l_start := of_int (fl_start fl),
        l_len := (if fl_end fl = OFFSET_MAX then 0 else of_int (fl_end fl - fl_start fl + 1)),
        l_whence := 0, l_type := ucast (fl_type fl)\<rparr>))"

definition posix_lock_to_flock64 :: "flock64 \<Rightarrow> file_lock \<Rightarrow> flock64" where
  "posix_lock_to_flock64 flock fl =
     flock\<lparr>l64_pid := fl_pid fl, l64_start := of_int (fl_start fl),
       l64_len := (if fl_end fl = OFFSET_MAX then 0 else of_int (fl_end fl - fl_start fl + 1)),
       l64_whence := 0, l64_type := ucast (fl_type fl)\<rparr>"

section \<open>The fcntl calls\<close>

text \<open>
  Where a call sleeps, other tasks change the state: \<open>naps\<close> lists what they do to it and how the
  sleep ends, one entry for each time the call sleeps. The result is \<^const>\<open>None\<close> if the call still sleeps
  after that. File systems are taken to have no lock methods of their own.
\<close>

type_synonym nap = "(lock_state \<Rightarrow> lock_state) \<times> wait_result"

type_synonym allocs = "addr option \<times> addr option"

fun posix_lock_file_wait :: "inode_nr \<Rightarrow> u32 \<Rightarrow> addr \<Rightarrow> (allocs \<times> nap) list \<Rightarrow> allocs \<Rightarrow> lock_state \<Rightarrow>
    (lock_state \<times> unit result) option" where
  "posix_lock_file_wait ino tgid fl naps (a1, a2) st =
     (case posix_lock_file ino tgid fl a1 a2 st of
        (st, Lock_Ok) \<Rightarrow> Some (st, Inr ())
      | (st, Lock_Error e) \<Rightarrow> Some (st, Inl e)
      | (st, FILE_LOCK_DEFERRED) \<Rightarrow>
          (case naps of
             [] \<Rightarrow> None
           | (allocs, others, Interrupted e) # naps \<Rightarrow> Some (locks_delete_block fl (others st), Inl e)
           | (allocs, others, _) # naps \<Rightarrow> posix_lock_file_wait ino tgid fl naps allocs (others st)))"

text \<open>\<^verbatim>\<open>do_lock_file_wait\<close> is the same loop behind the security hook, which allows everything here.\<close>

definition do_lock_file_wait :: "inode_nr \<Rightarrow> u32 \<Rightarrow> addr \<Rightarrow> (allocs \<times> nap) list \<Rightarrow> allocs \<Rightarrow> lock_state \<Rightarrow>
    (lock_state \<times> unit result) option" where
  "do_lock_file_wait = posix_lock_file_wait"

definition vfs_test_lock :: "open_file \<Rightarrow> file_lock \<Rightarrow> lock_state \<Rightarrow> file_lock" where
  "vfs_test_lock filp fl st = posix_test_lock (f_inode filp) fl st"

text \<open>The result is what is copied back to user space; \<open>flock\<close> is absent if it cannot be read.\<close>

definition fcntl_getlk64 :: "open_file \<Rightarrow> fl_owner_t \<Rightarrow> u32 \<Rightarrow> file_lock \<Rightarrow> flock64 option \<Rightarrow> bool \<Rightarrow> lock_state \<Rightarrow>
    flock64 result" where
  "fcntl_getlk64 filp files tgid stack l writable st =
     (case l of
        None \<Rightarrow> Inl EFAULT
      | Some flock \<Rightarrow>
          if l64_type flock \<noteq> ucast F_RDLCK \<and> l64_type flock \<noteq> ucast F_WRLCK then Inl EINVAL
          else case flock64_to_posix_lock filp files tgid stack flock of
                 Inl e \<Rightarrow> Inl e
               | Inr file_lock \<Rightarrow>
                   let file_lock = vfs_test_lock filp file_lock st;
                       flock = flock\<lparr>l64_type := ucast (fl_type file_lock)\<rparr>;
                       flock = (if fl_type file_lock \<noteq> F_UNLCK then posix_lock_to_flock64 flock file_lock else flock)
                   in if writable then Inr flock else Inl EFAULT)"

definition fcntl_getlk :: "open_file \<Rightarrow> fl_owner_t \<Rightarrow> u32 \<Rightarrow> file_lock \<Rightarrow> flock option \<Rightarrow> bool \<Rightarrow> lock_state \<Rightarrow>
    flock result" where
  "fcntl_getlk filp files tgid stack l writable st =
     (case l of
        None \<Rightarrow> Inl EFAULT
      | Some flock \<Rightarrow>
          if l_type flock \<noteq> ucast F_RDLCK \<and> l_type flock \<noteq> ucast F_WRLCK then Inl EINVAL
          else case flock_to_posix_lock filp files tgid stack flock of
                 Inl e \<Rightarrow> Inl e
               | Inr file_lock \<Rightarrow>
                   let file_lock = vfs_test_lock filp file_lock st;
                       flock = flock\<lparr>l_type := ucast (fl_type file_lock)\<rparr>
                   in case (if fl_type file_lock \<noteq> F_UNLCK then posix_lock_to_flock flock file_lock else Inr flock) of
                        Inl e \<Rightarrow> Inl e
                      | Inr flock \<Rightarrow> if writable then Inr flock else Inl EFAULT)"

text \<open>
  One round of the two set calls, with the conversion of the user's structure as an argument. The
  request is the structure at \<open>fl\<close>.
\<close>

definition setlk_access :: "open_file \<Rightarrow> u16 \<Rightarrow> unit result" where
  "setlk_access filp type =
     (if type = ucast F_RDLCK then if f_mode filp AND FMODE_READ = 0 then Inl EBADF else Inr ()
      else if type = ucast F_WRLCK then if f_mode filp AND FMODE_WRITE = 0 then Inl EBADF else Inr ()
      else if type = ucast F_UNLCK then Inr ()
      else Inl EINVAL)"

definition setlk_round :: "open_file \<Rightarrow> u32 \<Rightarrow> addr \<Rightarrow> (file_lock \<Rightarrow> file_lock result) \<Rightarrow> u16 \<Rightarrow> bool \<Rightarrow>
    (allocs \<times> nap) list \<Rightarrow> allocs \<Rightarrow> lock_state \<Rightarrow> (lock_state \<times> unit result) option" where
  "setlk_round filp tgid fl to_posix type may_sleep naps allocs st =
     (case to_posix (mem st fl) of
        Inl e \<Rightarrow> Some (st, Inl e)
      | Inr f \<Rightarrow>
          let st = upd_lock fl (\<lambda>_. if may_sleep then f\<lparr>fl_flags := fl_flags f OR FL_SLEEP\<rparr> else f) st in
          (case setlk_access filp type of
             Inl e \<Rightarrow> Some (st, Inl e)
           | Inr _ \<Rightarrow> do_lock_file_wait (f_inode filp) tgid fl naps allocs st))"

text \<open>
  \<open>no_mmap\<close> is the refusal of mandatory locks on files that are mapped shared and writable, \<open>still_open\<close>
  tells whether the descriptor still names the file after the lock was set. If it does not, a second
  round releases the lock again.
\<close>

definition fcntl_setlk64 :: "open_file \<Rightarrow> fl_owner_t \<Rightarrow> u32 \<Rightarrow> addr option \<Rightarrow> flock64 option \<Rightarrow> bool \<Rightarrow> bool \<Rightarrow> bool \<Rightarrow>
    (allocs \<times> nap) list \<Rightarrow> allocs \<Rightarrow> allocs \<Rightarrow> lock_state \<Rightarrow> (lock_state \<times> unit result) option" where
  "fcntl_setlk64 filp files tgid alloc l no_mmap setlkw still_open naps allocs allocs2 st =
     (case alloc of
        None \<Rightarrow> Some (st, Inl ENOLCK)
      | Some fl \<Rightarrow>
          let st = locks_alloc_lock alloc st in
          (case l of
             None \<Rightarrow> Some (st, Inl EFAULT)
           | Some flock \<Rightarrow>
               if no_mmap then Some (st, Inl EAGAIN)
               else case setlk_round filp tgid fl (\<lambda>f. flock64_to_posix_lock filp files tgid f flock)
                      (l64_type flock) setlkw naps allocs st of
                 None \<Rightarrow> None
               | Some (st, error) \<Rightarrow>
                   if error = Inr () \<and> \<not> still_open \<and> l64_type flock \<noteq> ucast F_UNLCK
                   then let flock = flock\<lparr>l64_type := ucast F_UNLCK\<rparr> in
                     setlk_round filp tgid fl (\<lambda>f. flock64_to_posix_lock filp files tgid f flock)
                       (l64_type flock) setlkw [] allocs2 st
                   else Some (st, error)))"

definition fcntl_setlk :: "open_file \<Rightarrow> fl_owner_t \<Rightarrow> u32 \<Rightarrow> addr option \<Rightarrow> flock option \<Rightarrow> bool \<Rightarrow> bool \<Rightarrow> bool \<Rightarrow>
    (allocs \<times> nap) list \<Rightarrow> allocs \<Rightarrow> allocs \<Rightarrow> lock_state \<Rightarrow> (lock_state \<times> unit result) option" where
  "fcntl_setlk filp files tgid alloc l no_mmap setlkw still_open naps allocs allocs2 st =
     (case alloc of
        None \<Rightarrow> Some (st, Inl ENOLCK)
      | Some fl \<Rightarrow>
          let st = locks_alloc_lock alloc st in
          (case l of
             None \<Rightarrow> Some (st, Inl EFAULT)
           | Some flock \<Rightarrow>
               if no_mmap then Some (st, Inl EAGAIN)
               else case setlk_round filp tgid fl (\<lambda>f. flock_to_posix_lock filp files tgid f flock)
                      (l_type flock) setlkw naps allocs st of
                 None \<Rightarrow> None
               | Some (st, error) \<Rightarrow>
                   if error = Inr () \<and> \<not> still_open \<and> l_type flock \<noteq> ucast F_UNLCK
                   then let flock = flock\<lparr>l_type := ucast F_UNLCK\<rparr> in
                     setlk_round filp tgid fl (\<lambda>f. flock_to_posix_lock filp files tgid f flock)
                       (l_type flock) setlkw [] allocs2 st
                   else Some (st, error)))"

section \<open>The flock call\<close>

fun flock_lock_file_wait :: "open_file \<Rightarrow> u32 \<Rightarrow> addr \<Rightarrow> (addr option \<times> (lock_state \<Rightarrow> lock_state) \<times> nap) list \<Rightarrow>
    addr option \<Rightarrow> (lock_state \<Rightarrow> lock_state) \<Rightarrow> lock_state \<Rightarrow> (lock_state \<times> unit result) option" where
  "flock_lock_file_wait filp tgid fl naps alloc yield st =
     (case flock_lock_file (f_inode filp) tgid (f_id filp) fl alloc yield st of
        (st, Lock_Ok) \<Rightarrow> Some (st, Inr ())
      | (st, Lock_Error e) \<Rightarrow> Some (st, Inl e)
      | (st, FILE_LOCK_DEFERRED) \<Rightarrow>
          (case naps of
             [] \<Rightarrow> None
           | (alloc, yield, others, Interrupted e) # naps \<Rightarrow> Some (locks_delete_block fl (others st), Inl e)
           | (alloc, yield, others, _) # naps \<Rightarrow> flock_lock_file_wait filp tgid fl naps alloc yield (others st)))"

text \<open>\<open>filp\<close> is what the descriptor names, and \<open>lock\<close> the structure of the request, if it can be allocated.\<close>

definition sys_flock :: "open_file option \<Rightarrow> u32 \<Rightarrow> u32 \<Rightarrow> addr option \<Rightarrow>
    (addr option \<times> (lock_state \<Rightarrow> lock_state) \<times> nap) list \<Rightarrow> addr option \<Rightarrow> (lock_state \<Rightarrow> lock_state) \<Rightarrow> lock_state \<Rightarrow>
    (lock_state \<times> unit result) option" where
  "sys_flock file tgid cmd lock naps alloc yield st =
     (case file of
        None \<Rightarrow> Some (st, Inl EBADF)
      | Some filp \<Rightarrow>
          let can_sleep = (cmd AND LOCK_NB = 0); cmd = cmd AND NOT LOCK_NB; unlock = (cmd = LOCK_UN) in
          if \<not> unlock \<and> cmd AND ucast LOCK_MAND = 0 \<and> f_mode filp AND (FMODE_READ OR FMODE_WRITE) = 0
          then Some (st, Inl EBADF)
          else case flock_make_lock (f_id filp) tgid cmd (lock \<noteq> None) of
                 Inl e \<Rightarrow> Some (st, Inl e)
               | Inr f \<Rightarrow>
                   flock_lock_file_wait filp tgid (the lock) naps alloc yield
                     (upd_lock (the lock) (\<lambda>_. if can_sleep then f\<lparr>fl_flags := fl_flags f OR FL_SLEEP\<rparr> else f) st))"

section \<open>Mandatory locks\<close>

definition candidate_mandatory_lock :: "u16 \<Rightarrow> bool" where
  "candidate_mandatory_lock mode \<longleftrightarrow> mode AND (S_ISGID OR S_IXGRP) = S_ISGID"

definition mandatory_lock :: "bool \<Rightarrow> u16 \<Rightarrow> bool" where
  "mandatory_lock is_mandlock mode \<longleftrightarrow> is_mandlock \<and> candidate_mandatory_lock mode"

definition locks_mandatory_locked :: "inode_nr \<Rightarrow> fl_owner_t \<Rightarrow> lock_state \<Rightarrow> unit result" where
  "locks_mandatory_locked ino files st =
     (if \<exists>fl\<in>set (i_flock st ino). IS_POSIX (mem st fl) \<and> fl_owner (mem st fl) \<noteq> files then Inl EAGAIN else Inr ())"

text \<open>
  \<^verbatim>\<open>locks_mandatory_area\<close>: the request is on the stack, at address \<open>fl\<close>. After each sleep the mode of the
  inode is looked at again; if its locks are not mandatory any more the call ends with success.
\<close>

fun mandatory_area_loop :: "inode_nr \<Rightarrow> u32 \<Rightarrow> addr \<Rightarrow> (bool \<times> nap) list \<Rightarrow> lock_state \<Rightarrow>
    (lock_state \<times> unit result) option" where
  "mandatory_area_loop ino tgid fl naps st =
     (case posix_lock_file ino tgid fl None None st of
        (st, Lock_Ok) \<Rightarrow> Some (st, Inr ())
      | (st, Lock_Error e) \<Rightarrow> Some (st, Inl e)
      | (st, FILE_LOCK_DEFERRED) \<Rightarrow>
          (case naps of
             [] \<Rightarrow> None
           | (still_mandatory, others, Interrupted e) # naps \<Rightarrow> Some (locks_delete_block fl (others st), Inl e)
           | (still_mandatory, others, _) # naps \<Rightarrow>
               if still_mandatory then mandatory_area_loop ino tgid fl naps (others st)
               else Some (locks_delete_block fl (others st), Inr ())))"

definition mandatory_request :: "fl_owner_t \<Rightarrow> u32 \<Rightarrow> open_file option \<Rightarrow> bool \<Rightarrow> u64 \<Rightarrow> u32 \<Rightarrow> file_lock" where
  "mandatory_request files tgid filp verify_write offset len =
     locks_init_lock_always\<lparr>fl_owner := files, fl_pid := tgid, fl_file := map_option f_id filp,
       fl_flags := (case filp of
           None \<Rightarrow> FL_POSIX OR FL_ACCESS
         | Some f \<Rightarrow> if f_flags f AND O_NONBLOCK = 0 then FL_POSIX OR FL_ACCESS OR FL_SLEEP else FL_POSIX OR FL_ACCESS),
       fl_type := (if verify_write then F_WRLCK else F_RDLCK),
       fl_start := sint offset, fl_end := sint (offset + ucast len - 1)\<rparr>"

definition locks_mandatory_area :: "bool \<Rightarrow> inode_nr \<Rightarrow> fl_owner_t \<Rightarrow> u32 \<Rightarrow> open_file option \<Rightarrow> u64 \<Rightarrow> u32 \<Rightarrow> addr \<Rightarrow>
    (bool \<times> nap) list \<Rightarrow> lock_state \<Rightarrow> (lock_state \<times> unit result) option" where
  "locks_mandatory_area verify_write ino files tgid filp offset len fl naps st =
     mandatory_area_loop ino tgid fl naps
       (upd_lock fl (\<lambda>_. mandatory_request files tgid filp verify_write offset len) st)"

text \<open>The length of the area is passed as a \<^verbatim>\<open>size_t\<close>, which has 32 bits.\<close>

definition locks_verify_truncate :: "bool \<Rightarrow> u16 \<Rightarrow> u64 \<Rightarrow> inode_nr \<Rightarrow> fl_owner_t \<Rightarrow> u32 \<Rightarrow> open_file option \<Rightarrow> u64 \<Rightarrow> addr \<Rightarrow>
    (bool \<times> nap) list \<Rightarrow> lock_state \<Rightarrow> (lock_state \<times> unit result) option" where
  "locks_verify_truncate is_mandlock mode i_size ino files tgid filp new_size fl naps st =
     (if i_flock st ino \<noteq> [] \<and> mandatory_lock is_mandlock mode
      then locks_mandatory_area True ino files tgid filp (if new_size <s i_size then new_size else i_size)
             (ucast (if new_size <s i_size then i_size - new_size else new_size - i_size)) fl naps st
      else Some (st, Inr ()))"

section \<open>Checks of the NFS server\<close>

definition lock_may_read :: "inode_nr \<Rightarrow> u64 \<Rightarrow> u32 \<Rightarrow> lock_state \<Rightarrow> bool" where
  "lock_may_read ino start len st \<longleftrightarrow>
     \<not> (\<exists>fl\<in>set (i_flock st ino). let f = mem st fl in
          if IS_POSIX f then fl_type f \<noteq> F_RDLCK \<and> \<not> (fl_end f < sint start \<or> fl_start f > sint (start + ucast len))
          else IS_FLOCK f \<and> fl_type f AND LOCK_MAND \<noteq> 0 \<and> fl_type f AND LOCK_READ = 0)"

definition lock_may_write :: "inode_nr \<Rightarrow> u64 \<Rightarrow> u32 \<Rightarrow> lock_state \<Rightarrow> bool" where
  "lock_may_write ino start len st \<longleftrightarrow>
     \<not> (\<exists>fl\<in>set (i_flock st ino). let f = mem st fl in
          if IS_POSIX f then \<not> (fl_end f < sint start \<or> fl_start f > sint (start + ucast len))
          else IS_FLOCK f \<and> fl_type f AND LOCK_MAND \<noteq> 0 \<and> fl_type f AND LOCK_WRITE = 0)"

section \<open>Leases\<close>

definition CAP_LEASE :: nat where "CAP_LEASE = 28"

text \<open>
  \<^verbatim>\<open>generic_setlease\<close> with its checks of the caller; \<open>ino\<close> is the number of the inode among the lock
  chains. The capability module has no objection to file locks.
\<close>

definition generic_setlease :: "cred \<Rightarrow> inode \<Rightarrow> inode_nr \<Rightarrow> lock_file \<Rightarrow> u8 \<Rightarrow> addr \<Rightarrow> u32 \<Rightarrow> u32 \<Rightarrow> int \<Rightarrow> int \<Rightarrow> int \<Rightarrow>
    bool \<Rightarrow> lock_state \<Rightarrow> lock_state \<times> addr option result" where
  "generic_setlease current inode ino filp arg lease tgid jiffies i_writecount d_count i_count leases_enable st =
     (if cr_fsuid current \<noteq> i_uid (i_ids inode) \<and> \<not> capable current CAP_LEASE then (st, Inl EACCES)
      else if i_kind inode \<noteq> S_IFREG then (st, Inl EINVAL)
      else setlease_locked ino filp arg lease tgid jiffies i_writecount d_count i_count leases_enable st)"

definition lease_get_mtime :: "inode_nr \<Rightarrow> lock_state \<Rightarrow> 'time \<Rightarrow> 'time \<Rightarrow> 'time" where
  "lease_get_mtime ino st now i_mtime =
     (case i_flock st ino of
        flock # _ \<Rightarrow> if IS_LEASE (mem st flock) \<and> fl_type (mem st flock) AND F_WRLCK \<noteq> 0 then now else i_mtime
      | [] \<Rightarrow> i_mtime)"

text \<open>\<^verbatim>\<open>fcntl_setlease\<close>; \<open>fl\<close> is the structure on the stack of the call that deletes a lease.\<close>

definition do_fcntl_delete_lease :: "cred \<Rightarrow> inode \<Rightarrow> inode_nr \<Rightarrow> lock_file \<Rightarrow> fl_owner_t \<Rightarrow> u32 \<Rightarrow> u32 \<Rightarrow> int \<Rightarrow> int \<Rightarrow> int \<Rightarrow>
    bool \<Rightarrow> addr \<Rightarrow> lock_state \<Rightarrow> lock_state \<times> unit result" where
  "do_fcntl_delete_lease current inode ino filp files tgid jiffies i_writecount d_count i_count leases_enable fl st =
     (let st = (case lease_init (Some filp) (uint F_UNLCK) files tgid (mem st fl) of
                  Inl e \<Rightarrow> st | Inr f \<Rightarrow> upd_lock fl (\<lambda>_. f) st)
      in case generic_setlease current inode ino filp F_UNLCK fl tgid jiffies i_writecount d_count i_count leases_enable st of
           (st, Inl e) \<Rightarrow> (st, Inl e)
         | (st, Inr _) \<Rightarrow> (st, Inr ()))"

definition do_fcntl_add_lease :: "cred \<Rightarrow> inode \<Rightarrow> inode_nr \<Rightarrow> lock_file \<Rightarrow> fl_owner_t \<Rightarrow> u32 \<Rightarrow> u32 \<Rightarrow> int \<Rightarrow> int \<Rightarrow> int \<Rightarrow>
    bool \<Rightarrow> addr option \<Rightarrow> bool \<Rightarrow> int \<Rightarrow> lock_state \<Rightarrow> lock_state \<times> unit result" where
  "do_fcntl_add_lease current inode ino filp files tgid jiffies i_writecount d_count i_count leases_enable alloc
     fasync_allocated arg st =
     (case lease_alloc alloc (Some filp) arg files tgid st of
        (st, Inl e) \<Rightarrow> (st, Inl e)
      | (st, Inr fl) \<Rightarrow>
          if \<not> fasync_allocated then (st, Inl ENOMEM)
          else case generic_setlease current inode ino filp (of_int arg) fl tgid jiffies i_writecount d_count i_count
                      leases_enable st of
                 (st, Inl e) \<Rightarrow> (st, Inl e)
               | (st, Inr _) \<Rightarrow> (st, Inr ()))"

definition fcntl_setlease :: "cred \<Rightarrow> inode \<Rightarrow> inode_nr \<Rightarrow> lock_file \<Rightarrow> fl_owner_t \<Rightarrow> u32 \<Rightarrow> u32 \<Rightarrow> int \<Rightarrow> int \<Rightarrow> int \<Rightarrow>
    bool \<Rightarrow> addr option \<Rightarrow> bool \<Rightarrow> addr \<Rightarrow> int \<Rightarrow> lock_state \<Rightarrow> lock_state \<times> unit result" where
  "fcntl_setlease current inode ino filp files tgid jiffies i_writecount d_count i_count leases_enable alloc
     fasync_allocated stack arg st =
     (if arg = uint F_UNLCK
      then do_fcntl_delete_lease current inode ino filp files tgid jiffies i_writecount d_count i_count leases_enable stack st
      else do_fcntl_add_lease current inode ino filp files tgid jiffies i_writecount d_count i_count leases_enable alloc
             fasync_allocated arg st)"

section \<open>The conversions are exact\<close>

text \<open>Signed 64-bit arithmetic, as sums of integers that are brought back into range.\<close>

definition wrap64 :: "int \<Rightarrow> int" where
  "wrap64 x = (x + 2 ^ 63) mod 2 ^ 64 - 2 ^ 63"

lemma sint64_arith:
  "sint (a + b :: u64) = wrap64 (sint a + sint b)" "sint (a - b :: u64) = wrap64 (sint a - sint b)"
  "sint (of_int x :: u64) = wrap64 x"
  by (simp_all add: sint_word_ariths wrap64_def signed_take_bit_eq_take_bit_shift take_bit_eq_mod sint_sbintrunc')

lemma sint64_range: "- (2 ^ 63) \<le> sint (a :: u64)" "sint (a :: u64) < 2 ^ 63"
  using sint_ge [of a] sint_lt [of a] by simp_all

lemma wrap64_id: "- (2 ^ 63) \<le> x \<Longrightarrow> x < 2 ^ 63 \<Longrightarrow> wrap64 x = x"
  unfolding wrap64_def by (simp add: mod_pos_pos_trivial)

lemma wrap64_high: "2 ^ 63 \<le> x \<Longrightarrow> x < 2 ^ 64 + 2 ^ 63 \<Longrightarrow> wrap64 x = x - 2 ^ 64"
proof -
  assume "2 ^ 63 \<le> x" "x < 2 ^ 64 + 2 ^ 63"
  then have "(x + 2 ^ 63 - 2 ^ 64) mod 2 ^ 64 = x + 2 ^ 63 - 2 ^ 64" by (intro mod_pos_pos_trivial) simp_all
  then show ?thesis unfolding wrap64_def using minus_mod_self2 [of "x + 2 ^ 63" "2 ^ 64"] by simp
qed

lemma wrap64_wrap: "wrap64 (wrap64 x + y) = wrap64 (x + y)" "wrap64 (wrap64 x - y) = wrap64 (x - y)"
  unfolding wrap64_def by (simp_all add: mod_simps algebra_simps)

text \<open>What POSIX says a start and a length mean.\<close>

definition posix_range :: "int \<Rightarrow> int \<Rightarrow> (int \<times> int) option" where
  "posix_range s len =
     (let (lo, hi) = (if len > 0 then (s, s + len - 1) else if len < 0 then (s + len, s - 1) else (s, OFFSET_MAX)) in
      if 0 \<le> s \<and> s \<le> OFFSET_MAX \<and> 0 \<le> lo \<and> hi \<le> OFFSET_MAX then Some (lo, hi) else None)"

lemma flock64_range_exact:
  assumes "0 \<le> sint base"
  shows "(case flock64_range (base + rel) len of
      Inl e \<Rightarrow> posix_range (sint base + sint rel) (sint len) = None
    | Inr (lo, hi) \<Rightarrow> (if hi < lo then posix_range (sint base + sint rel) (sint len) = None
                       else posix_range (sint base + sint rel) (sint len) = Some (lo, hi)))"
proof -
  define S where "S = sint base + sint rel"
  have S: "- (2 ^ 63) \<le> S" "S < 2 ^ 64" using assms sint64_range [of base] sint64_range [of rel] by (simp_all add: S_def)
  have st: "sint (base + rel) = wrap64 S" by (simp add: sint64_arith S_def)
  have lt: "x <s 0 \<longleftrightarrow> sint x < 0" "0 <s x \<longleftrightarrow> 0 < sint x" for x :: u64 by (simp_all add: word_sless_alt)
  show ?thesis
  proof (cases "S < 2 ^ 63")
    case False
    then have "sint (base + rel) < 0" using st wrap64_high [of S] S by simp
    then show ?thesis using False by (simp add: flock64_range_def lt posix_range_def OFFSET_MAX_def S_def)
  next
    case True
    then have sS: "sint (base + rel) = S" using st wrap64_id S by simp
    note len = sint64_range [of len]
    have end': "sint (base + rel + len - 1) = wrap64 (S + sint len - 1)" "sint (base + rel + len) = wrap64 (S + sint len)"
      "sint (base + rel - 1) = wrap64 (S - 1)"
      using sS by (simp_all add: sint64_arith wrap64_wrap)
    consider "0 < sint len" "S + sint len - 1 < 2 ^ 63" | "0 < sint len" "2 ^ 63 \<le> S + sint len - 1"
      | "sint len < 0" | "sint len = 0" by linarith
    then show ?thesis
    proof cases
      case 1
      then show ?thesis
        using sS end' S wrap64_id [of "S + sint len - 1"]
        by (simp add: flock64_range_def lt posix_range_def OFFSET_MAX_def flip: S_def)
    next
      case 2
      then show ?thesis
        using sS end' S True len wrap64_high [of "S + sint len - 1"]
        by (simp add: flock64_range_def lt posix_range_def OFFSET_MAX_def flip: S_def)
    next
      case 3
      have "S - 1 < 2 ^ 63" using True by simp
      then show ?thesis
        using sS end' S True 3 len wrap64_id [of "S + sint len"] wrap64_id [of "S - 1"]
        by (cases "0 \<le> S") (auto simp: flock64_range_def lt posix_range_def OFFSET_MAX_def simp flip: S_def)
    next
      case 4
      then show ?thesis
        using sS S True by (simp add: flock64_range_def lt posix_range_def OFFSET_MAX_def flip: S_def)
    qed
  qed
qed

lemma posix_fields_Inr:
  assumes "posix_fields filp files tgid type fl = Inr f" "files = Files n"
  shows "fl_start f = fl_start fl \<and> fl_end f = fl_end fl \<and> IS_POSIX f \<and> owner_ok f \<and> fl_type f = of_int (sint type) \<and>
    lock_owner f = (files, 0) \<and> \<not> has_flag f FL_ACCESS \<and> fl_type f \<in> {F_RDLCK, F_WRLCK, F_UNLCK} \<and>
    (type = ucast F_RDLCK \<or> type = ucast F_WRLCK \<or> type = ucast F_UNLCK)"
proof -
  have t: "(type = ucast F_RDLCK \<or> type = ucast F_WRLCK \<or> type = ucast F_UNLCK)"
    if "sint type = uint F_RDLCK \<or> sint type = uint F_WRLCK \<or> sint type = uint F_UNLCK"
  proof -
    have "type = word_of_int (sint type)" by simp
    then show ?thesis using that by (elim disjE) (simp_all add: lock_consts)
  qed
  show ?thesis
    using assms t
    by (auto simp: posix_fields_def assign_type_def IS_POSIX_def owner_ok_def IS_LEASE_def IS_FLOCK_def has_flag_def
        lock_owner_def lock_consts split: if_splits)
qed

lemma posix_fields_ok:
  "(\<exists>e. posix_fields filp files tgid type fl = Inl e) \<longleftrightarrow> sint type \<notin> {uint F_RDLCK, uint F_WRLCK, uint F_UNLCK}"
  by (simp add: posix_fields_def assign_type_def)

lemma flock64_exact:
  assumes "seek_base filp (l64_whence l) = Inr base" "0 \<le> sint base" "files = Files n"
  shows "case flock64_to_posix_lock filp files tgid fl l of
      Inr f \<Rightarrow> posix_range (sint base + sint (l64_start l)) (sint (l64_len l)) = Some (fl_start f, fl_end f) \<and>
        range_ok f \<and> IS_POSIX f \<and> owner_ok f \<and> fl_type f \<in> {F_RDLCK, F_WRLCK, F_UNLCK} \<and> lock_owner f = (files, 0)
    | Inl e \<Rightarrow> posix_range (sint base + sint (l64_start l)) (sint (l64_len l)) = None \<or>
        sint (l64_type l) \<notin> {uint F_RDLCK, uint F_WRLCK, uint F_UNLCK}"
proof (cases "flock64_range (base + l64_start l) (l64_len l)")
  case (Inl e)
  then show ?thesis
    using flock64_range_exact [OF assms(2), of "l64_start l" "l64_len l"] assms(1) by (simp add: flock64_to_posix_lock_def)
next
  case (Inr r)
  obtain lo hi where r: "r = (lo, hi)" by (cases r)
  note ex = flock64_range_exact [OF assms(2), of "l64_start l" "l64_len l", unfolded Inr r]
  show ?thesis
  proof (cases "hi < lo")
    case True
    then show ?thesis using ex assms(1) Inr r by (simp add: flock64_to_posix_lock_def)
  next
    case False
    then have p: "posix_range (sint base + sint (l64_start l)) (sint (l64_len l)) = Some (lo, hi)" using ex by simp
    then have "0 \<le> lo" "hi \<le> OFFSET_MAX" by (auto simp: posix_range_def Let_def split: if_splits)
    then show ?thesis
      using p False assms(1) Inr r posix_fields_Inr [OF _ assms(3), of filp tgid "l64_type l" "fl\<lparr>fl_start := lo, fl_end := hi\<rparr>"]
        posix_fields_ok [of filp files tgid "l64_type l" "fl\<lparr>fl_start := lo, fl_end := hi\<rparr>"]
      by (auto simp: flock64_to_posix_lock_def range_ok_def split: sum.split)
  qed
qed

text \<open>
  C26: \<^verbatim>\<open>flock64_to_posix_lock\<close> is exact although it computes in wrapping 64-bit arithmetic. If it
  succeeds the lock has exactly the byte range that POSIX gives the offset and length, inside
  0..\<^verbatim>\<open>OFFSET_MAX\<close>, and is a well-formed request of the caller; it fails only if there is no such range
  or the type is not a lock type.
\<close>

theorem flock64_to_posix_lock_exact:
  assumes "seek_base filp (l64_whence l) = Inr base" "0 \<le> sint base" "files = Files n"
  shows "case flock64_to_posix_lock filp files tgid fl l of
      Inr f \<Rightarrow> posix_range (sint base + sint (l64_start l)) (sint (l64_len l)) = Some (fl_start f, fl_end f) \<and>
        range_ok f \<and> IS_POSIX f \<and> owner_ok f \<and> fl_type f \<in> {F_RDLCK, F_WRLCK, F_UNLCK} \<and> lock_owner f = (files, 0)
    | Inl e \<Rightarrow> posix_range (sint base + sint (l64_start l)) (sint (l64_len l)) = None \<or>
        sint (l64_type l) \<notin> {uint F_RDLCK, uint F_WRLCK, uint F_UNLCK}"
  by (rule flock64_exact [OF assms])

definition example_file :: open_file where
  "example_file = \<lparr>f_id = 1, f_inode = 0, f_pos = 100, f_mode = 3, f_flags = 0, f_isize = 5000\<rparr>"

definition example_flock64 :: "u16 \<Rightarrow> u64 \<Rightarrow> u64 \<Rightarrow> flock64" where
  "example_flock64 whence s len = \<lparr>l64_type = ucast F_WRLCK, l64_whence = whence, l64_start = s, l64_len = len, l64_pid = 0\<rparr>"

theorem flock64_to_posix_lock_exact_witness:
  "\<exists>f. flock64_to_posix_lock example_file (Files 3) 7 locks_init_lock_always (example_flock64 SEEK_END (- 10) (- 5)) = Inr f \<and>
     posix_range (5000 - 10) (- 5) = Some (fl_start f, fl_end f) \<and> fl_start f = 4985 \<and> fl_end f = 4989"
proof -
  let ?l = "example_flock64 SEEK_END (- 10) (- 5)"
  have b: "seek_base example_file (l64_whence ?l) = Inr 5000" "0 \<le> sint (5000 :: u64)"
    by (simp_all add: example_flock64_def example_file_def seek_base_def SEEK_END_def SEEK_SET_def SEEK_CUR_def)
  have s: "sint (5000 :: u64) + sint (l64_start ?l) = 5000 - 10" "sint (l64_len ?l) = - 5" by (simp_all add: example_flock64_def)
  have "\<not> isl (flock64_to_posix_lock example_file (Files 3) 7 locks_init_lock_always ?l)" by code_simp
  then obtain f where f: "flock64_to_posix_lock example_file (Files 3) 7 locks_init_lock_always ?l = Inr f"
    by (metis isl_def sum.exhaust)
  from flock64_to_posix_lock_exact [OF b refl, of 3 7 locks_init_lock_always] f s
  show ?thesis by (auto simp: posix_range_def OFFSET_MAX_def)
qed

lemma report_range:
  assumes "range_ok fl"
  shows "posix_range (sint (l64_start (posix_lock_to_flock64 l fl))) (sint (l64_len (posix_lock_to_flock64 l fl))) =
    Some (fl_start fl, fl_end fl)"
proof -
  let ?l = "posix_lock_to_flock64 l fl" and ?s = "fl_start fl" and ?e = "fl_end fl"
  have r: "0 \<le> ?s" "?s \<le> ?e" "?e \<le> 2 ^ 63 - 1" using assms by (simp_all add: range_ok_def OFFSET_MAX_def)
  have s: "sint (l64_start ?l) = ?s" using r by (simp add: posix_lock_to_flock64_def sint64_arith wrap64_id)
  have len: "sint (l64_len ?l) = (if ?e = OFFSET_MAX then 0 else ?e - ?s + 1)"
    using r sint64_arith(3) [of "?e - ?s + 1"] wrap64_id [of "?e - ?s + 1"] by (auto simp: posix_lock_to_flock64_def OFFSET_MAX_def)
  show ?thesis using r unfolding len s posix_range_def by (auto simp: OFFSET_MAX_def)
qed

text \<open>
  C40: Reporting a lock to user space and reading the report back gives the same lock: for every
  well-formed lock, \<^verbatim>\<open>flock64_to_posix_lock\<close> inverts \<^verbatim>\<open>posix_lock_to_flock64\<close> on range and type, for
  all ranges up to \<^verbatim>\<open>OFFSET_MAX\<close>.
\<close>

theorem flock64_round_trip:
  assumes "range_ok fl" "fl_type fl \<in> {F_RDLCK, F_WRLCK}"
  shows "\<exists>f. flock64_to_posix_lock filp files tgid x (posix_lock_to_flock64 l fl) = Inr f \<and>
    fl_start f = fl_start fl \<and> fl_end f = fl_end fl \<and> fl_type f = fl_type fl"
proof -
  let ?l = "posix_lock_to_flock64 l fl" and ?s = "fl_start fl" and ?e = "fl_end fl"
  have "0 \<le> ?s" "?s \<le> ?e" using assms(1) by (simp_all add: range_ok_def)
  moreover have "flock64_range (l64_start ?l) (l64_len ?l) = Inr (?s, ?e)"
    using flock64_range_exact [of 0 "l64_start ?l" "l64_len ?l"] report_range [OF assms(1), of l]
    by (auto split: sum.splits if_splits)
  moreover have t: "sint (ucast (fl_type fl) :: u16) = uint (fl_type fl)" using assms(2) by (auto simp: lock_consts)
  ultimately show ?thesis
    using assms(2)
    by (auto simp: flock64_to_posix_lock_def posix_lock_to_flock64_def seek_base_def SEEK_SET_def posix_fields_def assign_type_def)
qed

theorem flock64_round_trip_witness:
  "\<exists>f. flock64_to_posix_lock example_file (Files 3) 7 locks_init_lock_always
      (posix_lock_to_flock64 (example_flock64 0 0 0) (range_lock 3 F_RDLCK 4096 8191)) = Inr f \<and> fl_start f = 4096 \<and> fl_end f = 8191"
  using flock64_round_trip [of "range_lock 3 F_RDLCK 4096 8191" example_file "Files 3" 7 locks_init_lock_always "example_flock64 0 0 0"]
  by (auto simp: range_ok_def OFFSET_MAX_def)

section \<open>Asking for a lock and setting it\<close>

text \<open>The search of \<^verbatim>\<open>posix_test_lock\<close> finds a lock exactly when another owner excludes the request.\<close>

lemma test_lock_spec:
  assumes inv: "lock_inv st" and f: "owner_ok f" "range_ok f"
  shows "(\<not> excluded_by st ino f \<longrightarrow> posix_test_lock ino f st = f\<lparr>fl_type := F_UNLCK\<rparr>) \<and>
    (excluded_by st ino f \<longrightarrow> (\<exists>a\<in>set (i_flock st ino). posix_ok (mem st a) \<and> posix_locks_conflict f (mem st a) \<and>
       fl_type (posix_test_lock ino f st) = fl_type (mem st a) \<and> fl_start (posix_test_lock ino f st) = fl_start (mem st a) \<and>
       fl_end (posix_test_lock ino f st) = fl_end (mem st a)))"
proof -
  let ?P = "\<lambda>a. IS_POSIX (mem st a) \<and> posix_locks_conflict f (mem st a)"
  have ex: "excluded_by st ino f \<longleftrightarrow> (\<exists>a\<in>set (i_flock st ino). ?P a)"
    unfolding excluded_by_def held_iff [OF inv] using posix_locks_conflict_iff [OF chain_posix_ok [OF inv] f] by blast
  show ?thesis
  proof (cases "find ?P (i_flock st ino)")
    case None
    then have "\<not> excluded_by st ino f" by (auto simp: ex find_None_iff)
    then show ?thesis using None by (simp add: posix_test_lock_def)
  next
    case (Some a)
    then have a: "a \<in> set (i_flock st ino)" "?P a" by (auto simp: find_Some_iff)
    then have "excluded_by st ino f" using ex by blast
    then show ?thesis
      using a chain_posix_ok [OF inv a(1)] Some
      by (auto simp: posix_test_lock_def copy_lock_fields_def Let_def split: option.split intro!: bexI [of _ a])
  qed
qed

text \<open>
  C31: \<^verbatim>\<open>F_GETLK\<close> tells the truth about \<^verbatim>\<open>F_SETLK\<close>. For a well-formed lock table and a request that
  converts to the lock \<open>f\<close>, the call reports \<^verbatim>\<open>F_UNLCK\<close> exactly when setting the same lock without
  waiting would not fail with \<^verbatim>\<open>EAGAIN\<close>; otherwise what it reports is the exact range and type of a
  lock of another owner that overlaps the request.
\<close>

theorem fcntl_getlk64_predicts_setlk:
  assumes inv: "lock_inv st" and conv: "flock64_to_posix_lock filp (Files n) tgid stack l = Inr f"
    and base: "seek_base filp (l64_whence l) = Inr base" "0 \<le> sint base"
    and get: "fcntl_getlk64 filp (Files n) tgid stack (Some l) True st = Inr l'"
    and q: "q \<notin> in_chains st" "fresh_allocs st q a1 a2"
    and set: "posix_lock_file (f_inode filp) tgid q a1 a2 (upd_lock q (\<lambda>_. f) st) = (st', res)"
  shows "(res = Lock_Error EAGAIN \<longleftrightarrow> l64_type l' \<noteq> ucast F_UNLCK) \<and>
    (l64_type l' \<noteq> ucast F_UNLCK \<longrightarrow> (\<exists>a\<in>set (i_flock st (f_inode filp)).
       lock_owner (mem st a) \<noteq> (Files n, 0) \<and> (\<exists>b. covers f b \<and> covers (mem st a) b) \<and>
       l64_type l' = ucast (fl_type (mem st a)) \<and>
       posix_range (sint (l64_start l')) (sint (l64_len l')) = Some (fl_start (mem st a), fl_end (mem st a))))"
proof -
  let ?ino = "f_inode filp" and ?st = "upd_lock q (\<lambda>_. f) st" and ?t = "posix_test_lock (f_inode filp) f st"
  from flock64_exact [OF base refl, of n tgid stack] conv
  have f: "range_ok f" "IS_POSIX f" "owner_ok f" "fl_type f \<in> {F_RDLCK, F_WRLCK, F_UNLCK}" "lock_owner f = (Files n, 0)" by auto
  have flags: "fl_flags f = FL_POSIX" "fl_type f = of_int (sint (l64_type l))"
    using conv by (auto simp: flock64_to_posix_lock_def posix_fields_def assign_type_def split: sum.splits prod.splits if_splits)
  have lt: "l64_type l \<in> {ucast F_RDLCK, ucast F_WRLCK}" using get by (auto simp: fcntl_getlk64_def split: if_splits)
  then have ft: "fl_type f \<noteq> F_UNLCK" using flags(2) by (auto simp: lock_consts)
  have l': "l' = (let l1 = l\<lparr>l64_type := ucast (fl_type ?t)\<rparr> in
      if fl_type ?t \<noteq> F_UNLCK then posix_lock_to_flock64 l1 ?t else l1)"
    using get conv lt by (auto simp: fcntl_getlk64_def vfs_test_lock_def Let_def split: if_splits)
  have same: "i_flock ?st = i_flock st" "\<forall>a\<in>in_chains st. mem ?st a = mem st a" "mem ?st q = f"
    using q(1) by (auto simp: lock_frame)
  note sc = same_chains [OF same(1,2)]
  have req: "request_ok ?st q" "fresh_allocs ?st q a1 a2"
    using q f same(3) sc(1) by (auto simp: request_ok_def fresh_allocs_def)
  obtain cf where "posix_lock_file_conf ?ino tgid q a1 a2 None ?st = (st', cf, res)"
    using set by (auto simp: posix_lock_file_def split: prod.splits)
  note out = posix_lock_file_result [OF iffD2 [OF sc(4) inv] req this, unfolded same(3)]
  have ex: "excluded_by ?st ?ino f \<longleftrightarrow> excluded_by st ?ino f" by (simp add: excluded_by_def sc(3))
  have eagain: "res = Lock_Error EAGAIN \<longleftrightarrow> excluded_by st ?ino f"
    using out ft flags(1) unfolding ex by (auto simp: has_flag_def lock_consts split: if_splits)
  note test = test_lock_spec [OF inv f(3,1), of ?ino]
  show ?thesis
  proof (cases "excluded_by st ?ino f")
    case False
    then show ?thesis using test eagain l' by (simp add: Let_def)
  next
    case True
    then obtain a where a: "a \<in> set (i_flock st ?ino)" "posix_ok (mem st a)" "posix_locks_conflict f (mem st a)"
        "fl_type ?t = fl_type (mem st a)" "fl_start ?t = fl_start (mem st a)" "fl_end ?t = fl_end (mem st a)"
      using test by blast
    have ty: "fl_type ?t \<in> {F_RDLCK, F_WRLCK}" and r: "range_ok ?t" using a by (auto simp: posix_ok_def range_ok_def)
    then have nt: "fl_type ?t \<noteq> F_UNLCK" "(ucast (fl_type ?t) :: u16) \<noteq> ucast F_UNLCK" by (auto simp: lock_consts)
    then have "l64_type l' \<noteq> ucast F_UNLCK" "l64_type l' = ucast (fl_type (mem st a))"
      using l' a(4) by (simp_all add: posix_lock_to_flock64_def)
    moreover have "posix_range (sint (l64_start l')) (sint (l64_len l')) = Some (fl_start (mem st a), fl_end (mem st a))"
      using report_range [OF r] l' nt a by simp
    moreover have "lock_owner (mem st a) \<noteq> (Files n, 0) \<and> (\<exists>b. covers f b \<and> covers (mem st a) b)"
      using posix_locks_conflict_iff [OF a(2) f(3,1)] a(3) f(5) by simp
    ultimately show ?thesis using True eagain a(1) by blast
  qed
qed

theorem fcntl_getlk64_predicts_setlk_witness:
  "\<exists>f l'. flock64_to_posix_lock example_file (Files 4) 7 locks_init_lock_always (example_flock64 SEEK_SET 5 100) = Inr f \<and>
     fcntl_getlk64 example_file (Files 4) 7 locks_init_lock_always (Some (example_flock64 SEEK_SET 5 100)) True
       (one_lock (range_lock 3 F_RDLCK 0 9)) = Inr l' \<and> l64_type l' = ucast F_RDLCK \<and>
     snd (posix_lock_file 0 7 0 (Some 5) (Some 6) (upd_lock 0 (\<lambda>_. f) (one_lock (range_lock 3 F_RDLCK 0 9)))) = Lock_Error EAGAIN"
proof -
  let ?l = "example_flock64 SEEK_SET 5 100" and ?st = "one_lock (range_lock 3 F_RDLCK 0 9)"
  let ?conv = "flock64_to_posix_lock example_file (Files 4) 7 locks_init_lock_always ?l"
  let ?get = "fcntl_getlk64 example_file (Files 4) 7 locks_init_lock_always (Some ?l) True ?st"
  have c: "\<not> isl ?conv" "\<not> isl ?get" "l64_type (projr ?get) = ucast F_RDLCK" by code_simp+
  then obtain f l' where f: "?conv = Inr f" and l': "?get = Inr l'" "l64_type l' = ucast F_RDLCK"
    by (metis isl_def sum.exhaust sum.sel(2))
  have r: "IS_POSIX (range_lock 3 F_RDLCK 0 9)" "owner_ok (range_lock 3 F_RDLCK 0 9)" "range_ok (range_lock 3 F_RDLCK 0 9)"
    "fl_type (range_lock 3 F_RDLCK 0 9) \<in> {F_RDLCK, F_WRLCK, F_UNLCK}" by (simp_all add: range_ok_def OFFSET_MAX_def)
  note ok = one_lock_ok [OF r]
  have b: "seek_base example_file (l64_whence ?l) = Inr 0" "0 \<le> sint (0 :: u64)"
    by (simp_all add: seek_base_def example_flock64_def)
  have q: "0 \<notin> in_chains ?st" using ok(2) by (simp add: request_ok_def)
  have ino: "f_inode example_file = 0" by (simp add: example_file_def)
  obtain st' res where run: "posix_lock_file (f_inode example_file) 7 0 (Some 5) (Some 6) (upd_lock 0 (\<lambda>_. f) ?st) = (st', res)"
    by (metis surj_pair)
  have "res = Lock_Error EAGAIN"
    using fcntl_getlk64_predicts_setlk [OF ok(1) f b l'(1) q ok(3) run] l'(2) by (simp add: lock_consts)
  then show ?thesis using f l' run ino by auto
qed

section \<open>Where the code goes wrong\<close>

text \<open>
  The 32-bit call computes with the file position cut to 32 bits: a lock relative to a position
  beyond 4 GiB is set on other bytes than the caller asked for, without an error.
\<close>

theorem flock_to_posix_lock_truncates:
  "map_sum id (\<lambda>f. (fl_start f, fl_end f))
     (flock_to_posix_lock (example_file\<lparr>f_pos := 2 ^ 32 + 5\<rparr>) (Files 3) 7 locks_init_lock_always
       \<lparr>l_type = ucast F_WRLCK, l_whence = SEEK_CUR, l_start = 0, l_len = 10, l_pid = 0\<rparr>) = Inr (5, 14)"
  by code_simp

text \<open>
  The check that a lock fits the 32-bit structure admits the range from 0 to \<^verbatim>\<open>OFFT_OFFSET_MAX\<close>, whose
  length does not fit: user space is told a negative length.
\<close>

theorem posix_lock_to_flock_overflows:
  "map_sum id (\<lambda>l. (sint (l_start l), sint (l_len l)))
     (posix_lock_to_flock \<lparr>l_type = 0, l_whence = 0, l_start = 0, l_len = 0, l_pid = 0\<rparr>
       (range_lock 3 F_WRLCK 0 OFFT_OFFSET_MAX)) = Inr (0, - (2 ^ 31))"
  by code_simp

text \<open>
  Truncating a file checks an area whose length is cut to 32 bits: a file of 4 GiB whose first ten
  bytes another process has locked, with mandatory locking, can be truncated to nothing.
\<close>

theorem truncate_misses_mandatory_lock:
  "map_option snd (locks_verify_truncate True S_ISGID (2 ^ 32) 0 (Files 4) 7 None 0 4 []
     (one_lock (range_lock 3 F_RDLCK 0 9))) = Some (Inr ()) \<and>
   map_option snd (locks_verify_truncate True S_ISGID (2 ^ 32 - 1) 0 (Files 4) 7 None 0 4 []
     (one_lock (range_lock 3 F_RDLCK 0 9))) = Some (Inl EAGAIN)"
  by code_simp

text \<open>
  The checks for the NFS server never miss a lock of the area, but they count one byte too many: a
  lock that begins right behind the area forbids the access.
\<close>

lemma lock_may_read_safe:
  assumes inv: "lock_inv st" and may: "lock_may_read ino start len st"
    and b: "sint start \<le> b" "b < sint start + uint len" and no_wrap: "sint start + uint len < 2 ^ 63"
  shows "held st ino o' b \<noteq> Some F_WRLCK"
proof
  assume "held st ino o' b = Some F_WRLCK"
  then obtain a where a: "a \<in> set (i_flock st ino)" "IS_POSIX (mem st a)" "covers (mem st a) b" "fl_type (mem st a) = F_WRLCK"
    using held_iff [OF inv] by blast
  have "sint (ucast len :: u64) = uint len"
    using sint_uint [of "ucast len :: u64"] uint_lt2p [of len] signed_take_bit_int_eq_self [of 63 "uint len"] uint_ge_0 [of len]
    by (simp add: uint_up_ucast is_up)
  moreover have "- (2 ^ 63) \<le> sint start + uint len" using sint64_range(1) [of start] uint_ge_0 [of len] by linarith
  ultimately have "sint (start + ucast len) = sint start + uint len"
    using no_wrap by (simp add: sint64_arith wrap64_id)
  then show False using may a b by (auto simp: lock_may_read_def Let_def covers_def lock_consts)
qed

theorem lock_may_read_one_byte_too_many:
  "\<not> lock_may_read 0 0 10 (locked_state (range_lock 3 F_WRLCK 10 20)) \<and>
   held (locked_state (range_lock 3 F_WRLCK 10 20)) 0 (Files 3, 0) 9 = None"
proof
  show "\<not> lock_may_read 0 0 10 (locked_state (range_lock 3 F_WRLCK 10 20))"
    by (simp add: lock_may_read_def locked_state_facts lock_types copy_lock_kind)
       (simp add: locks_copy_lock_def copy_lock_fields_def lock_consts)
  show "held (locked_state (range_lock 3 F_WRLCK 10 20)) 0 (Files 3, 0) 9 = None" by code_simp
qed

end
