(* ===== verification/Io_Resource.thy ===== *)
theory Io_Resource
  imports Kernel_Prelude
begin

text \<open>
  The resource trees of \<^verbatim>\<open>kernel/resource.c\<close>: which part of the I/O port or memory space belongs to whom. Requesting,
  releasing, allocating, inserting, adjusting and reserving resources, the busy regions of drivers with
  their waiting for muxed regions, and the questions about the memory map. Addresses and \<^verbatim>\<open>unsigned long\<close> are 32 bits
  wide.
\<close>

section \<open>Resources\<close>

text \<open>
  \<^verbatim>\<open>struct resource\<close> as a tree: \<open>r_child\<close> is the chain of \<^verbatim>\<open>sibling\<close> pointers that starts at \<^verbatim>\<open>child\<close>, and the
  \<^verbatim>\<open>parent\<close> pointer is the position in the tree. \<open>r_id\<close> is the address of the structure, which the code
  compares. Addresses are 32 bits wide.
\<close>

datatype resource = Resource (r_id: nat) (r_start: u32) (r_end: u32) (r_name: string) (r_flags: u32)
  (r_child: "resource list")

definition set_children :: "resource list \<Rightarrow> resource \<Rightarrow> resource" where
  "set_children cs r = Resource (r_id r) (r_start r) (r_end r) (r_name r) (r_flags r) cs"

definition set_range_res :: "u32 \<Rightarrow> u32 \<Rightarrow> resource \<Rightarrow> resource" where
  "set_range_res s e r = Resource (r_id r) s e (r_name r) (r_flags r) (r_child r)"

lemma set_sel [simp]:
  "r_id (set_children cs r) = r_id r" "r_start (set_children cs r) = r_start r" "r_end (set_children cs r) = r_end r"
  "r_name (set_children cs r) = r_name r" "r_flags (set_children cs r) = r_flags r" "r_child (set_children cs r) = cs"
  "r_id (set_range_res s e r) = r_id r" "r_start (set_range_res s e r) = s" "r_end (set_range_res s e r) = e"
  "r_name (set_range_res s e r) = r_name r" "r_flags (set_range_res s e r) = r_flags r"
  "r_child (set_range_res s e r) = r_child r"
  by (simp_all add: set_children_def set_range_res_def)

lemma child_size [termination_simp]: "c \<in> set (r_child r) \<Longrightarrow> size c < size r"
  by (cases r) (auto dest: size_list_estimation' [where f = size and y = "size c"] simp: less_Suc_eq_le)

definition IORESOURCE_MEM :: u32 where "IORESOURCE_MEM = 0x200"
definition IORESOURCE_SIZEALIGN :: u32 where "IORESOURCE_SIZEALIGN = 0x40000"
definition IORESOURCE_STARTALIGN :: u32 where "IORESOURCE_STARTALIGN = 0x80000"
definition IORESOURCE_MUXED :: u32 where "IORESOURCE_MUXED = 0x400000"
definition IORESOURCE_EXCLUSIVE :: u32 where "IORESOURCE_EXCLUSIVE = 0x8000000"
definition IORESOURCE_BUSY :: u32 where "IORESOURCE_BUSY = 0x80000000"

definition resource_size :: "resource \<Rightarrow> u32" where
  "resource_size res = r_end res - r_start res + 1"

section \<open>Requesting and releasing\<close>

text \<open>The loop over the children: the new list, or the child that is in the way.\<close>

fun request_loop :: "resource \<Rightarrow> resource list \<Rightarrow> resource + resource list" where
  "request_loop new [] = Inr [new]"
| "request_loop new (tmp # cs) =
     (if r_start tmp > r_end new then Inr (new # tmp # cs)
      else if r_end tmp < r_start new then map_sum id ((#) tmp) (request_loop new cs)
      else Inl tmp)"

definition request_resource_conflict :: "resource \<Rightarrow> resource \<Rightarrow> resource + resource" where
  "request_resource_conflict root new =
     (if r_end new < r_start new then Inl root
      else if r_start new < r_start root then Inl root
      else if r_end new > r_end root then Inl root
      else map_sum id (\<lambda>cs. set_children cs root) (request_loop new (r_child root)))"

definition request_resource :: "resource \<Rightarrow> resource \<Rightarrow> resource result" where
  "request_resource root new = map_sum (\<lambda>_. EBUSY) id (request_resource_conflict root new)"

fun release_loop :: "nat \<Rightarrow> resource list \<Rightarrow> resource list option" where
  "release_loop old [] = None"
| "release_loop old (tmp # cs) = (if r_id tmp = old then Some cs else map_option ((#) tmp) (release_loop old cs))"

definition release_resource :: "nat \<Rightarrow> resource \<Rightarrow> resource result" where
  "release_resource old parent =
     (case release_loop old (r_child parent) of
        None \<Rightarrow> Inl EINVAL
      | Some cs \<Rightarrow> Inr (set_children cs parent))"

text \<open>All resources below one become free-standing, with their size kept; the result is what they become.\<close>

fun release_child_resources :: "resource \<Rightarrow> resource list" where
  "release_child_resources (Resource i s e n f cs) =
     concat (map (\<lambda>tmp. release_child_resources tmp @
       [set_children [] (set_range_res 0 (resource_size tmp - 1) tmp)]) cs)"

section \<open>Finding a free range\<close>

text \<open>\<open>old\<close> is the resource that is being moved, whose own range counts as free.\<close>

record resource_constraint =
  c_min :: u32
  c_max :: u32
  c_align :: u32
  alignf :: "u32 \<Rightarrow> u32 \<Rightarrow> u32 \<Rightarrow> u32 \<Rightarrow> u32"

definition ALIGN :: "u32 \<Rightarrow> u32 \<Rightarrow> u32" where
  "ALIGN x a = (x + (a - 1)) AND NOT (a - 1)"

definition simple_align_resource :: "u32 \<Rightarrow> u32 \<Rightarrow> u32 \<Rightarrow> u32 \<Rightarrow> u32" where
  "simple_align_resource avail_start avail_end sz align = avail_start"

text \<open>One gap, from \<open>start\<close> to \<open>end'\<close>, clipped to the constraint: the place for the resource in it, if there is one.\<close>

definition fit_gap :: "u32 \<Rightarrow> u32 \<Rightarrow> u32 \<Rightarrow> resource_constraint \<Rightarrow> (u32 \<times> u32) option" where
  "fit_gap start end' sz c =
     (let avail_start = ALIGN start (c_align c);
          alloc_start = alignf c avail_start end' sz (c_align c);
          alloc_end = alloc_start + sz - 1
      in if avail_start \<ge> start \<and> avail_start \<le> alloc_start \<and> end' \<ge> alloc_end then Some (alloc_start, alloc_end)
         else None)"

fun find_loop :: "u32 \<Rightarrow> nat option \<Rightarrow> u32 \<Rightarrow> resource_constraint \<Rightarrow> u32 \<Rightarrow> resource list \<Rightarrow> (u32 \<times> u32) option" where
  "find_loop root_end old sz c tmp_start [] =
     fit_gap (if tmp_start < c_min c then c_min c else tmp_start) (if root_end > c_max c then c_max c else root_end) sz c"
| "find_loop root_end old sz c tmp_start (this # cs) =
     (let tmp_end = (if Some (r_id this) = old then r_end this else r_start this - 1);
          clip_start = (if tmp_start < c_min c then c_min c else tmp_start);
          clip_end = (if tmp_end > c_max c then c_max c else tmp_end)
      in case fit_gap clip_start clip_end sz c of
           Some r \<Rightarrow> Some r
         | None \<Rightarrow> find_loop root_end old sz c (if Some (r_id this) \<noteq> old then r_end this + 1 else clip_start) cs)"

definition find_resource :: "resource \<Rightarrow> nat option \<Rightarrow> u32 \<Rightarrow> resource_constraint \<Rightarrow> (u32 \<times> u32) option" where
  "find_resource root old sz c =
     (case r_child root of
        this # cs \<Rightarrow>
          if r_start this = r_start root
          then find_loop (r_end root) old sz c (if Some (r_id this) = old then r_start this else r_end this + 1) cs
          else find_loop (r_end root) old sz c (r_start root) (this # cs)
      | [] \<Rightarrow> find_loop (r_end root) old sz c (r_start root) [])"

definition resource_contains :: "u32 \<times> u32 \<Rightarrow> u32 \<times> u32 \<Rightarrow> bool" where
  "resource_contains = (\<lambda>(s1, e1) (s2, e2). s1 \<le> s2 \<and> e1 \<ge> e2)"

text \<open>Changing one child in place.\<close>

definition map_child :: "nat \<Rightarrow> (resource \<Rightarrow> resource) \<Rightarrow> resource \<Rightarrow> resource" where
  "map_child i f r = set_children (map (\<lambda>c. if r_id c = i then f c else c) (r_child r)) r"

definition child_of :: "nat \<Rightarrow> resource \<Rightarrow> resource option" where
  "child_of i r = find (\<lambda>c. r_id c = i) (r_child r)"

text \<open>
  Moving or resizing the child \<open>old\<close> of \<open>root\<close>. The kernel stops (\<^const>\<open>None\<close>) if the place that was found
  is not free.
\<close>

definition reallocate_resource :: "resource \<Rightarrow> resource \<Rightarrow> u32 \<Rightarrow> resource_constraint \<Rightarrow> resource result option" where
  "reallocate_resource root old newsize c =
     (case find_resource root (Some (r_id old)) newsize c of
        None \<Rightarrow> Some (Inl EBUSY)
      | Some (s, e) \<Rightarrow>
          if resource_contains (s, e) (r_start old, r_end old)
          then Some (Inr (map_child (r_id old) (set_range_res s e) root))
          else if r_child old \<noteq> [] then Some (Inl EBUSY)
          else if resource_contains (r_start old, r_end old) (s, e)
          then Some (Inr (map_child (r_id old) (set_range_res s e) root))
          else
            let root = (case release_resource (r_id old) root of Inl _ \<Rightarrow> root | Inr r \<Rightarrow> r) in
            (case request_resource_conflict root (set_range_res s e old) of
               Inl conflict \<Rightarrow> None
             | Inr root \<Rightarrow> Some (Inr root)))"

text \<open>A resource that has a parent is reallocated; here it is a child of \<open>root\<close>.\<close>

definition allocate_resource :: "resource \<Rightarrow> resource \<Rightarrow> bool \<Rightarrow> u32 \<Rightarrow> u32 \<Rightarrow> u32 \<Rightarrow> u32 \<Rightarrow>
    (u32 \<Rightarrow> u32 \<Rightarrow> u32 \<Rightarrow> u32 \<Rightarrow> u32) option \<Rightarrow> resource result option" where
  "allocate_resource root new has_parent sz min' max' align alignf' =
     (let c = \<lparr>c_min = min', c_max = max', c_align = align,
               alignf = (case alignf' of None \<Rightarrow> simple_align_resource | Some f \<Rightarrow> f)\<rparr> in
      if has_parent then reallocate_resource root new sz c
      else case find_resource root None sz c of
             None \<Rightarrow> Some (Inl EBUSY)
           | Some (s, e) \<Rightarrow>
               (case request_resource_conflict root (set_range_res s e new) of
                  Inl conflict \<Rightarrow> Some (Inl EBUSY)
                | Inr root \<Rightarrow> Some (Inr root)))"

section \<open>Inserting around others\<close>

text \<open>
  The children that \<open>new\<close> would cover, from the first one in the way: \<open>Inl\<close> the one that only
  overlaps, or \<open>Inr\<close> those covered and those behind.
\<close>

fun covered_children :: "resource \<Rightarrow> resource list \<Rightarrow> resource + resource list \<times> resource list" where
  "covered_children new [] = Inr ([], [])"
| "covered_children new (next # cs) =
     (if r_start next < r_start new \<or> r_end next > r_end new then Inl next
      else case cs of
             [] \<Rightarrow> Inr ([next], [])
           | sibling # _ \<Rightarrow>
               if r_start sibling > r_end new then Inr ([next], cs)
               else map_sum id (map_prod ((#) next) id) (covered_children new cs))"

definition adopt :: "resource \<Rightarrow> nat \<Rightarrow> resource \<Rightarrow> resource + resource" where
  "adopt parent first new =
     (let pre = takeWhile (\<lambda>c. r_id c \<noteq> first) (r_child parent);
          rest = dropWhile (\<lambda>c. r_id c \<noteq> first) (r_child parent)
      in map_sum id (\<lambda>(inside, behind). set_children (pre @ set_children inside new # behind) parent)
           (covered_children new rest))"

text \<open>A conflict is the node that \<^verbatim>\<open>__insert_resource\<close> returns; else the result is the new tree.\<close>

lemma request_conflict_child:
  "request_resource_conflict root new = Inl first \<Longrightarrow> first = root \<or> first \<in> set (r_child root)"
proof -
  have "request_loop new cs = Inl first \<Longrightarrow> first \<in> set cs" for cs
  proof (induction cs)
    case (Cons tmp cs)
    then show ?case by (cases "request_loop new cs") (auto split: if_splits)
  qed simp
  then show "request_resource_conflict root new = Inl first \<Longrightarrow> first = root \<or> first \<in> set (r_child root)"
    by (cases "request_loop new (r_child root)") (auto simp: request_resource_conflict_def split: if_splits)
qed

function insert_resource_conflict :: "resource \<Rightarrow> resource \<Rightarrow> resource + resource" where
  "insert_resource_conflict parent new =
     (case request_resource_conflict parent new of
        Inr parent \<Rightarrow> Inr parent
      | Inl first \<Rightarrow>
          if r_id first = r_id parent then Inl first
          else if r_id first = r_id new then Inl first
          else if r_start first > r_start new \<or> r_end first < r_end new \<or>
                  r_start first = r_start new \<and> r_end first = r_end new
          then adopt parent (r_id first) new
          else map_sum id (\<lambda>first'. map_child (r_id first) (\<lambda>_. first') parent) (insert_resource_conflict first new))"
  by pat_completeness auto
termination
  by (relation "measure (\<lambda>(parent, new). size parent)") (auto dest: request_conflict_child child_size)

declare insert_resource_conflict.simps [simp del]

definition insert_resource :: "resource \<Rightarrow> resource \<Rightarrow> resource result" where
  "insert_resource parent new = map_sum (\<lambda>_. EBUSY) id (insert_resource_conflict parent new)"

text \<open>
  The result is the tree and the resource as it was inserted; \<open>has_parent\<close> says that it already is in a tree.
  The loop might not end, which is \<^const>\<open>None\<close>.
\<close>

partial_function (option) expand_loop :: "resource \<Rightarrow> resource \<Rightarrow> (resource \<times> resource) option" where
  [code]: "expand_loop root new =
     (case insert_resource_conflict root new of
        Inr root \<Rightarrow> Some (root, new)
      | Inl conflict \<Rightarrow>
          if r_id conflict = r_id root then Some (root, new)
          else expand_loop root
                 (set_range_res (if r_start conflict < r_start new then r_start conflict else r_start new)
                    (if r_end conflict > r_end new then r_end conflict else r_end new) new))"

definition insert_resource_expand_to_fit :: "resource \<Rightarrow> resource \<Rightarrow> bool \<Rightarrow> (resource \<times> resource) option" where
  "insert_resource_expand_to_fit root new has_parent =
     (if has_parent then Some (root, new) else expand_loop root new)"

section \<open>Adjusting\<close>

text \<open>The neighbour in front of a child, and the one behind it.\<close>

fun neighbours :: "nat \<Rightarrow> resource option \<Rightarrow> resource list \<Rightarrow> (resource option \<times> resource \<times> resource option) option" where
  "neighbours i prev [] = None"
| "neighbours i prev (c # cs) =
     (if r_id c = i then Some (prev, c, case cs of [] \<Rightarrow> None | d # _ \<Rightarrow> Some d) else neighbours i (Some c) cs)"

definition adjust_resource :: "nat \<Rightarrow> u32 \<Rightarrow> u32 \<Rightarrow> resource \<Rightarrow> resource result option" where
  "adjust_resource res start sz parent =
     (case neighbours res None (r_child parent) of
        None \<Rightarrow> None
      | Some (prev, r, sibling) \<Rightarrow>
          let end' = start + sz - 1 in
          if start < r_start parent \<or> end' > r_end parent then Some (Inl EBUSY)
          else if \<exists>tmp\<in>set (r_child r). r_start tmp < start \<or> r_end tmp > end' then Some (Inl EBUSY)
          else if (case sibling of None \<Rightarrow> False | Some s \<Rightarrow> r_start s \<le> end') then Some (Inl EBUSY)
          else if (case prev of None \<Rightarrow> False | Some p \<Rightarrow> start \<le> r_end p) then Some (Inl EBUSY)
          else Some (Inr (map_child res (set_range_res start end') parent)))"

section \<open>Reserving around others\<close>

text \<open>
  \<open>alloc n\<close> is the result of allocation number \<open>n\<close>; the result is the tree and the number of the next
  allocation, or \<^const>\<open>None\<close> if the recursion never ends.
\<close>

partial_function (option) reserve_region_with_split ::
  "(nat \<Rightarrow> nat option) \<Rightarrow> string \<Rightarrow> nat \<Rightarrow> resource \<Rightarrow> u32 \<Rightarrow> u32 \<Rightarrow> (resource \<times> nat) option" where
  [code]: "reserve_region_with_split alloc name n root start end' =
     (case alloc n of
        None \<Rightarrow> Some (root, Suc n)
      | Some res \<Rightarrow>
          (case request_resource_conflict root (Resource res start end' name IORESOURCE_BUSY []) of
             Inr root \<Rightarrow> Some (root, Suc n)
           | Inl conflict \<Rightarrow>
               if r_start conflict \<le> start \<and> r_end conflict \<ge> end' then Some (root, Suc n)
               else Option.bind
                 (if r_start conflict > start
                  then reserve_region_with_split alloc name (Suc n) root start (r_start conflict - 1)
                  else Some (root, Suc n))
                 (\<lambda>(root, n).
                    if r_end conflict < end'
                    then reserve_region_with_split alloc name n root (r_end conflict + 1) end'
                    else Some (root, n))))"

section \<open>Busy regions\<close>

definition resource_alignment :: "resource \<Rightarrow> u32" where
  "resource_alignment res =
     (let k = r_flags res AND (IORESOURCE_SIZEALIGN OR IORESOURCE_STARTALIGN) in
      if k = IORESOURCE_SIZEALIGN then resource_size res
      else if k = IORESOURCE_STARTALIGN then r_start res
      else 0)"

text \<open>
  The loop of \<^verbatim>\<open>__request_region\<close> until it leaves or sleeps. A muxed region in the way is waited for; \<open>Asleep\<close> holds
  the address of the region that the loop goes on with after the sleep.
\<close>

datatype region_turn = Placed resource | Asleep nat | Refused

definition rebuild :: "nat \<Rightarrow> resource \<Rightarrow> region_turn \<Rightarrow> region_turn" where
  "rebuild i parent t = (case t of Placed c \<Rightarrow> Placed (map_child i (\<lambda>_. c) parent) | _ \<Rightarrow> t)"

function region_loop :: "resource \<Rightarrow> resource \<Rightarrow> u32 \<Rightarrow> region_turn" where
  "region_loop parent res flags =
     (case request_resource_conflict parent res of
        Inr parent \<Rightarrow> Placed parent
      | Inl conflict \<Rightarrow>
          if r_id conflict \<noteq> r_id parent \<and> r_flags conflict AND IORESOURCE_BUSY = 0
          then rebuild (r_id conflict) parent (region_loop conflict res flags)
          else if r_flags conflict AND flags AND IORESOURCE_MUXED \<noteq> 0 then Asleep (r_id conflict)
          else Refused)"
  by pat_completeness auto
termination
  by (relation "measure (\<lambda>(parent, res, flags). size parent)") (auto dest: request_conflict_child child_size)

declare region_loop.simps [simp del]

text \<open>The resource at an address, and a change of it.\<close>

fun find_node :: "nat \<Rightarrow> resource \<Rightarrow> resource option" and find_nodes :: "nat \<Rightarrow> resource list \<Rightarrow> resource option" where
  "find_node i (Resource j s e n f cs) = (if i = j then Some (Resource j s e n f cs) else find_nodes i cs)"
| "find_nodes i [] = None"
| "find_nodes i (c # cs) = (case find_node i c of Some r \<Rightarrow> Some r | None \<Rightarrow> find_nodes i cs)"

fun update_node :: "nat \<Rightarrow> resource \<Rightarrow> resource \<Rightarrow> resource" where
  "update_node i r (Resource j s e n f cs) =
     (if i = j then r else Resource j s e n f (map (update_node i r) cs))"

text \<open>
  \<^verbatim>\<open>__request_region\<close>. During a sleep other tasks change the tree: \<open>naps\<close> are the trees found after each
  sleep. \<open>Region_freed\<close> is an access to a resource that no longer exists.
\<close>

datatype region_result = Region resource | Region_null resource | Region_waits nat resource | Region_freed

fun request_region_loop :: "nat \<Rightarrow> resource \<Rightarrow> resource \<Rightarrow> u32 \<Rightarrow> resource list \<Rightarrow> region_result" where
  "request_region_loop parent root res flags naps =
     (case find_node parent root of
        None \<Rightarrow> Region_freed
      | Some p \<Rightarrow>
          (case region_loop p res flags of
             Placed p \<Rightarrow> Region (update_node parent p root)
           | Refused \<Rightarrow> Region_null root
           | Asleep conflict \<Rightarrow>
               (case naps of
                  [] \<Rightarrow> Region_waits conflict root
                | root # naps \<Rightarrow> request_region_loop conflict root res flags naps)))"

declare request_region_loop.simps [simp del]

definition request_region :: "nat option \<Rightarrow> nat \<Rightarrow> u32 \<Rightarrow> u32 \<Rightarrow> string \<Rightarrow> u32 \<Rightarrow> resource \<Rightarrow> resource list \<Rightarrow> region_result" where
  "request_region alloc parent start n name flags root naps =
     (case alloc of
        None \<Rightarrow> Region_null root
      | Some res \<Rightarrow>
          request_region_loop parent root (Resource res start (start + n - 1) name (IORESOURCE_BUSY OR flags) []) flags naps)"

text \<open>\<^verbatim>\<open>__check_region\<close>: the region is created and removed again.\<close>

fun remove_node :: "nat \<Rightarrow> resource \<Rightarrow> resource" where
  "remove_node i (Resource j s e n f cs) = Resource j s e n f (map (remove_node i) (filter (\<lambda>c. r_id c \<noteq> i) cs))"

definition check_region :: "nat option \<Rightarrow> nat \<Rightarrow> u32 \<Rightarrow> u32 \<Rightarrow> resource \<Rightarrow> resource \<times> unit result" where
  "check_region alloc parent start n root =
     (case request_region alloc parent start n ''check-region'' 0 root [] of
        Region root' \<Rightarrow> (case alloc of None \<Rightarrow> (root', Inr ()) | Some res \<Rightarrow> (remove_node res root', Inr ()))
      | _ \<Rightarrow> (root, Inl EBUSY))"

fun release_region_loop :: "u32 \<Rightarrow> u32 \<Rightarrow> resource list \<Rightarrow> resource list option" where
  "release_region_loop start end' [] = None"
| "release_region_loop start end' (Resource i s e n f cs # rs) =
     (if s \<le> start \<and> e \<ge> end' then
        if f AND IORESOURCE_BUSY = 0
        then map_option (\<lambda>cs. Resource i s e n f cs # rs) (release_region_loop start end' cs)
        else if s \<noteq> start \<or> e \<noteq> end' then None
        else Some rs
      else map_option ((#) (Resource i s e n f cs)) (release_region_loop start end' rs))"

text \<open>\<^const>\<open>None\<close> is the complaint about a region that does not exist.\<close>

definition release_region :: "resource \<Rightarrow> u32 \<Rightarrow> u32 \<Rightarrow> resource option" where
  "release_region parent start n =
     map_option (\<lambda>cs. set_children cs parent) (release_region_loop start (start + n - 1) (r_child parent))"

section \<open>Questions about the memory map\<close>

text \<open>The order in which \<^verbatim>\<open>r_next\<close> goes through a tree: a resource, the ones below it, its sibling.\<close>

fun walk :: "resource list \<Rightarrow> resource list" where
  "walk [] = []"
| "walk (Resource i s e n f cs # rs) = Resource i s e n f cs # walk cs @ walk rs"

definition PAGE_SHIFT :: nat where "PAGE_SHIFT = 12"
definition PAGE_MASK :: u32 where "PAGE_MASK = NOT (2 ^ PAGE_SHIFT - 1)"
definition PFN_DOWN :: "u32 \<Rightarrow> u32" where "PFN_DOWN x = drop_bit PAGE_SHIFT x"

definition iomem_map_sanity_check :: "resource \<Rightarrow> u32 \<Rightarrow> u32 \<Rightarrow> bool" where
  "iomem_map_sanity_check iomem_resource addr sz =
     (\<not> (\<exists>p\<in>set (walk (r_child iomem_resource)).
          \<not> (r_start p \<ge> addr + sz) \<and> \<not> (r_end p < addr) \<and>
          \<not> (PFN_DOWN (r_start p) \<le> PFN_DOWN addr \<and> PFN_DOWN (r_end p) \<ge> PFN_DOWN (addr + sz - 1)) \<and>
          r_flags p AND IORESOURCE_BUSY = 0))"

text \<open>\<open>strict_iomem_checks\<close> is the configuration.\<close>

fun exclusive_loop :: "u64 \<Rightarrow> resource list \<Rightarrow> bool" where
  "exclusive_loop addr [] = False"
| "exclusive_loop addr (p # ps) =
     (if ucast (r_start p) \<ge> addr + 2 ^ PAGE_SHIFT then False
      else if ucast (r_end p) < addr then exclusive_loop addr ps
      else if r_flags p AND IORESOURCE_BUSY \<noteq> 0 \<and> r_flags p AND IORESOURCE_EXCLUSIVE \<noteq> 0 then True
      else exclusive_loop addr ps)"

definition iomem_is_exclusive :: "bool \<Rightarrow> resource \<Rightarrow> u64 \<Rightarrow> bool" where
  "iomem_is_exclusive strict_iomem_checks iomem_resource addr =
     (strict_iomem_checks \<and>
      exclusive_loop (addr AND ucast PAGE_MASK) (walk (r_child iomem_resource)))"

text \<open>The first system memory in a range, cut to the range.\<close>

fun ram_loop :: "u32 \<Rightarrow> u32 \<Rightarrow> u32 \<Rightarrow> string option \<Rightarrow> resource list \<Rightarrow> resource option" where
  "ram_loop start end' flags name [] = None"
| "ram_loop start end' flags name (p # ps) =
     (if r_flags p \<noteq> flags then ram_loop start end' flags name ps
      else if (case name of None \<Rightarrow> False | Some n \<Rightarrow> r_name p \<noteq> n) then ram_loop start end' flags name ps
      else if r_start p > end' then None
      else if r_end p \<ge> start \<and> r_start p < end' then Some p
      else ram_loop start end' flags name ps)"

definition find_next_system_ram :: "resource \<Rightarrow> u32 \<Rightarrow> u32 \<Rightarrow> u32 \<Rightarrow> string option \<Rightarrow> (u32 \<times> u32) option" where
  "find_next_system_ram iomem_resource start end' flags name =
     map_option (\<lambda>p. (if start < r_start p then r_start p else start, if end' > r_end p then r_end p else end'))
       (ram_loop start end' flags name (r_child iomem_resource))"

text \<open>
  \<open>func\<close> is the callback, on its own state. The result is that state and the value returned; \<^const>\<open>None\<close> if the
  walk never ends.
\<close>

partial_function (option) walk_ram_loop ::
  "(u32 \<Rightarrow> u32 \<Rightarrow> 's \<Rightarrow> 's \<times> int) \<Rightarrow> resource \<Rightarrow> u32 \<Rightarrow> u32 \<Rightarrow> 's \<Rightarrow> int \<Rightarrow> ('s \<times> int) option" where
  [code]: "walk_ram_loop func iomem_resource orig_end start st ret =
     (case (if start < orig_end
            then find_next_system_ram iomem_resource start orig_end (IORESOURCE_MEM OR IORESOURCE_BUSY)
                   (Some ''System RAM'')
            else None) of
        None \<Rightarrow> Some (st, ret)
      | Some (s, e) \<Rightarrow>
          let pfn = drop_bit PAGE_SHIFT (s + 2 ^ PAGE_SHIFT - 1);
              end_pfn = drop_bit PAGE_SHIFT (e + 1);
              (st, ret) = (if end_pfn > pfn then func pfn (end_pfn - pfn) st else (st, ret))
          in if ret \<noteq> 0 then Some (st, ret)
             else walk_ram_loop func iomem_resource orig_end (e + 1) st ret)"

definition walk_system_ram_range ::
  "(u32 \<Rightarrow> u32 \<Rightarrow> 's \<Rightarrow> 's \<times> int) \<Rightarrow> resource \<Rightarrow> u32 \<Rightarrow> u32 \<Rightarrow> 's \<Rightarrow> ('s \<times> int) option" where
  "walk_system_ram_range func iomem_resource start_pfn nr_pages st =
     walk_ram_loop func iomem_resource (ucast (push_bit PAGE_SHIFT (ucast (start_pfn + nr_pages)) - 1 :: u64))
       (ucast (push_bit PAGE_SHIFT (ucast start_pfn) :: u64)) st (- 1)"

definition page_is_ram :: "resource \<Rightarrow> u32 \<Rightarrow> bool option" where
  "page_is_ram iomem_resource pfn =
     map_option (\<lambda>(_, ret). ret = 1) (walk_system_ram_range (\<lambda>_ _ st. (st, 1)) iomem_resource pfn 1 ())"

end
