(* ===== verification/Resource_Tree.thy ===== *)
theory Resource_Tree
  imports Io_Resource
begin

text \<open>
  The resource trees stay well-formed under all operations. Requests, insertions and region requests succeed
  exactly when the tree allows it, an allocation finds the lowest place that fits, reserving ends and covers its
  range, and the test for system memory is exact. At the end, the inputs on which the code goes wrong.
\<close>

section \<open>Well-formed trees\<close>

definition before :: "resource \<Rightarrow> resource \<Rightarrow> bool" where
  "before a b \<longleftrightarrow> r_end a < r_start b"

definition inside :: "resource \<Rightarrow> resource \<Rightarrow> bool" where
  "inside a b \<longleftrightarrow> r_start b \<le> r_start a \<and> r_end a \<le> r_end b"

definition overlaps :: "resource \<Rightarrow> resource \<Rightarrow> bool" where
  "overlaps a b \<longleftrightarrow> r_start a \<le> r_end b \<and> r_start b \<le> r_end a"

definition chain_ok :: "resource list \<Rightarrow> bool" where
  "chain_ok cs \<longleftrightarrow> sorted_wrt before cs \<and> (\<forall>c\<in>set cs. r_start c \<le> r_end c)"

text \<open>Every range is non-empty, and the children of a resource are in order, disjoint and inside it.\<close>

fun wf_resource :: "resource \<Rightarrow> bool" where
  "wf_resource (Resource i s e n f cs) \<longleftrightarrow>
     s \<le> e \<and> chain_ok cs \<and> (\<forall>c\<in>set cs. s \<le> r_start c \<and> r_end c \<le> e) \<and> (\<forall>c\<in>set cs. wf_resource c)"

lemma wf_resource_iff:
  "wf_resource r \<longleftrightarrow> r_start r \<le> r_end r \<and> chain_ok (r_child r) \<and> (\<forall>c\<in>set (r_child r). inside c r \<and> wf_resource c)"
  by (cases r) (auto simp: inside_def)

lemma wf_child: "wf_resource r \<Longrightarrow> c \<in> set (r_child r) \<Longrightarrow> wf_resource c"
  and wf_child_inside: "wf_resource r \<Longrightarrow> c \<in> set (r_child r) \<Longrightarrow> inside c r"
  and wf_chain: "wf_resource r \<Longrightarrow> chain_ok (r_child r)"
  and wf_range: "wf_resource r \<Longrightarrow> r_start r \<le> r_end r"
  by (subst (asm) wf_resource_iff, simp)+

lemma chain_ok_Cons [simp]:
  "chain_ok (c # cs) \<longleftrightarrow> r_start c \<le> r_end c \<and> (\<forall>d\<in>set cs. before c d) \<and> chain_ok cs"
  by (auto simp: chain_ok_def)

lemma chain_ok_Nil [simp]: "chain_ok []"
  by (simp add: chain_ok_def)

lemma chain_ok_append:
  "chain_ok (as @ bs) \<longleftrightarrow> chain_ok as \<and> chain_ok bs \<and> (\<forall>a\<in>set as. \<forall>b\<in>set bs. before a b)"
  by (auto simp: chain_ok_def sorted_wrt_append)

lemma not_overlaps: "r_start a \<le> r_end a \<Longrightarrow> r_start b \<le> r_end b \<Longrightarrow> \<not> overlaps a b \<longleftrightarrow> before a b \<or> before b a"
  by (auto simp: overlaps_def before_def)

lemma overlaps_set_range [simp]:
  "before (set_children cs a) b = before a b" "before b (set_children cs a) = before b a"
  "inside (set_children cs a) b = inside a b" "inside b (set_children cs a) = inside b a"
  "overlaps (set_children cs a) b = overlaps a b" "overlaps b (set_children cs a) = overlaps b a"
  by (simp_all add: before_def inside_def overlaps_def)

lemma wf_set_children:
  "wf_resource (set_children cs r) \<longleftrightarrow>
     r_start r \<le> r_end r \<and> chain_ok cs \<and> (\<forall>c\<in>set cs. inside c r \<and> wf_resource c)"
  by (subst wf_resource_iff) simp

lemma set_children_self [simp]: "set_children (r_child r) r = r" "set_children cs (set_children ds r) = set_children cs r"
  by (cases r; simp add: set_children_def)+

section \<open>Requests\<close>

text \<open>A resource put into a chain at its place.\<close>

definition place :: "resource \<Rightarrow> resource list \<Rightarrow> resource list" where
  "place new cs = filter (\<lambda>c. before c new) cs @ new # filter (\<lambda>c. \<not> before c new) cs"

lemma mset_place: "mset (place new cs) = add_mset new (mset cs)"
  by (simp add: place_def)

lemma set_place [simp]: "set (place new cs) = insert new (set cs)"
  by (auto simp: place_def)

lemma chain_ok_place:
  assumes "chain_ok cs" "r_start new \<le> r_end new" "\<forall>c\<in>set cs. \<not> overlaps c new"
  shows "chain_ok (place new cs)"
proof -
  have "chain_ok (filter P cs)" for P
    using assms(1) by (auto simp: chain_ok_def sorted_wrt_filter)
  moreover have "before new c" if "c \<in> set cs" "\<not> before c new" for c
    using that assms by (auto simp: chain_ok_def not_overlaps)
  moreover have "before a b" if "before a new" "before new b" for a b
    using that assms(2) by (auto simp: before_def)
  ultimately show ?thesis using assms(2) by (auto simp: place_def chain_ok_append)
qed

lemma not_before:
  assumes "chain_ok (c # cs)" "before new c" "d \<in> set (c # cs)" "r_start new \<le> r_end new"
  shows "\<not> before d new \<and> \<not> overlaps d new"
proof -
  have "r_end new < r_start d" using assms by (auto simp: before_def)
  moreover have "r_start d \<le> r_end d" using assms(1,3) by (auto simp: chain_ok_def)
  ultimately show ?thesis using assms(4) by (auto simp: before_def overlaps_def)
qed

lemma request_loop_eq:
  "chain_ok cs \<Longrightarrow> r_start new \<le> r_end new \<Longrightarrow>
   request_loop new cs = (case find (\<lambda>c. overlaps c new) cs of Some c \<Rightarrow> Inl c | None \<Rightarrow> Inr (place new cs))"
proof (induction cs)
  case (Cons c cs)
  consider "before new c" | "before c new" | "overlaps c new"
    unfolding before_def overlaps_def by (metis not_le)
  then show ?case
  proof cases
    case 1
    note not_before [OF Cons.prems(1) 1 _ Cons.prems(2)]
    then have "find (\<lambda>c. overlaps c new) (c # cs) = None" "place new (c # cs) = new # c # cs"
      by (auto simp: find_None_iff place_def)
    then show ?thesis using 1 by (simp add: before_def)
  next
    case 2
    then have "\<not> overlaps c new" "\<not> r_end new < r_start c"
      using Cons.prems by (auto simp: before_def overlaps_def)
    then show ?thesis
      using 2 Cons by (auto simp: place_def split: option.split) (auto simp: before_def)
  next
    case 3
    then show ?thesis by (auto simp: overlaps_def)
  qed
qed (simp add: place_def)

lemma request_conflict_eq:
  assumes "wf_resource root"
  shows "request_resource_conflict root new =
    (if r_start new \<le> r_end new \<and> inside new root
     then case find (\<lambda>c. overlaps c new) (r_child root) of
            Some c \<Rightarrow> Inl c
          | None \<Rightarrow> Inr (set_children (place new (r_child root)) root)
     else Inl root)"
  using request_loop_eq [OF wf_chain [OF assms], of new]
  by (auto simp: request_resource_conflict_def inside_def not_less split: option.split)

lemma wf_place:
  assumes "wf_resource root" "wf_resource new" "inside new root" "\<forall>c\<in>set (r_child root). \<not> overlaps c new"
  shows "wf_resource (set_children (place new (r_child root)) root)"
  using assms chain_ok_place [OF wf_chain [OF assms(1)] wf_range [OF assms(2)] assms(4)]
  by (auto simp: wf_set_children wf_range wf_child wf_child_inside)

lemma release_place:
  "r_id new \<notin> r_id ` set cs \<Longrightarrow> chain_ok cs \<Longrightarrow> r_start new \<le> r_end new \<Longrightarrow>
   \<forall>c\<in>set cs. \<not> overlaps c new \<Longrightarrow> release_loop (r_id new) (place new cs) = Some cs"
proof (induction cs)
  case (Cons c cs)
  show ?case
  proof (cases "before c new")
    case True
    then have "place new (c # cs) = c # place new cs" by (simp add: place_def)
    then show ?thesis using Cons by (auto simp: chain_ok_def)
  next
    case False
    then have b: "before new c" using Cons.prems by (auto simp: not_overlaps)
    note not_before [OF Cons.prems(2) b _ Cons.prems(3)]
    then have "place new (c # cs) = new # c # cs" by (auto simp: place_def)
    then show ?thesis by simp
  qed
qed (simp add: place_def)

section \<open>Free addresses\<close>

definition range_of :: "resource \<Rightarrow> u32 set" where
  "range_of r = {r_start r..r_end r}"

definition free :: "resource \<Rightarrow> u32 set" where
  "free root = range_of root - (\<Union>c\<in>set (r_child root). range_of c)"

lemma inside_free_iff:
  assumes "wf_resource root" "r_start new \<le> r_end new"
  shows "inside new root \<and> (\<forall>c\<in>set (r_child root). \<not> overlaps c new) \<longleftrightarrow> range_of new \<subseteq> free root"
proof -
  have "overlaps c new \<longleftrightarrow> range_of new \<inter> range_of c \<noteq> {}" if "c \<in> set (r_child root)" for c
  proof
    assume "overlaps c new"
    then have "max (r_start c) (r_start new) \<in> range_of new \<inter> range_of c"
      using assms wf_range [OF wf_child [OF assms(1) that]] by (auto simp: overlaps_def range_of_def)
    then show "range_of new \<inter> range_of c \<noteq> {}" by blast
  qed (auto simp: range_of_def overlaps_def)
  moreover have "inside new root \<longleftrightarrow> range_of new \<subseteq> range_of root"
    using assms by (auto simp: inside_def range_of_def)
  ultimately show ?thesis by (auto simp: free_def)
qed

lemma request_free:
  assumes "wf_resource root"
  shows "request_resource_conflict root new = Inr r \<longleftrightarrow>
    r_start new \<le> r_end new \<and> range_of new \<subseteq> free root \<and> r = set_children (place new (r_child root)) root"
proof (cases "r_start new \<le> r_end new")
  case True
  show ?thesis
    using True inside_free_iff [OF assms True]
    by (auto simp: request_conflict_eq [OF assms] find_None_iff find_Some_iff split: option.split)
qed (simp add: request_conflict_eq [OF assms])

text \<open>
  C34: A request succeeds exactly if its range is non-empty, inside the root and disjoint from all children; then
  the new resource is at its place in the chain, the tree stays well-formed, and releasing it restores the tree.
\<close>

theorem request_resource_exact:
  assumes "wf_resource root" "wf_resource new" "r_id new \<notin> r_id ` set (r_child root)"
  shows "if range_of new \<subseteq> free root
    then \<exists>root'. request_resource root new = Inr root' \<and> root' = set_children (place new (r_child root)) root \<and>
           wf_resource root' \<and> release_resource (r_id new) root' = Inr root
    else request_resource root new = Inl EBUSY"
proof -
  note new = wf_range [OF assms(2)]
  have "request_resource root new =
      (if range_of new \<subseteq> free root then Inr (set_children (place new (r_child root)) root) else Inl EBUSY)"
    using request_free [OF assms(1), of new] new
    by (cases "request_resource_conflict root new") (auto simp: request_resource_def)
  then show ?thesis
    using wf_place [OF assms(1,2)] release_place [OF assms(3) wf_chain [OF assms(1)] new]
      inside_free_iff [OF assms(1) new]
    by (auto simp: release_resource_def)
qed

section \<open>Alignment\<close>

definition aligned :: "nat \<Rightarrow> u32 \<Rightarrow> bool" where
  "aligned k a \<longleftrightarrow> 2 ^ k dvd unat a"

lemma unat_and_not_mask: "unat (x AND NOT (mask k) :: u32) = unat x - unat x mod 2 ^ k"
proof -
  have "x AND NOT (mask k) = push_bit k (drop_bit k x)"
    by (rule bit_word_eqI) (auto simp: bit_simps)
  then have "x AND NOT (mask k) = x - take_bit k x"
    using bits_ident [of k x] by (simp add: eq_diff_eq)
  moreover have "unat (take_bit k x) = unat x mod 2 ^ k"
    by (simp add: unsigned_take_bit_eq flip: take_bit_eq_mod)
  moreover have "take_bit k x \<le> x"
    unfolding word_le_nat_alt calculation(2) by simp
  ultimately show ?thesis by (simp add: unat_sub)
qed

lemma ALIGN_eq: "ALIGN x (2 ^ k) = (x + mask k) AND NOT (mask k)"
  by (simp add: ALIGN_def mask_eq_exp_minus_1)

lemma aligned_ALIGN: "aligned k (ALIGN x (2 ^ k))"
  by (simp add: aligned_def ALIGN_eq unat_and_not_mask dvd_minus_mod)

lemma round_up_least:
  assumes "m dvd b" "x \<le> b" "0 < m"
  shows "(x + (m - 1)) - (x + (m - 1)) mod m \<le> (b::nat)"
proof -
  obtain q where q: "b = m * q" using assms(1) by blast
  have "(x + (m - 1)) div m \<le> (b + (m - 1)) div m" using assms(2) by (simp add: div_le_mono)
  also have "\<dots> = q" using assms(3) by (intro div_nat_eqI) (simp_all add: q)
  finally show ?thesis unfolding q minus_mod_eq_mult_div by (rule mult_le_mono2)
qed

text \<open>The next aligned address; it is below \<open>x\<close> only if there is none.\<close>

lemma ALIGN_least:
  assumes "k < 32" "aligned k b" "x \<le> b"
  shows "x \<le> ALIGN x (2 ^ k) \<and> ALIGN x (2 ^ k) \<le> b"
proof -
  have m: "unat (mask k :: u32) = 2 ^ k - 1"
    unfolding unat_eq_nat_uint uint_mask_eq nat_mask_eq using assms(1) by (simp add: mask_eq_exp_minus_1)
  have "unat b + 2 ^ k \<le> 2 ^ 32"
  proof -
    have d: "2 ^ k dvd (2 ^ 32 :: nat)" using assms(1) by (intro le_imp_power_dvd) simp
    have "2 ^ k dvd 2 ^ 32 - unat b" using d assms(2) unfolding aligned_def by (rule dvd_diff_nat)
    moreover have "0 < 2 ^ 32 - unat b" using unat_u32_less [of b] by simp
    ultimately have "2 ^ k \<le> 2 ^ 32 - unat b" by (rule dvd_imp_le)
    then show ?thesis using unat_u32_less [of b] by linarith
  qed
  moreover have x: "unat x \<le> unat b" using assms(3) by (simp add: word_le_nat_alt)
  ultimately have "unat (x + mask k) = unat x + (2 ^ k - 1)"
    by (subst unat_add_lem [THEN iffD1]) (simp_all add: m)
  then have "unat (ALIGN x (2 ^ k)) = unat x + (2 ^ k - 1) - (unat x + (2 ^ k - 1)) mod 2 ^ k"
    by (simp add: ALIGN_eq unat_and_not_mask)
  moreover have "unat x + (2 ^ k - 1) - (unat x + (2 ^ k - 1)) mod 2 ^ k \<le> unat b"
    using assms(2) x by (intro round_up_least) (simp_all add: aligned_def)
  moreover have "unat x \<le> unat x + (m - 1) - (unat x + (m - 1)) mod m" if "0 < m" for m
    using mod_less_divisor [OF that, of "unat x + (m - 1)"] by linarith
  ultimately show ?thesis by (simp add: word_le_nat_alt)
qed

section \<open>Finding a place\<close>

text \<open>An address at which \<open>sz\<close> bytes fit under the constraint: \<open>ok\<close> is the set of usable addresses.\<close>

definition fits :: "nat \<Rightarrow> u32 \<Rightarrow> u32 \<Rightarrow> u32 \<Rightarrow> u32 set \<Rightarrow> u32 \<Rightarrow> bool" where
  "fits k sz lo hi ok a \<longleftrightarrow>
     aligned k a \<and> unat a + unat sz \<le> 2 ^ 32 \<and> lo \<le> a \<and> a + sz - 1 \<le> hi \<and> {a..a + sz - 1} \<subseteq> ok"

lemma unat_last: "sz \<noteq> 0 \<Longrightarrow> unat a + unat sz \<le> 2 ^ 32 \<Longrightarrow> unat (a + sz - 1 :: u32) = unat a + unat sz - 1"
proof -
  assume sz: "sz \<noteq> 0" and le: "unat a + unat sz \<le> 2 ^ 32"
  have pos: "0 < unat sz" using sz by (simp add: unat_gt_0)
  have "unat (sz - 1) = unat sz - 1" using sz by (rule unat_minus_one)
  moreover from this have "unat (a + (sz - 1)) = unat a + unat (sz - 1)"
    using le pos by (intro unat_add_lem [THEN iffD1]) simp
  ultimately show ?thesis using pos by (simp add: add_diff_eq)
qed

lemma last_mono:
  fixes a b sz :: u32
  assumes "sz \<noteq> 0" "unat b + unat sz \<le> 2 ^ 32" "a \<le> b"
  shows "unat a + unat sz \<le> 2 ^ 32" "a + sz - 1 \<le> b + sz - 1" "a \<le> a + sz - 1"
proof -
  show a: "unat a + unat sz \<le> 2 ^ 32" using assms(2,3) by (simp add: word_le_nat_alt)
  have "0 < unat sz" using assms(1) by (simp add: unat_gt_0)
  then show "a + sz - 1 \<le> b + sz - 1" "a \<le> a + sz - 1"
    using assms(3) unat_last [OF assms(1) a] unat_last [OF assms(1,2)] by (simp_all add: word_le_nat_alt)
qed

definition default_constraint :: "u32 \<Rightarrow> u32 \<Rightarrow> nat \<Rightarrow> resource_constraint" where
  "default_constraint lo hi k = \<lparr>c_min = lo, c_max = hi, c_align = 2 ^ k, alignf = simple_align_resource\<rparr>"

lemma fit_gap_eq:
  "fit_gap s e sz (default_constraint lo hi k) =
     (let a = ALIGN s (2 ^ k) in if s \<le> a \<and> a + sz - 1 \<le> e then Some (a, a + sz - 1) else None)"
  by (simp add: fit_gap_def default_constraint_def simple_align_resource_def Let_def)

text \<open>In a gap that has a place, the first one is found.\<close>

lemma fit_gap_least:
  assumes "k < 32" "sz \<noteq> 0" "fits k sz s e UNIV b"
  shows "\<exists>a. fit_gap s e sz (default_constraint lo hi k) = Some (a, a + sz - 1) \<and> fits k sz s e UNIV a \<and> a \<le> b"
proof -
  let ?a = "ALIGN s (2 ^ k)"
  have a: "s \<le> ?a" "?a \<le> b" using ALIGN_least [OF assms(1), of b s] assms(3) by (auto simp: fits_def)
  note last_mono [OF assms(2) _ a(2)]
  then have "fits k sz s e UNIV ?a" "?a + sz - 1 \<le> e"
    using assms(3) a(1) aligned_ALIGN [of k s] by (auto simp: fits_def)
  then show ?thesis using a by (auto simp: fit_gap_eq Let_def)
qed

lemma default_constraint_sel [simp]:
  "c_min (default_constraint lo hi k) = lo" "c_max (default_constraint lo hi k) = hi"
  "c_align (default_constraint lo hi k) = 2 ^ k"
  by (simp_all add: default_constraint_def)

lemma clip_simps:
  "(if t < lo then lo else t) = max lo t" "(if e > hi then hi else e) = min hi e" for t lo e hi :: u32
  by auto

text \<open>What the loop returns is aligned and within the limits, though it may be taken.\<close>

lemma find_loop_shape:
  "find_loop root_end None sz (default_constraint lo hi k) t cs = Some (a, e) \<Longrightarrow>
   aligned k a \<and> lo \<le> a \<and> e \<le> hi \<and> e = a + sz - 1"
proof (induction cs arbitrary: t)
  case (Cons c cs)
  then show ?case
    by (auto simp: fit_gap_eq Let_def aligned_ALIGN clip_simps split: if_splits option.splits)
qed (auto simp: fit_gap_eq Let_def aligned_ALIGN clip_simps split: if_splits)

definition outside :: "u32 \<Rightarrow> u32 \<Rightarrow> resource list \<Rightarrow> u32 set" where
  "outside t root_end cs = {t..root_end} - (\<Union>c\<in>set cs. range_of c)"

lemma le_pred_iff: "0 < s \<Longrightarrow> x \<le> s - 1 \<longleftrightarrow> x < s" for s x :: u32
proof -
  assume "0 < s"
  then have "unat (s - 1) = unat s - 1" "0 < unat s"
    by (simp_all add: unat_minus_one word_gt_0 unat_gt_0)
  then show ?thesis by (simp add: word_le_nat_alt word_less_nat_alt) linarith
qed

lemma succ_le_iff: "a < b \<Longrightarrow> a + 1 \<le> x \<longleftrightarrow> a < x" for a b x :: u32
proof -
  assume "a < b"
  then have "unat a + unat (1 :: u32) < 2 ^ LENGTH(32)"
    using unat_u32_less [of b] by (simp add: word_less_nat_alt)
  then have "unat (a + 1) = unat a + 1" by (subst unat_add_lem [THEN iffD1]) simp_all
  then show ?thesis by (simp add: word_le_nat_alt word_less_nat_alt Suc_le_eq)
qed

lemma fits_gap:
  "sz \<noteq> 0 \<Longrightarrow> fits k sz (max lo t) (min hi u) UNIV b \<longleftrightarrow> fits k sz lo hi {t..u} b"
  using last_mono(3) [of sz b b] by (auto simp: fits_def)

lemma fits_mono: "fits k sz lo hi ok b \<Longrightarrow> ok \<subseteq> ok' \<Longrightarrow> fits k sz lo hi ok' b"
  unfolding fits_def by blast

lemma outside_gap:
  assumes "chain_ok (c # cs)" "0 < r_start c" "r_end c \<le> root_end"
  shows "{t..r_start c - 1} \<subseteq> outside t root_end (c # cs)"
proof
  fix x assume x: "x \<in> {t..r_start c - 1}"
  then have lt: "x < r_start c" using assms(2) by (simp add: le_pred_iff)
  moreover have "x \<notin> range_of d" if "d \<in> set (c # cs)" for d
    using that lt assms(1) by (auto simp: range_of_def before_def)
  ultimately show "x \<in> outside t root_end (c # cs)" using x assms by (auto simp: outside_def)
qed

lemma outside_rest:
  assumes "chain_ok (c # cs)" "t \<le> r_start c" "r_end c < b"
  shows "{b..e} \<subseteq> outside t root_end (c # cs) \<longleftrightarrow> {b..e} \<subseteq> outside (r_end c + 1) root_end cs"
proof -
  have "x \<in> outside t root_end (c # cs) \<longleftrightarrow> x \<in> outside (r_end c + 1) root_end cs" if "b \<le> x" for x
  proof -
    have "r_end c < x" using assms(3) that by simp
    moreover have "t \<le> r_end c" using assms(1,2) by auto
    ultimately have "t \<le> x" "r_end c + 1 \<le> x" "x \<notin> range_of c"
      using succ_le_iff [OF assms(3), of x] by (auto simp: range_of_def)
    then show ?thesis by (simp add: outside_def)
  qed
  then show ?thesis by (auto simp: subset_iff)
qed

lemma beside:
  assumes "sz \<noteq> 0" "fits k sz lo hi (outside t root_end (c # cs)) b" "r_start c \<le> r_end c" "0 < r_start c"
  shows "r_end c < b \<or> fits k sz lo hi {t..r_start c - 1} b"
proof (rule disjCI)
  have b: "{b..b + sz - 1} \<subseteq> {t..root_end}" "range_of c \<inter> {b..b + sz - 1} = {}"
    using assms(2) by (auto simp: fits_def outside_def)
  have le: "b \<le> b + sz - 1" using assms(2) last_mono(3) [OF assms(1), of b b] by (simp add: fits_def)
  assume n: "\<not> fits k sz lo hi {t..r_start c - 1} b"
  show "r_end c < b"
  proof (rule ccontr)
    assume "\<not> r_end c < b"
    then have "b + sz - 1 < r_start c"
      using b(2) le assms(3) by (auto simp: range_of_def disjoint_iff not_less)
    then show False using n assms(2) b(1) assms(4) by (auto simp: fits_def le_pred_iff)
  qed
qed

text \<open>If there is a place, the loop finds the first.\<close>

lemma find_loop_least:
  assumes "k < 32" "sz \<noteq> 0"
  shows "chain_ok cs \<Longrightarrow> \<forall>c\<in>set cs. 0 < r_start c \<and> t \<le> r_start c \<and> r_end c \<le> root_end \<Longrightarrow>
    fits k sz lo hi (outside t root_end cs) b \<Longrightarrow>
    \<exists>a. find_loop root_end None sz (default_constraint lo hi k) t cs = Some (a, a + sz - 1) \<and>
        fits k sz lo hi (outside t root_end cs) a \<and> a \<le> b"
proof (induction cs arbitrary: t)
  case Nil
  then have "fits k sz (max lo t) (min hi root_end) UNIV b"
    using fits_gap [OF assms(2)] by (simp add: outside_def)
  from fit_gap_least [OF assms this, of lo hi] show ?case
    using fits_gap [OF assms(2)] by (auto simp: clip_simps outside_def)
next
  case (Cons c cs)
  let ?u = "r_start c - 1" and ?fit = "\<lambda>s e. fit_gap s e sz (default_constraint lo hi k)"
  note gap = outside_gap [OF Cons.prems(1), of root_end t]
  show ?case
  proof (cases "\<exists>b'\<le>b. fits k sz lo hi {t..?u} b'")
    case True
    then obtain b' where b': "b' \<le> b" "fits k sz (max lo t) (min hi ?u) UNIV b'"
      using fits_gap [OF assms(2)] by auto
    from fit_gap_least [OF assms b'(2), of lo hi] obtain a where
      "?fit (max lo t) (min hi ?u) = Some (a, a + sz - 1)" "fits k sz lo hi {t..?u} a" "a \<le> b'"
      using fits_gap [OF assms(2)] by auto
    moreover from this have "fits k sz lo hi (outside t root_end (c # cs)) a"
      using gap Cons.prems(2) by (auto intro: fits_mono)
    ultimately show ?thesis using b'(1) by (auto simp: clip_simps Let_def)
  next
    case False
    then have "r_end c < b"
      using beside [OF assms(2) Cons.prems(3)] Cons.prems(1,2) by auto
    moreover have "?fit (max lo t) (min hi ?u) = None"
    proof (rule ccontr)
      let ?a = "ALIGN (max lo t) (2 ^ k)"
      assume "?fit (max lo t) (min hi ?u) \<noteq> None"
      then have a: "max lo t \<le> ?a" "?a + sz - 1 \<le> min hi ?u"
        by (auto simp: fit_gap_eq Let_def split: if_splits)
      have "?a \<le> b"
        using ALIGN_least [OF assms(1), of b "max lo t"] Cons.prems calculation by (auto simp: fits_def)
      then have "fits k sz (max lo t) (min hi ?u) UNIV ?a"
        using a last_mono(1) [OF assms(2)] Cons.prems(3) aligned_ALIGN [of k] by (auto simp: fits_def)
      then show False using False \<open>?a \<le> b\<close> fits_gap [OF assms(2)] by blast
    qed
    moreover have "fits k sz lo hi (outside (r_end c + 1) root_end cs) b"
      using Cons.prems outside_rest [OF Cons.prems(1) _ calculation(1)] by (auto simp: fits_def)
    from Cons.IH [OF _ _ this] obtain a where a:
      "find_loop root_end None sz (default_constraint lo hi k) (r_end c + 1) cs = Some (a, a + sz - 1)"
      "fits k sz lo hi (outside (r_end c + 1) root_end cs) a" "a \<le> b"
      using Cons.prems succ_le_iff [OF calculation(1)] by (auto simp: before_def)
    moreover have "fits k sz lo hi (outside t root_end (c # cs)) a"
    proof -
      have "r_end c < a"
        using a(2) succ_le_iff [OF calculation(1)] last_mono(3) [OF assms(2), of a a] by (auto simp: fits_def outside_def)
      then show ?thesis using a(2) outside_rest [OF Cons.prems(1)] Cons.prems(2) by (auto simp: fits_def)
    qed
    ultimately show ?thesis by (auto simp: clip_simps Let_def)
  qed
qed

lemma free_outside: "free root = outside (r_start root) (r_end root) (r_child root)"
  by (simp add: free_def outside_def range_of_def)

lemma find_resource_least:
  assumes wf: "wf_resource root" and k: "k < 32" "sz \<noteq> 0" and b: "fits k sz lo hi (free root) b"
  shows "\<exists>a. find_resource root None sz (default_constraint lo hi k) = Some (a, a + sz - 1) \<and>
    fits k sz lo hi (free root) a \<and> a \<le> b"
proof (cases "r_child root")
  case Nil
  then show ?thesis using find_loop_least [OF k, of "[]"] b by (simp add: find_resource_def free_outside)
next
  case (Cons c cs)
  have ok: "chain_ok (c # cs)" using wf_chain [OF wf] Cons by simp
  have ins: "\<forall>d\<in>set (c # cs). r_start root \<le> r_start d \<and> r_end d \<le> r_end root"
    using wf_child_inside [OF wf] Cons by (auto simp: inside_def)
  have pos: "0 < r_start d" if "d \<in> set cs" for d
    using that ok by (auto simp: before_def word_gt_0)
  note b' = b [unfolded free_outside Cons]
  show ?thesis
  proof (cases "r_start c = r_start root")
    case True
    have "{b..b + sz - 1} \<subseteq> outside (r_start root) (r_end root) (c # cs)" "b \<le> b + sz - 1"
      using b' last_mono(3) [OF k(2), of b b] by (auto simp: fits_def)
    then have after: "r_end c < b" using ok True by (auto simp: outside_def range_of_def subset_iff not_less)
    have rest: "fits k sz lo hi (outside (r_end c + 1) (r_end root) cs) a \<longleftrightarrow>
        fits k sz lo hi (outside (r_start root) (r_end root) (c # cs)) a" if "r_end c < a" for a
      using outside_rest [OF ok _ that, of "r_start root"] True by (simp add: fits_def)
    obtain a where a: "find_loop (r_end root) None sz (default_constraint lo hi k) (r_end c + 1) cs = Some (a, a + sz - 1)"
      "fits k sz lo hi (outside (r_end c + 1) (r_end root) cs) a" "a \<le> b"
      using find_loop_least [OF k, of cs "r_end c + 1" "r_end root" lo hi b] ok ins pos rest [OF after] b'
        succ_le_iff [OF after] by (auto simp: before_def)
    moreover have "r_end c < a"
      using a(2) succ_le_iff [OF after] last_mono(3) [OF k(2), of a a] by (auto simp: fits_def outside_def)
    ultimately show ?thesis using True Cons rest by (auto simp: find_resource_def free_outside)
  next
    case False
    then have "r_start root < r_start c" using ins by (auto simp: le_less)
    then have "\<forall>d\<in>set (c # cs). 0 < r_start d \<and> r_start root \<le> r_start d \<and> r_end d \<le> r_end root"
      using ins pos by (auto simp: word_gt_0)
    from find_loop_least [OF k ok this b'] show ?thesis
      using False Cons by (simp add: find_resource_def free_outside)
  qed
qed

lemma find_resource_shape:
  "find_resource root None sz (default_constraint lo hi k) = Some (a, e) \<Longrightarrow>
   aligned k a \<and> lo \<le> a \<and> e \<le> hi \<and> e = a + sz - 1"
  by (auto simp: find_resource_def simp del: find_loop.simps split: list.splits if_splits dest: find_loop_shape)

lemma no_wrap: "sz \<noteq> 0 \<Longrightarrow> a \<le> a + sz - 1 \<Longrightarrow> unat a + unat sz \<le> 2 ^ 32" for a sz :: u32
proof (rule ccontr)
  assume sz: "sz \<noteq> 0" and le: "a \<le> a + sz - 1" and n: "\<not> unat a + unat sz \<le> 2 ^ 32"
  have s: "unat (sz - 1) = unat sz - 1" using sz by (rule unat_minus_one)
  have "unat (a + (sz - 1)) = (unat a + unat (sz - 1)) mod 2 ^ 32"
    by (simp add: unat_word_ariths)
  also have "\<dots> = unat a + unat (sz - 1) - 2 ^ 32"
    using n s unat_u32_less [of a] unat_u32_less [of sz] by (subst mod_if) (simp add: le_mod_geq)
  finally show False
    using le s n unat_u32_less [of sz] by (simp add: word_le_nat_alt add_diff_eq)
qed

lemma wf_set_range: "r_child new = [] \<Longrightarrow> s \<le> e \<Longrightarrow> wf_resource (set_range_res s e new)"
  by (cases new) (simp add: set_range_res_def)

text \<open>
  C8: \<^verbatim>\<open>allocate_resource\<close> with the default alignment function and an alignment that is a power of two is exact: if some
  aligned range of the size asked for is within the limits and free, it takes the lowest such range and the
  tree stays well-formed; otherwise it returns \<^verbatim>\<open>-EBUSY\<close>.
\<close>

theorem allocate_resource_exact:
  assumes "wf_resource root" "r_child new = []" "k < 32" "sz \<noteq> 0"
  shows "if \<exists>b. fits k sz lo hi (free root) b
    then \<exists>a root'. allocate_resource root new False sz lo hi (2 ^ k) None = Some (Inr root') \<and>
           fits k sz lo hi (free root) a \<and> (\<forall>b. fits k sz lo hi (free root) b \<longrightarrow> a \<le> b) \<and>
           root' = set_children (place (set_range_res a (a + sz - 1) new) (r_child root)) root \<and> wf_resource root'
    else allocate_resource root new False sz lo hi (2 ^ k) None = Some (Inl EBUSY)"
proof -
  let ?find = "find_resource root None sz (default_constraint lo hi k)"
  let ?req = "\<lambda>s e. request_resource_conflict root (set_range_res s e new)"
  have eq: "allocate_resource root new False sz lo hi (2 ^ k) None =
      (case ?find of None \<Rightarrow> Some (Inl EBUSY)
       | Some (s, e) \<Rightarrow> (case ?req s e of Inl _ \<Rightarrow> Some (Inl EBUSY) | Inr r \<Rightarrow> Some (Inr r)))"
    by (simp add: allocate_resource_def default_constraint_def)
  show ?thesis
  proof (cases "\<exists>b. fits k sz lo hi (free root) b")
    case True
    then obtain b where "fits k sz lo hi (free root) b" ..
    from find_resource_least [OF assms(1,3,4) this] obtain a where
      a: "?find = Some (a, a + sz - 1)" "fits k sz lo hi (free root) a" by blast
    let ?new = "set_range_res a (a + sz - 1) new"
    have le: "a \<le> a + sz - 1" using a(2) last_mono(3) [OF assms(4), of a a] by (simp add: fits_def)
    have new: "wf_resource ?new" by (rule wf_set_range [OF assms(2) le])
    have free: "range_of ?new \<subseteq> free root" using a(2) by (simp add: fits_def range_of_def)
    have "a \<le> b" if "fits k sz lo hi (free root) b" for b
      using find_resource_least [OF assms(1,3,4) that] a(1) by auto
    moreover have "?req a (a + sz - 1) = Inr (set_children (place ?new (r_child root)) root)"
      using request_free [OF assms(1)] le free by simp
    moreover have "wf_resource (set_children (place ?new (r_child root)) root)"
      using wf_place [OF assms(1) new] inside_free_iff [OF assms(1) wf_range [OF new]] free by blast
    ultimately show ?thesis using True a by (auto simp: eq)
  next
    case False
    have "?req s e \<noteq> Inr r" if "?find = Some (s, e)" for s e r
    proof
      assume "?req s e = Inr r"
      then have "s \<le> e" "{s..e} \<subseteq> free root" using request_free [OF assms(1)] by (auto simp: range_of_def)
      then have "fits k sz lo hi (free root) s"
        using find_resource_shape [OF that] no_wrap [OF assms(4)] by (auto simp: fits_def)
      then show False using False by blast
    qed
    then show ?thesis using False by (auto simp: eq split: option.splits sum.splits)
  qed
qed

section \<open>The resources of a tree\<close>

fun below :: "resource \<Rightarrow> resource list" where
  "below (Resource i s e n f cs) = concat (map (\<lambda>c. c # below c) cs)"

lemma below_def': "below r = concat (map (\<lambda>c. c # below c) (r_child r))"
  by (cases r) simp

definition ids :: "resource \<Rightarrow> nat list" where
  "ids r = map r_id (r # below r)"

type_synonym resource_info = "nat \<times> u32 \<times> u32 \<times> string \<times> u32"

definition info :: "resource \<Rightarrow> resource_info" where
  "info r = (r_id r, r_start r, r_end r, r_name r, r_flags r)"

text \<open>The resources of a tree, without their places in it.\<close>

definition nodes :: "resource \<Rightarrow> resource_info multiset" where
  "nodes r = mset (map info (r # below r))"

lemma info_set_children [simp]: "info (set_children cs r) = info r"
  by (simp add: info_def)

lemma nodes_eq: "nodes r = add_mset (info r) (\<Sum>c\<leftarrow>r_child r. nodes c)"
proof -
  have "mset (map info (concat (map (\<lambda>c. c # below c) cs))) = (\<Sum>c\<leftarrow>cs. nodes c)" for cs
    by (induction cs) (simp_all add: nodes_def)
  then show ?thesis by (subst nodes_def, subst below_def') simp
qed

lemma nodes_set_children: "nodes (set_children cs r) = add_mset (info r) (\<Sum>c\<leftarrow>cs. nodes c)"
  by (subst nodes_eq) simp

lemma child_below: "c \<in> set (r_child r) \<Longrightarrow> c \<in> set (below r)"
  and below_child: "c \<in> set (r_child r) \<Longrightarrow> x \<in> set (below c) \<Longrightarrow> x \<in> set (below r)"
  by (subst below_def', auto)+

lemma below_cases: "x \<in> set (below r) \<Longrightarrow> (\<exists>c\<in>set (r_child r). x = c \<or> x \<in> set (below c))"
  by (subst (asm) below_def') auto

lemma wf_below: "wf_resource r \<Longrightarrow> x \<in> set (below r) \<Longrightarrow> wf_resource x \<and> inside x r"
proof (induction r rule: below.induct)
  case (1 i s e n f cs)
  then obtain c where c: "c \<in> set cs" "x = c \<or> x \<in> set (below c)" by auto
  moreover have "wf_resource c" "inside c (Resource i s e n f cs)"
    using "1.prems"(1) c(1) by (auto simp: inside_def)
  ultimately show ?case using "1.IH" [OF c(1)] by (auto simp: inside_def)
qed

definition distinct_ids :: "resource \<Rightarrow> bool" where
  "distinct_ids r \<longleftrightarrow> distinct (ids r)"

lemma ids_eq: "ids r = r_id r # concat (map ids (r_child r))"
  by (simp add: ids_def, subst below_def') (simp add: map_concat comp_def ids_def [abs_def])

lemma distinct_ids_child: "distinct_ids r \<Longrightarrow> c \<in> set (r_child r) \<Longrightarrow> distinct_ids c \<and> r_id c \<noteq> r_id r"
  unfolding distinct_ids_def by (subst (asm) ids_eq) (auto simp: distinct_concat_iff ids_def)

lemma distinct_ids_children:
  assumes "distinct_ids r"
  shows "distinct (map r_id (r_child r))"
proof -
  have "distinct (concat (map ids cs)) \<Longrightarrow> distinct (map r_id cs)" for cs
    by (induction cs) (auto simp: ids_def)
  then show ?thesis using assms unfolding distinct_ids_def by (subst (asm) ids_eq) simp
qed

lemma map_child_split:
  assumes "distinct_ids r" "r_child r = pre @ c # post"
  shows "map_child (r_id c) f r = set_children (pre @ f c # post) r"
proof -
  have "r_id x \<noteq> r_id c" if "x \<in> set pre \<union> set post" for x
    using distinct_ids_children [OF assms(1)] that assms(2) by (auto simp: rev_image_eqI)
  then show ?thesis by (auto simp: map_child_def assms(2) intro!: arg_cong2 [of _ _ _ _ set_children] map_idI)
qed

section \<open>Inserting\<close>

definition laminar :: "resource \<Rightarrow> resource \<Rightarrow> bool" where
  "laminar a b \<longleftrightarrow> \<not> overlaps a b \<or> inside a b \<or> inside b a"

lemma overlaps_sym: "overlaps a b \<longleftrightarrow> overlaps b a"
  by (auto simp: overlaps_def)

lemma covered_children_spec:
  assumes "chain_ok (c # cs)" "overlaps c new" "r_start new \<le> r_end new" "inside new c \<Longrightarrow> inside c new"
  shows "case covered_children new (c # cs) of
      Inl d \<Rightarrow> d \<in> set (c # cs) \<and> \<not> laminar d new
    | Inr (ins, behind) \<Rightarrow> c # cs = ins @ behind \<and> (\<forall>d\<in>set ins. inside d new) \<and> (\<forall>d\<in>set behind. before new d)"
  using assms
proof (induction cs arbitrary: c)
  case Nil
  then show ?case by (auto simp: laminar_def inside_def not_less)
next
  case (Cons d cs)
  show ?case
  proof (cases "r_start c < r_start new \<or> r_end c > r_end new")
    case True
    then show ?thesis using Cons.prems by (auto simp: laminar_def inside_def)
  next
    case False
    then have c: "inside c new" by (auto simp: inside_def)
    show ?thesis
    proof (cases "r_start d > r_end new")
      case True
      then have "before new d" by (simp add: before_def)
      moreover from this have "before new x" if "x \<in> set cs" for x
        using that Cons.prems(1) by (auto simp: before_def)
      ultimately show ?thesis using False True c by auto
    next
      case le: False
      have "chain_ok (d # cs)" "r_end c < r_start d" using Cons.prems(1) by (simp_all add: before_def)
      moreover from this have "overlaps d new" "inside new d \<Longrightarrow> inside d new"
        using le c Cons.prems by (auto simp: overlaps_def inside_def)
      ultimately show ?thesis
        using Cons.IH [of d] Cons.prems(3) False le c by (auto split: sum.splits)
    qed
  qed
qed

text \<open>What an insertion promises.\<close>

definition inserted :: "resource \<Rightarrow> resource \<Rightarrow> resource + resource \<Rightarrow> bool" where
  "inserted parent new r \<longleftrightarrow>
     (if inside new parent \<and> (\<forall>x\<in>set (below parent). laminar x new)
      then \<exists>parent'. r = Inr parent' \<and> wf_resource parent' \<and> info parent' = info parent \<and>
             nodes parent' = add_mset (info new) (nodes parent)
      else \<exists>c. r = Inl c)"

lemma inside_trans: "inside a b \<Longrightarrow> inside b c \<Longrightarrow> inside a c"
  by (auto simp: inside_def)

lemma laminar_below:
  "wf_resource c \<Longrightarrow> \<not> overlaps c new \<Longrightarrow> x \<in> set (below c) \<Longrightarrow> \<not> overlaps x new"
  using wf_below [of c x] by (auto simp: overlaps_def inside_def)

lemma laminar_all:
  assumes "wf_resource parent" "\<forall>c\<in>set (r_child parent). \<not> overlaps c new \<or> inside c new"
  shows "\<forall>x\<in>set (below parent). laminar x new"
proof
  fix x assume "x \<in> set (below parent)"
  then obtain c where c: "c \<in> set (r_child parent)" "x = c \<or> x \<in> set (below c)" using below_cases by blast
  have wf: "wf_resource c" using wf_child [OF assms(1) c(1)] .
  show "laminar x new"
  proof (cases "overlaps c new")
    case True
    then have "inside c new" using assms(2) c(1) by blast
    then show ?thesis using c(2) wf_below [OF wf] inside_trans unfolding laminar_def by blast
  next
    case False
    then show ?thesis using c(2) laminar_below [OF wf] unfolding laminar_def by blast
  qed
qed

lemma sum_list_place: "(\<Sum>c\<leftarrow>place new cs. f c) = f new + (\<Sum>c\<leftarrow>cs. f c)" for f :: "resource \<Rightarrow> 'a::comm_monoid_add"
  using mset_place [of new cs] by (metis mset_map sum_mset_sum_list image_mset_add_mset sum_mset.add_mset)

lemma inserted_free:
  assumes "wf_resource parent" "wf_resource new" "r_child new = []" "inside new parent"
    "\<forall>c\<in>set (r_child parent). \<not> overlaps c new"
  shows "inserted parent new (Inr (set_children (place new (r_child parent)) parent))"
proof -
  have "nodes new = {#info new#}" by (subst nodes_eq) (simp add: assms(3))
  moreover have "nodes (set_children (place new (r_child parent)) parent) =
      add_mset (info parent) (nodes new + (\<Sum>c\<leftarrow>r_child parent. nodes c))"
    by (subst nodes_eq) (simp add: sum_list_place)
  ultimately show ?thesis
    using laminar_all [of parent new] wf_place [of parent new] assms nodes_eq [of parent]
    by (auto simp: inserted_def)
qed

lemma split_overlap:
  assumes "chain_ok cs" "find (\<lambda>c. overlaps c new) cs = Some c" "r_start new \<le> r_end new"
  obtains pre post where "cs = pre @ c # post" "overlaps c new" "\<forall>d\<in>set pre. before d new"
proof -
  obtain i where i: "i < length cs" "overlaps (cs ! i) new" "c = cs ! i" "\<forall>j<i. \<not> overlaps (cs ! j) new"
    using assms(2) by (auto simp: find_Some_iff)
  have split: "cs = take i cs @ c # drop (Suc i) cs" using i by (simp add: id_take_nth_drop)
  have "before d new" if d: "d \<in> set (take i cs)" for d
  proof -
    have "chain_ok (take i cs @ c # drop (Suc i) cs)" using assms(1) split by simp
    then have "before d c" "r_start d \<le> r_end d"
      unfolding chain_ok_append using d by (simp, simp add: chain_ok_def)
    moreover have "\<not> overlaps d new" using d i(4) by (auto simp: in_set_conv_nth)
    ultimately show ?thesis using i(2,3) assms(3) by (auto simp: overlaps_def before_def)
  qed
  then show thesis using that [OF split] i by blast
qed

lemma adopt_split:
  assumes "distinct_ids parent" "r_child parent = pre @ c # post"
  shows "adopt parent (r_id c) new =
    map_sum id (\<lambda>(ins, behind). set_children (pre @ set_children ins new # behind) parent)
      (covered_children new (c # post))"
proof -
  have "\<forall>x\<in>set pre. r_id x \<noteq> r_id c"
    using distinct_ids_children [OF assms(1)] assms(2) by (auto simp: rev_image_eqI)
  then show ?thesis
    by (simp add: adopt_def assms(2) takeWhile_append dropWhile_append2)
qed

lemma inserted_adopt:
  assumes wf: "wf_resource parent" "wf_resource new" "inside new parent" "distinct_ids parent"
    and split: "r_child parent = pre @ c # post" "overlaps c new" "\<forall>d\<in>set pre. before d new"
    and cover: "inside new c \<Longrightarrow> inside c new"
  shows "inserted parent new (adopt parent (r_id c) new)"
proof -
  have ok: "chain_ok (pre @ c # post)" using wf_chain [OF wf(1)] split(1) by simp
  note new = wf_range [OF wf(2)]
  have "chain_ok (c # post)" using ok unfolding chain_ok_append by blast
  note cov = covered_children_spec [OF this split(2) new cover]
  show ?thesis
  proof (cases "covered_children new (c # post)")
    case (Inl d)
    then have "d \<in> set (r_child parent)" "\<not> laminar d new" using cov split(1) by auto
    then show ?thesis
      using child_below [of d parent] Inl adopt_split [OF wf(4) split(1), of new] by (auto simp: inserted_def)
  next
    case (Inr p)
    obtain ins behind where p: "p = (ins, behind)" by (cases p)
    have parts: "c # post = ins @ behind" "\<forall>d\<in>set ins. inside d new" "\<forall>d\<in>set behind. before new d"
      using cov Inr p by auto
    let ?new = "set_children ins new" and ?p = "set_children (pre @ set_children ins new # behind) parent"
    have all: "set (r_child parent) = set pre \<union> set ins \<union> set behind" using split(1) parts(1) by auto
    have ch: "wf_resource d" "inside d parent" if "d \<in> set pre \<union> set ins \<union> set behind" for d
      using that wf_child [OF wf(1), of d] wf_child_inside [OF wf(1), of d] all by auto
    have ok': "chain_ok pre" "chain_ok ins" "chain_ok behind" "\<forall>a\<in>set pre. \<forall>b\<in>set behind. before a b"
      using ok unfolding parts(1) chain_ok_append by auto
    have "wf_resource ?new" using new ok'(2) parts(2) ch by (simp add: wf_set_children)
    moreover have "chain_ok (pre @ ?new # behind)"
      unfolding chain_ok_append using ok' new parts(3) split(3) by simp
    ultimately have "wf_resource ?p"
      using ch wf(3) wf_range [OF wf(1)] by (auto simp: wf_set_children)
    moreover have "\<forall>x\<in>set (below parent). laminar x new"
    proof (rule laminar_all [OF wf(1)], unfold all, intro ballI)
      fix d assume "d \<in> set pre \<union> set ins \<union> set behind"
      then show "\<not> overlaps d new \<or> inside d new"
        using parts(2,3) split(3) by (auto simp: before_def overlaps_def)
    qed
    moreover have "nodes ?p = add_mset (info new) (nodes parent)"
      using nodes_eq [of parent] unfolding split(1) parts(1) by (simp add: nodes_set_children)
    ultimately show ?thesis
      using wf(3) Inr p adopt_split [OF wf(4) split(1), of new] by (auto simp: inserted_def)
  qed
qed

lemma below_around:
  assumes wf: "wf_resource parent" "r_start new \<le> r_end new" and split: "r_child parent = pre @ c # post" "inside new c"
    and x: "x \<in> set (below parent)"
  shows "x = c \<or> x \<in> set (below c) \<or> \<not> overlaps x new"
proof -
  obtain d where d: "d \<in> set (r_child parent)" "x = d \<or> x \<in> set (below d)" using below_cases [OF x] by blast
  show ?thesis
  proof (cases "d = c")
    case False
    have "chain_ok (pre @ c # post)" using wf_chain [OF wf(1)] split(1) by simp
    then have "before d c \<or> before c d" using False d(1) split(1) unfolding chain_ok_append by auto
    then have "\<not> overlaps d new" using split(2) wf(2) by (auto simp: before_def inside_def overlaps_def)
    then show ?thesis using d laminar_below [OF wf_child [OF wf(1) d(1)]] by blast
  qed (use d in blast)
qed

lemma replace_child:
  assumes "wf_resource parent" "r_child parent = pre @ c # post" "wf_resource c'" "info c' = info c"
    "nodes c' = add_mset a (nodes c)"
  shows "wf_resource (set_children (pre @ c' # post) parent) \<and>
    nodes (set_children (pre @ c' # post) parent) = add_mset a (nodes parent)"
proof -
  have same: "r_start c' = r_start c" "r_end c' = r_end c" using assms(4) by (simp_all add: info_def)
  have "chain_ok (pre @ c # post)" using wf_chain [OF assms(1)] assms(2) by simp
  then have "chain_ok (pre @ c' # post)" using same unfolding chain_ok_append by (auto simp: before_def)
  then have "wf_resource (set_children (pre @ c' # post) parent)"
    using wf_child [OF assms(1)] wf_child_inside [OF assms(1)] assms(2,3) same wf_range [OF assms(1)]
    by (auto simp: wf_set_children inside_def)
  then show ?thesis using nodes_eq [of parent] assms(5) by (simp add: nodes_set_children assms(2))
qed

lemma inserted_descend:
  assumes wf: "wf_resource parent" "wf_resource new" "inside new parent" "distinct_ids parent"
    and split: "r_child parent = pre @ c # post" "inside new c"
    and ins: "inserted c new r"
  shows "inserted parent new (map_sum id (\<lambda>c'. map_child (r_id c) (\<lambda>_. c') parent) r)"
proof -
  have lam: "(\<forall>x\<in>set (below parent). laminar x new) \<longleftrightarrow> (\<forall>x\<in>set (below c). laminar x new)"
    using below_around [OF wf(1) wf_range [OF wf(2)] split] below_child [of c parent] split
    unfolding laminar_def by fastforce
  show ?thesis
  proof (cases "\<forall>x\<in>set (below c). laminar x new")
    case True
    then obtain c' where c': "r = Inr c'" "wf_resource c'" "info c' = info c" "nodes c' = add_mset (info new) (nodes c)"
      using ins split(2) by (auto simp: inserted_def)
    from replace_child [OF wf(1) split(1) c'(2-4)] show ?thesis
      using True lam wf(3) c'(1) map_child_split [OF wf(4) split(1), of "\<lambda>_. c'"] by (auto simp: inserted_def)
  next
    case False
    then show ?thesis using ins lam by (auto simp: inserted_def split: if_splits)
  qed
qed

text \<open>One round of the insertion, when a child is in the way.\<close>

lemma insert_step:
  assumes "wf_resource parent" "distinct_ids parent" "r_start new \<le> r_end new" "inside new parent"
    "r_id new \<notin> set (ids parent)" "find (\<lambda>c. overlaps c new) (r_child parent) = Some c"
  shows "insert_resource_conflict parent new =
      (if r_start c > r_start new \<or> r_end c < r_end new \<or> r_start c = r_start new \<and> r_end c = r_end new
       then adopt parent (r_id c) new
       else map_sum id (\<lambda>c'. map_child (r_id c) (\<lambda>_. c') parent) (insert_resource_conflict c new))"
    and "c \<in> set (r_child parent)" "distinct_ids c" "r_id new \<notin> set (ids c)"
proof -
  show c: "c \<in> set (r_child parent)" using assms(6) by (auto simp: find_Some_iff)
  have id: "r_id c \<noteq> r_id parent" "r_id c \<noteq> r_id new" "distinct_ids c" "r_id new \<notin> set (ids c)"
    using distinct_ids_child [OF assms(2) c] assms(5) c unfolding ids_eq [of parent] by (auto simp: ids_def)
  then show "distinct_ids c" "r_id new \<notin> set (ids c)" by simp_all
  show "insert_resource_conflict parent new =
      (if r_start c > r_start new \<or> r_end c < r_end new \<or> r_start c = r_start new \<and> r_end c = r_end new
       then adopt parent (r_id c) new
       else map_sum id (\<lambda>c'. map_child (r_id c) (\<lambda>_. c') parent) (insert_resource_conflict c new))"
    using id by (subst insert_resource_conflict.simps) (simp add: request_conflict_eq [OF assms(1)] assms(3,4,6))
qed

lemma insert_resource_inserted:
  "wf_resource parent \<Longrightarrow> wf_resource new \<Longrightarrow> r_child new = [] \<Longrightarrow> distinct_ids parent \<Longrightarrow>
   r_id new \<notin> set (ids parent) \<Longrightarrow> inserted parent new (insert_resource_conflict parent new)"
proof (induction "size parent" arbitrary: parent rule: less_induct)
  case less
  note new = wf_range [OF less.prems(2)]
  show ?case
  proof (cases "inside new parent")
    case False
    then show ?thesis
      by (subst insert_resource_conflict.simps)
        (simp add: request_conflict_eq [OF less.prems(1)] inserted_def)
  next
    case ins: True
    show ?thesis
    proof (cases "find (\<lambda>c. overlaps c new) (r_child parent)")
      case None
      then have "\<forall>c\<in>set (r_child parent). \<not> overlaps c new" by (auto simp: find_None_iff)
      from inserted_free [OF less.prems(1-3) ins this] show ?thesis
        by (subst insert_resource_conflict.simps)
          (simp add: request_conflict_eq [OF less.prems(1)] ins new None)
    next
      case (Some c)
      obtain pre post where split: "r_child parent = pre @ c # post" "overlaps c new" "\<forall>d\<in>set pre. before d new"
        using split_overlap [OF wf_chain [OF less.prems(1)] Some new] by blast
      let ?here = "r_start c > r_start new \<or> r_end c < r_end new \<or> r_start c = r_start new \<and> r_end c = r_end new"
      note step = insert_step [OF less.prems(1,4) new ins less.prems(5) Some]
      show ?thesis
      proof (cases ?here)
        case True
        then have "inside new c \<Longrightarrow> inside c new" by (auto simp: inside_def)
        then show ?thesis using inserted_adopt [OF less.prems(1,2) ins less.prems(4) split] step(1) True by simp
      next
        case False
        then have "inside new c" by (auto simp: inside_def)
        moreover have "inserted c new (insert_resource_conflict c new)"
          using less.hyps [OF child_size [OF step(2)]] wf_child [OF less.prems(1) step(2)] less.prems(2,3) step(3,4) by blast
        ultimately show ?thesis
          using inserted_descend [OF less.prems(1,2) ins less.prems(4) split(1)] step(1) False by simp
      qed
    qed
  qed
qed

text \<open>
  C14: Inserting a resource succeeds exactly if it is inside the tree and every resource of the tree is disjoint from
  it, contains it or is contained in it. Then the tree stays well-formed and holds the old resources, unchanged, and
  the new one; otherwise the call returns \<^verbatim>\<open>-EBUSY\<close>.
\<close>

theorem insert_resource_exact:
  assumes "wf_resource parent" "distinct_ids parent" "wf_resource new" "r_child new = []" "r_id new \<notin> set (ids parent)"
  shows "if inside new parent \<and> (\<forall>x\<in>set (below parent). \<not> overlaps x new \<or> inside x new \<or> inside new x)
    then \<exists>parent'. insert_resource parent new = Inr parent' \<and> wf_resource parent' \<and>
           nodes parent' = add_mset (info new) (nodes parent)
    else insert_resource parent new = Inl EBUSY"
  using insert_resource_inserted [OF assms(1,3,4,2,5)]
  by (auto simp: inserted_def laminar_def insert_resource_def split: if_splits)

section \<open>Expanding until it fits\<close>

definition sticks_out :: "resource \<Rightarrow> resource \<Rightarrow> bool" where
  "sticks_out c new \<longleftrightarrow> r_start c < r_start new \<or> r_end c > r_end new"

lemma covered_children_conflict: "covered_children new cs = Inl d \<Longrightarrow> d \<in> set cs \<and> sticks_out d new"
proof (induction cs)
  case (Cons c cs)
  then show ?case
    by (cases "covered_children new cs") (auto simp: sticks_out_def split: if_splits list.splits)
qed simp

lemma insert_conflict_sticks_out:
  "wf_resource parent \<Longrightarrow> distinct_ids parent \<Longrightarrow> r_start new \<le> r_end new \<Longrightarrow> inside new parent \<Longrightarrow>
   r_id new \<notin> set (ids parent) \<Longrightarrow> insert_resource_conflict parent new = Inl c \<Longrightarrow>
   c \<in> set (below parent) \<and> sticks_out c new"
proof (induction "size parent" arbitrary: parent rule: less_induct)
  case less
  have "find (\<lambda>c. overlaps c new) (r_child parent) \<noteq> None"
  proof
    assume "find (\<lambda>c. overlaps c new) (r_child parent) = None"
    then show False
      using less.prems(6) by (subst (asm) insert_resource_conflict.simps)
        (simp add: request_conflict_eq [OF less.prems(1)] less.prems(3,4))
  qed
  then obtain d where d: "find (\<lambda>c. overlaps c new) (r_child parent) = Some d" by blast
  note step = insert_step [OF less.prems(1-5) d]
  obtain pre post where split: "r_child parent = pre @ d # post"
    using split_overlap [OF wf_chain [OF less.prems(1)] d less.prems(3)] by blast
  show ?case
  proof (cases "r_start d > r_start new \<or> r_end d < r_end new \<or> r_start d = r_start new \<and> r_end d = r_end new")
    case True
    then have "covered_children new (d # post) = Inl c"
      using less.prems(6) step(1) adopt_split [OF less.prems(2) split, of new]
      by (cases "covered_children new (d # post)") auto
    from covered_children_conflict [OF this] show ?thesis
      using split child_below [of c parent] by auto
  next
    case False
    then have "inside new d" by (auto simp: inside_def)
    moreover have "insert_resource_conflict d new = Inl c"
      using less.prems(6) step(1) False by (cases "insert_resource_conflict d new") auto
    ultimately show ?thesis
      using less.hyps [OF child_size [OF step(2)] wf_child [OF less.prems(1) step(2)] step(3) less.prems(3) _ step(4)]
        below_child [OF step(2)] by blast
  qed
qed

definition expand_to :: "resource \<Rightarrow> resource \<Rightarrow> resource" where
  "expand_to c new = set_range_res (min (r_start c) (r_start new)) (max (r_end c) (r_end new)) new"

lemma expand_loop_step:
  "expand_loop root new =
     (case insert_resource_conflict root new of
        Inr root \<Rightarrow> Some (root, new)
      | Inl c \<Rightarrow> if r_id c = r_id root then Some (root, new) else expand_loop root (expand_to c new))"
proof -
  have "(if r_start c < r_start new then r_start c else r_start new) = min (r_start c) (r_start new)"
    "(if r_end c > r_end new then r_end c else r_end new) = max (r_end c) (r_end new)" for c by auto
  then show ?thesis
    unfolding expand_to_def by (subst expand_loop.simps) (cases "insert_resource_conflict root new"; simp)
qed

lemma below_id: "distinct_ids r \<Longrightarrow> x \<in> set (below r) \<Longrightarrow> r_id x \<noteq> r_id r"
  by (auto simp: distinct_ids_def ids_def) (metis imageI)

lemma expand_loop_inserts:
  "wf_resource root \<Longrightarrow> distinct_ids root \<Longrightarrow> r_start new \<le> r_end new \<Longrightarrow> r_child new = [] \<Longrightarrow>
   inside new root \<Longrightarrow> r_id new \<notin> set (ids root) \<Longrightarrow>
   \<exists>root' new'. expand_loop root new = Some (root', new') \<and> inside new new' \<and> r_id new' = r_id new \<and>
     wf_resource root' \<and> info root' = info root \<and> nodes root' = add_mset (info new') (nodes root)"
proof (induction "unat (r_start new) + (2 ^ 32 - unat (r_end new))" arbitrary: new rule: less_induct)
  case less
  have wf: "wf_resource new" using less.prems(3,4) by (cases new) auto
  show ?case
  proof (cases "insert_resource_conflict root new")
    case (Inr root')
    then show ?thesis
      using insert_resource_inserted [OF less.prems(1) wf less.prems(4,2,6)]
      by (subst expand_loop_step) (auto simp: inserted_def inside_def split: if_splits)
  next
    case (Inl c)
    then have c: "c \<in> set (below root)" "sticks_out c new"
      using insert_conflict_sticks_out less.prems by blast+
    have c': "inside c root" "r_start c \<le> r_end c" using wf_below [OF less.prems(1) c(1)] wf_range by blast+
    let ?new = "expand_to c new"
    have "unat (r_start ?new) + (2 ^ 32 - unat (r_end ?new)) < unat (r_start new) + (2 ^ 32 - unat (r_end new))"
      using c(2) unat_u32_less [of "r_end new"] unat_u32_less [of "r_end c"]
      by (auto simp: expand_to_def sticks_out_def word_less_nat_alt word_le_nat_alt min_def max_def)
    moreover have "inside ?new root" "r_start ?new \<le> r_end ?new" "inside new ?new"
      using c' less.prems(3,5) by (auto simp: expand_to_def inside_def min_def max_def)
    moreover have "r_child ?new = []" "r_id ?new = r_id new" using less.prems(4) by (simp_all add: expand_to_def)
    ultimately obtain root' new' where *: "expand_loop root ?new = Some (root', new')" "inside ?new new'"
        "wf_resource root'" "info root' = info root" "nodes root' = add_mset (info new') (nodes root)" "inside new ?new" "r_id new' = r_id new"
      using less.hyps [of ?new] less.prems(1,2,6) by auto
    have "expand_loop root new = expand_loop root ?new"
      using Inl below_id [OF less.prems(2) c(1)] by (subst expand_loop_step) simp
    then show ?thesis using * inside_trans by auto
  qed
qed

text \<open>
  A resource that starts inside the tree is always inserted by the expanding insertion, which ends: its range grows to
  include the conflicting ones and includes the range asked for, and the tree stays well-formed.
\<close>

theorem expand_to_fit_inserts:
  assumes "wf_resource root" "distinct_ids root" "wf_resource new" "r_child new = []" "inside new root"
    "r_id new \<notin> set (ids root)"
  shows "\<exists>root' new'. insert_resource_expand_to_fit root new False = Some (root', new') \<and> inside new new' \<and>
    r_id new' = r_id new \<and> wf_resource root' \<and> nodes root' = add_mset (info new') (nodes root)"
  using expand_loop_inserts [OF assms(1,2) wf_range [OF assms(3)] assms(4-6)]
  by (auto simp: insert_resource_expand_to_fit_def)

section \<open>Adjusting\<close>

lemma neighbours_split:
  "neighbours i prev cs = Some (p, c, s) \<Longrightarrow>
   \<exists>pre post. cs = pre @ c # post \<and> r_id c = i \<and> p = (if pre = [] then prev else Some (last pre)) \<and>
     s = (case post of [] \<Rightarrow> None | d # _ \<Rightarrow> Some d)"
proof (induction cs arbitrary: prev)
  case (Cons d cs)
  show ?case
  proof (cases "r_id d = i")
    case True
    then show ?thesis using Cons.prems by (intro exI [of _ "[]"] exI [of _ cs]) auto
  next
    case False
    then obtain pre post where "cs = pre @ c # post" "r_id c = i" "p = (if pre = [] then Some d else Some (last pre))"
        "s = (case post of [] \<Rightarrow> None | d # _ \<Rightarrow> Some d)"
      using Cons by force
    then show ?thesis by (intro exI [of _ "d # pre"] exI [of _ post]) auto
  qed
qed simp

lemma chain_last: "chain_ok cs \<Longrightarrow> x \<in> set cs \<Longrightarrow> r_end x \<le> r_end (last cs)"
proof (induction cs)
  case (Cons c cs)
  show ?case
  proof (cases "cs = [] \<or> x \<in> set cs")
    case False
    then have "r_end c < r_start (last cs)" "r_start (last cs) \<le> r_end (last cs)" "x = c"
      using Cons.prems last_in_set [of cs] by (auto simp: before_def chain_ok_def)
    then show ?thesis using False by auto
  qed (use Cons in auto)
qed simp

lemma adjust_resource_wf:
  assumes "wf_resource parent" "distinct_ids parent" "adjust_resource res start sz parent = Some (Inr parent')"
    "start \<le> start + sz - 1"
  shows "wf_resource parent'"
proof -
  let ?e = "start + sz - 1"
  from assms(3) obtain p c s where n: "neighbours res None (r_child parent) = Some (p, c, s)"
    by (auto simp: adjust_resource_def split: option.splits)
  from neighbours_split [OF n] obtain pre post where split: "r_child parent = pre @ c # post" "r_id c = res"
    "p = (if pre = [] then None else Some (last pre))" "s = (case post of [] \<Rightarrow> None | d # _ \<Rightarrow> Some d)" by auto
  have g: "r_start parent \<le> start" "?e \<le> r_end parent" "\<forall>x\<in>set (r_child c). start \<le> r_start x \<and> r_end x \<le> ?e"
    "post \<noteq> [] \<Longrightarrow> ?e < r_start (hd post)" "pre \<noteq> [] \<Longrightarrow> r_end (last pre) < start"
    "parent' = set_children (pre @ set_range_res start ?e c # post) parent"
    using assms(3) n map_child_split [OF assms(2) split(1), of "set_range_res start ?e"] split(2-4)
    by (auto simp: adjust_resource_def Let_def not_less not_le split: if_splits list.splits)
  have c: "wf_resource c" using wf_child [OF assms(1)] split(1) by simp
  have ok: "chain_ok (pre @ c # post)" using wf_chain [OF assms(1)] split(1) by simp
  have "wf_resource (set_range_res start ?e c)"
    using c g(3) assms(4) by (subst wf_resource_iff) (auto simp: wf_chain wf_child inside_def)
  moreover have "chain_ok (pre @ set_range_res start ?e c # post)"
  proof -
    have "before x (set_range_res start ?e c)" if "x \<in> set pre" for x
      using that g(5) chain_last [of pre x] ok unfolding chain_ok_append by (cases "pre = []") (auto simp: before_def)
    moreover have "before (set_range_res start ?e c) x" if "x \<in> set post" for x
      using that g(4) ok unfolding chain_ok_append by (cases post) (auto simp: before_def)
    ultimately show ?thesis using ok assms(4) unfolding chain_ok_append by auto
  qed
  ultimately show ?thesis
    using g wf_child [OF assms(1)] wf_child_inside [OF assms(1)] split(1) wf_range [OF assms(1)]
    by (auto simp: wf_set_children inside_def)
qed

section \<open>Reserving what is left of a range\<close>

definition occupied :: "resource \<Rightarrow> u32 set" where
  "occupied root = (\<Union>c\<in>set (r_child root). range_of c)"

lemma occupied_place: "occupied (set_children (place new cs) root) = range_of new \<union> (\<Union>c\<in>set cs. range_of c)"
  by (simp add: occupied_def)

text \<open>What reserving a range from \<open>s\<close> to \<open>e\<close> promises.\<close>

definition reserved :: "bool \<Rightarrow> resource \<Rightarrow> u32 \<Rightarrow> u32 \<Rightarrow> resource \<Rightarrow> bool" where
  "reserved enough root s e root' \<longleftrightarrow>
     wf_resource root' \<and> r_start root' = r_start root \<and> r_end root' = r_end root \<and>
     set (r_child root) \<subseteq> set (r_child root') \<and>
     (\<forall>c\<in>set (r_child root') - set (r_child root). range_of c \<subseteq> {s..e} - occupied root \<and> r_flags c = IORESOURCE_BUSY) \<and>
     (enough \<longrightarrow> {s..e} \<subseteq> occupied root')"

lemma reserved_id: "wf_resource root \<Longrightarrow> (enough \<Longrightarrow> {s..e} \<subseteq> occupied root) \<Longrightarrow> reserved enough root s e root"
  by (simp add: reserved_def)

lemma occupied_mono: "set (r_child a) \<subseteq> set (r_child b) \<Longrightarrow> occupied a \<subseteq> occupied b"
  by (auto simp: occupied_def)

lemma reserved_trans:
  assumes "reserved enough root s1 e1 r1" "reserved enough r1 s2 e2 r2" "{s1..e1} \<subseteq> {s..e}" "{s2..e2} \<subseteq> {s..e}"
    "enough \<Longrightarrow> {s..e} \<subseteq> occupied root \<union> {s1..e1} \<union> {s2..e2}"
  shows "reserved enough root s e r2"
proof -
  have sub: "occupied root \<subseteq> occupied r1" "occupied r1 \<subseteq> occupied r2"
    using assms(1,2) by (auto simp: reserved_def occupied_mono)
  have "range_of c \<subseteq> {s..e} - occupied root \<and> r_flags c = IORESOURCE_BUSY"
    if "c \<in> set (r_child r2)" "c \<notin> set (r_child root)" for c
  proof (cases "c \<in> set (r_child r1)")
    case True
    then show ?thesis using assms(1,3) that unfolding reserved_def by blast
  next
    case False
    then have "range_of c \<subseteq> {s2..e2} - occupied r1" "r_flags c = IORESOURCE_BUSY"
      using assms(2) that unfolding reserved_def by blast+
    then show ?thesis using sub assms(4) by blast
  qed
  moreover have "{s..e} \<subseteq> occupied r2" if enough
    using assms(1,2,5) that sub unfolding reserved_def by blast
  moreover have "wf_resource r2" "r_start r2 = r_start root" "r_end r2 = r_end root"
      "set (r_child root) \<subseteq> set (r_child r2)"
    using assms(1,2) unfolding reserved_def by auto
  ultimately show ?thesis unfolding reserved_def by blast
qed

lemma reserved_place:
  assumes "wf_resource root" "wf_resource new" "range_of new \<subseteq> free root" "r_flags new = IORESOURCE_BUSY"
  shows "reserved enough root (r_start new) (r_end new) (set_children (place new (r_child root)) root)"
  using assms wf_place [OF assms(1,2)] inside_free_iff [OF assms(1) wf_range [OF assms(2)]]
  by (auto simp: reserved_def occupied_place) (auto simp: range_of_def free_def occupied_def)

definition reserves :: "(nat \<Rightarrow> resource \<Rightarrow> u32 \<Rightarrow> u32 \<Rightarrow> (resource \<times> nat) option) \<Rightarrow> bool \<Rightarrow> nat \<Rightarrow> bool" where
  "reserves run enough len \<longleftrightarrow>
     (\<forall>n root s e. wf_resource root \<longrightarrow> s \<le> e \<longrightarrow> r_start root \<le> s \<longrightarrow> e \<le> r_end root \<longrightarrow> unat e - unat s < len \<longrightarrow>
       (\<exists>root' n'. run n root s e = Some (root', n') \<and> reserved enough root s e root'))"

lemma reserves_left:
  assumes run: "reserves run enough (unat e - unat s)" and wf: "wf_resource root"
    and c: "r_start root \<le> s" "r_start c \<le> e" "e \<le> r_end root"
  obtains r1 n1 s1 e1 where
    "(if r_start c > s then run n root s (r_start c - 1) else Some (root, n)) = Some (r1, n1)"
    "reserved enough root s1 e1 r1" "{s1..e1} = {s..<r_start c}"
proof (cases "s < r_start c")
  case True
  then have pos: "0 < r_start c" by (auto simp: word_gt_0)
  note pred = le_pred_iff [OF pos]
  have le: "s \<le> r_start c - 1" "r_start c - 1 \<le> r_end root" "r_start c - 1 < e"
    using True c pred [of s] pred [of "r_start c - 1"] by auto
  have len: "unat (r_start c - 1) - unat s < unat e - unat s"
    using le(1,3) by (auto simp: word_less_nat_alt word_le_nat_alt)
  from run wf le(1,2) c(1) len obtain r1 n1 where
    "run n root s (r_start c - 1) = Some (r1, n1)" "reserved enough root s (r_start c - 1) r1"
    unfolding reserves_def by blast
  moreover have "{s..r_start c - 1} = {s..<r_start c}" by (auto simp: pred)
  ultimately show thesis using that True by simp
next
  case False
  then show thesis using reserved_id [OF wf, of enough 1 0] by (intro that [of root n 1 0]) auto
qed

lemma reserves_right:
  assumes run: "reserves run enough (unat e - unat s)" and wf: "wf_resource root"
    and c: "r_start root \<le> s" "s \<le> r_end c" "e \<le> r_end root"
  obtains r1 n1 s1 e1 where
    "(if r_end c < e then run n root (r_end c + 1) e else Some (root, n)) = Some (r1, n1)"
    "reserved enough root s1 e1 r1" "{s1..e1} = {r_end c<..e}"
proof (cases "r_end c < e")
  case True
  note succ = succ_le_iff [OF True]
  have le: "r_end c + 1 \<le> e" "r_start root \<le> r_end c + 1" "s < r_end c + 1"
    using True c succ [of e] succ [of "r_end c + 1"] by auto
  have len: "unat e - unat (r_end c + 1) < unat e - unat s"
    using le(1,3) by (auto simp: word_less_nat_alt word_le_nat_alt)
  from run wf le(1,2) c(3) len obtain r1 n1 where
    "run n root (r_end c + 1) e = Some (r1, n1)" "reserved enough root (r_end c + 1) e r1"
    unfolding reserves_def by blast
  moreover have "{r_end c + 1..e} = {r_end c<..e}" by (auto simp: succ)
  ultimately show thesis using that True by simp
next
  case False
  then show thesis using reserved_id [OF wf, of enough 1 0] by (intro that [of root n 1 0]) auto
qed

text \<open>One round of the recursion.\<close>

lemma reserves_around:
  assumes run: "reserves run enough (unat e - unat s)" and wf: "wf_resource root"
    and c: "c \<in> set (r_child root)" "r_start root \<le> s" "r_start c \<le> e" "s \<le> r_end c" "e \<le> r_end root"
  shows "\<exists>root' n'. (if r_start c \<le> s \<and> r_end c \<ge> e then Some (root, n)
       else Option.bind (if r_start c > s then run n root s (r_start c - 1) else Some (root, n))
         (\<lambda>(root, n). if r_end c < e then run n root (r_end c + 1) e else Some (root, n))) = Some (root', n') \<and>
     reserved enough root s e root'"
proof -
  have occ: "range_of c \<subseteq> occupied root" using c(1) by (auto simp: occupied_def)
  obtain r1 n1 s1 e1 where 1: "(if r_start c > s then run n root s (r_start c - 1) else Some (root, n)) = Some (r1, n1)"
    "reserved enough root s1 e1 r1" "{s1..e1} = {s..<r_start c}"
    using reserves_left [OF run wf c(2,3,5)] by blast
  then have wf1: "wf_resource r1" "r_start r1 \<le> s" "e \<le> r_end r1" using c by (simp_all add: reserved_def)
  obtain r2 n2 s2 e2 where 2: "(if r_end c < e then run n1 r1 (r_end c + 1) e else Some (r1, n1)) = Some (r2, n2)"
    "reserved enough r1 s2 e2 r2" "{s2..e2} = {r_end c<..e}"
    using reserves_right [OF run wf1(1,2) c(4) wf1(3)] by blast
  have sub: "{s..e} \<subseteq> occupied root \<union> {s..<r_start c} \<union> {r_end c<..e}"
  proof
    fix x assume "x \<in> {s..e}"
    then show "x \<in> occupied root \<union> {s..<r_start c} \<union> {r_end c<..e}"
      using occ by (cases "x \<in> range_of c") (auto simp: range_of_def)
  qed
  have "reserved enough root s e r2"
  proof (rule reserved_trans [OF 1(2) 2(2)])
    show "{s1..e1} \<subseteq> {s..e}" unfolding 1(3) using c(3) by auto
    show "{s2..e2} \<subseteq> {s..e}" unfolding 2(3) using c(4) by auto
    show "{s..e} \<subseteq> occupied root \<union> {s1..e1} \<union> {s2..e2}" unfolding 1(3) 2(3) by (rule sub)
  qed
  moreover have "reserved enough root s e root" if "r_start c \<le> s \<and> r_end c \<ge> e"
  proof -
    have "{s..e} \<subseteq> range_of c" using that by (auto simp: range_of_def)
    then show ?thesis using occ by (intro reserved_id [OF wf]) blast
  qed
  ultimately show ?thesis using 1(1) 2(1) by auto
qed

lemma reserve_ends:
  "wf_resource root \<Longrightarrow> s \<le> e \<Longrightarrow> r_start root \<le> s \<Longrightarrow> e \<le> r_end root \<Longrightarrow>
   \<exists>root' n'. reserve_region_with_split alloc name n root s e = Some (root', n') \<and>
     reserved (\<forall>m. alloc m \<noteq> None) root s e root'"
proof (induction "unat e - unat s" arbitrary: root s e n rule: less_induct)
  case less
  let ?enough = "\<forall>m. alloc m \<noteq> None" and ?run = "reserve_region_with_split alloc name"
  have IH: "reserves ?run ?enough (unat e - unat s)"
    unfolding reserves_def using less.hyps by blast
  show ?case
  proof (cases "alloc n")
    case None
    then have "\<not> ?enough" by blast
    then have "reserved ?enough root s e root" by (intro reserved_id [OF less.prems(1)]) simp
    then show ?thesis by (subst reserve_region_with_split.simps) (simp add: None)
  next
    case (Some a)
    let ?new = "Resource a s e name IORESOURCE_BUSY []"
    have new: "wf_resource ?new" "inside ?new root" using less.prems by (simp_all add: inside_def)
    show ?thesis
    proof (cases "find (\<lambda>c. overlaps c ?new) (r_child root)")
      case None
      then have "\<forall>c\<in>set (r_child root). \<not> overlaps c ?new" by (auto simp: find_None_iff)
      then have "range_of ?new \<subseteq> free root" using inside_free_iff [OF less.prems(1) wf_range [OF new(1)]] new by blast
      from reserved_place [OF less.prems(1) new(1) this] show ?thesis
        by (subst reserve_region_with_split.simps)
          (simp add: Some request_conflict_eq [OF less.prems(1)] new less.prems None)
    next
      case c: (Some c)
      then have c': "c \<in> set (r_child root)" "r_start c \<le> e" "s \<le> r_end c" by (auto simp: find_Some_iff overlaps_def)
      have "?run n root s e =
        (if r_start c \<le> s \<and> r_end c \<ge> e then Some (root, Suc n)
         else Option.bind (if r_start c > s then ?run (Suc n) root s (r_start c - 1) else Some (root, Suc n))
           (\<lambda>(root, n). if r_end c < e then ?run n root (r_end c + 1) e else Some (root, n)))"
        by (subst reserve_region_with_split.simps)
          (simp add: Some request_conflict_eq [OF less.prems(1)] new less.prems c)
      then show ?thesis
        using reserves_around [OF IH less.prems(1) c'(1) less.prems(3) c'(2,3) less.prems(4), of "Suc n"] by simp
    qed
  qed
qed

text \<open>
  C27: Reserving a range inside the root ends, whatever is in the way. The tree stays well-formed and keeps its children;
  the new ones are busy and cover only parts of the range that were not occupied; if no allocation
  fails, all of the range is occupied afterwards.
\<close>

theorem reserve_region_covers:
  assumes "wf_resource root" "s \<le> e" "r_start root \<le> s" "e \<le> r_end root"
  shows "\<exists>root' n'. reserve_region_with_split alloc name n root s e = Some (root', n') \<and> wf_resource root' \<and>
    set (r_child root) \<subseteq> set (r_child root') \<and>
    (\<forall>c\<in>set (r_child root') - set (r_child root). range_of c \<subseteq> {s..e} - occupied root \<and> r_flags c = IORESOURCE_BUSY) \<and>
    ((\<forall>m. alloc m \<noteq> None) \<longrightarrow> {s..e} \<subseteq> occupied root')"
  using reserve_ends [OF assms, of alloc name n] unfolding reserved_def by blast

text \<open>With a range that begins below the root the recursion never ends.\<close>

lemma reserve_below_root:
  "reserve_region_with_split alloc name n root s e = Some r \<Longrightarrow>
   \<not> (s < r_start root \<and> s \<le> e \<and> (\<forall>m. alloc m \<noteq> None))"
proof (induction alloc name n root s e r rule: reserve_region_with_split.raw_induct [rotated, consumes 1, case_names step])
  case (step run alloc name n root s e r)
  show ?case
  proof
    assume a: "s < r_start root \<and> s \<le> e \<and> (\<forall>m. alloc m \<noteq> None)"
    then obtain res where res: "alloc n = Some res" by blast
    have "request_resource_conflict root (Resource res s e name IORESOURCE_BUSY []) = Inl root"
      using a by (simp add: request_resource_conflict_def)
    then obtain r' where "run alloc name (Suc n) root s (r_start root - 1) = Some r'"
      using step(2) a res by (auto simp: not_le bind_eq_Some_conv split: if_splits)
    moreover have "0 < r_start root" using a by (auto simp: word_gt_0)
    then have "s \<le> r_start root - 1" using a by (simp add: le_pred_iff)
    ultimately show False using step(1) a by blast
  qed
qed

theorem reserve_region_below_root_loops:
  assumes "s < r_start root" "s \<le> e" "\<forall>m. alloc m \<noteq> None"
  shows "reserve_region_with_split alloc name n root s e = None"
  using reserve_below_root [of alloc name n root s e] assms by (cases "reserve_region_with_split alloc name n root s e") auto

section \<open>Regions\<close>

definition is_busy :: "resource \<Rightarrow> bool" where
  "is_busy r \<longleftrightarrow> r_flags r AND IORESOURCE_BUSY \<noteq> 0"

text \<open>Nothing that overlaps the region is busy, and all of it contains the region.\<close>

definition region_free :: "resource \<Rightarrow> resource \<Rightarrow> bool" where
  "region_free p res \<longleftrightarrow> inside res p \<and> (\<forall>x\<in>set (below p). overlaps x res \<longrightarrow> \<not> is_busy x \<and> inside res x)"

text \<open>What a request without waiting promises, and that the release undoes it.\<close>

definition turn_ok :: "resource \<Rightarrow> resource \<Rightarrow> region_turn \<Rightarrow> bool" where
  "turn_ok p res t \<longleftrightarrow>
     (if region_free p res
      then \<exists>p'. t = Placed p' \<and> wf_resource p' \<and> info p' = info p \<and> nodes p' = add_mset (info res) (nodes p) \<and>
             release_region_loop (r_start res) (r_end res) (r_child p') = Some (r_child p)
      else t = Refused)"

lemma release_skip:
  "\<forall>d\<in>set pre. before d res \<Longrightarrow> r_start res \<le> r_end res \<Longrightarrow>
   release_region_loop (r_start res) (r_end res) (pre @ cs) =
     map_option ((@) pre) (release_region_loop (r_start res) (r_end res) cs)"
proof (induction pre)
  case (Cons d pre)
  then have "\<not> r_end d \<ge> r_end res" by (auto simp: before_def)
  then show ?case using Cons by (cases d) (auto simp: option.map_comp comp_def)
next
  case Nil
  show ?case by (cases "release_region_loop (r_start res) (r_end res) cs") simp_all
qed

lemma release_here:
  "r_start c \<le> s \<Longrightarrow> e \<le> r_end c \<Longrightarrow> \<not> is_busy c \<Longrightarrow>
   release_region_loop s e (c # cs) = map_option (\<lambda>ds. set_children ds c # cs) (release_region_loop s e (r_child c))"
  "is_busy c \<Longrightarrow> r_start c = s \<Longrightarrow> r_end c = e \<Longrightarrow> release_region_loop s e (c # cs) = Some cs"
  by (cases c; simp add: is_busy_def set_children_def)+

lemma place_chain:
  assumes "chain_ok cs" "r_start new \<le> r_end new" "\<forall>c\<in>set cs. \<not> overlaps c new"
  shows "filter (\<lambda>c. before c new) cs @ filter (\<lambda>c. \<not> before c new) cs = cs"
  using assms(1,3)
proof (induction cs)
  case (Cons c cs)
  show ?case
  proof (cases "before c new")
    case False
    then have "before new c" using Cons.prems assms(2) by (auto simp: not_overlaps)
    from not_before [OF Cons.prems(1) this _ assms(2)] have "filter (\<lambda>c. before c new) cs = []"
      "filter (\<lambda>c. \<not> before c new) cs = cs" by (auto simp: filter_empty_conv)
    then show ?thesis using False by simp
  qed (use Cons in auto)
qed simp

lemma granted_free:
  assumes "wf_resource p" "wf_resource res" "r_child res = []" "is_busy res" "inside res p"
    "\<forall>c\<in>set (r_child p). \<not> overlaps c res"
  shows "turn_ok p res (Placed (set_children (place res (r_child p)) p))"
proof -
  note res = wf_range [OF assms(2)]
  have "\<not> overlaps x res" if x: "x \<in> set (below p)" for x
  proof -
    obtain c where "c \<in> set (r_child p)" "x = c \<or> x \<in> set (below c)" using below_cases [OF x] by blast
    then show ?thesis using assms(6) laminar_below [OF wf_child [OF assms(1)]] by blast
  qed
  then have "region_free p res" using assms(5) by (simp add: region_free_def)
  moreover have "release_region_loop (r_start res) (r_end res) (place res (r_child p)) = Some (r_child p)"
    unfolding place_def using release_skip [of "filter (\<lambda>c. before c res) (r_child p)", OF _ res]
      release_here(2) [OF assms(4) refl refl] place_chain [OF wf_chain [OF assms(1)] res assms(6)] by simp
  moreover have "wf_resource (set_children (place res (r_child p)) p) \<and>
      nodes (set_children (place res (r_child p)) p) = add_mset (info res) (nodes p)"
    using inserted_free [OF assms(1-3,5,6)] laminar_all [OF assms(1)] assms(5,6) unfolding inserted_def by auto
  ultimately show ?thesis unfolding turn_ok_def by auto
qed

lemma granted_descend:
  assumes wf: "wf_resource p" "wf_resource res" "distinct_ids p"
    and split: "r_child p = pre @ c # post" "\<forall>d\<in>set pre. before d res" "overlaps c res" "\<not> is_busy c"
    and ins: "inside res p" and g: "turn_ok c res t"
  shows "turn_ok p res (rebuild (r_id c) p t)"
proof -
  note res = wf_range [OF wf(2)]
  have c: "c \<in> set (r_child p)" using split(1) by simp
  have free: "region_free p res \<longleftrightarrow> region_free c res"
  proof
    assume "region_free p res"
    then show "region_free c res" using child_below [OF c] below_child [OF c] split(3) unfolding region_free_def by blast
  next
    assume f: "region_free c res"
    then have "x = c \<or> x \<in> set (below c) \<or> \<not> overlaps x res" if "x \<in> set (below p)" for x
      using below_around [OF wf(1) res split(1) _ that] by (simp add: region_free_def)
    then show "region_free p res" using f split(4) ins unfolding region_free_def by blast
  qed
  show ?thesis
  proof (cases "region_free c res")
    case True
    then obtain c' where c': "t = Placed c'" "wf_resource c'" "info c' = info c" "nodes c' = add_mset (info res) (nodes c)"
        "release_region_loop (r_start res) (r_end res) (r_child c') = Some (r_child c)"
      using g by (auto simp: turn_ok_def)
    have same: "r_start c' = r_start c" "r_end c' = r_end c" "is_busy c' = is_busy c" "set_children (r_child c) c' = c"
      using c'(3) by (cases c; cases c'; simp add: info_def is_busy_def set_children_def)+
    have "release_region_loop (r_start res) (r_end res) (pre @ c' # post) = Some (r_child p)"
      using release_skip [OF split(2) res] release_here(1) [of c' "r_start res" "r_end res" post] True c'(5) same split(1,4)
      by (simp add: region_free_def inside_def)
    then show ?thesis
      using True free c'(1) replace_child [OF wf(1) split(1) c'(2-4)] map_child_split [OF wf(3) split(1), of "\<lambda>_. c'"]
      by (auto simp: turn_ok_def rebuild_def)
  next
    case False
    then show ?thesis using g free by (auto simp: turn_ok_def rebuild_def)
  qed
qed

lemma region_loop_granted:
  "wf_resource p \<Longrightarrow> wf_resource res \<Longrightarrow> r_child res = [] \<Longrightarrow> is_busy res \<Longrightarrow> distinct_ids p \<Longrightarrow>
   flags AND IORESOURCE_MUXED = 0 \<Longrightarrow> turn_ok p res (region_loop p res flags)"
proof (induction "size p" arbitrary: p rule: less_induct)
  case less
  note res = wf_range [OF less.prems(2)]
  have mux: "x AND flags AND IORESOURCE_MUXED = 0" for x using less.prems(6) by (metis and.assoc and_zero_eq)
  note req = request_conflict_eq [OF less.prems(1), of res]
  show ?case
  proof (cases "inside res p")
    case False
    then show ?thesis
      by (subst region_loop.simps) (simp add: req turn_ok_def region_free_def mux and.assoc)
  next
    case ins: True
    show ?thesis
    proof (cases "find (\<lambda>c. overlaps c res) (r_child p)")
      case None
      then have "\<forall>c\<in>set (r_child p). \<not> overlaps c res" by (auto simp: find_None_iff)
      from granted_free [OF less.prems(1-4) ins this] show ?thesis
        by (subst region_loop.simps) (simp add: req ins res None)
    next
      case (Some c)
      obtain pre post where split: "r_child p = pre @ c # post" "overlaps c res" "\<forall>d\<in>set pre. before d res"
        using split_overlap [OF wf_chain [OF less.prems(1)] Some res] by blast
      have c: "c \<in> set (r_child p)" using split(1) by simp
      have id: "r_id c \<noteq> r_id p" "distinct_ids c" using distinct_ids_child [OF less.prems(5) c] by simp_all
      show ?thesis
      proof (cases "is_busy c")
        case True
        then have "\<not> region_free p res" using child_below [OF c] split(2) by (auto simp: region_free_def)
        then show ?thesis using True
          by (subst region_loop.simps) (simp add: req ins res Some id is_busy_def turn_ok_def mux)
      next
        case False
        have "turn_ok c res (region_loop c res flags)"
          using less.hyps [OF child_size [OF c] wf_child [OF less.prems(1) c]] less.prems(2-4,6) id(2) by blast
        from granted_descend [OF less.prems(1,2,5) split(1,3,2) False ins this] show ?thesis
          using False by (subst region_loop.simps) (simp add: req ins res Some id is_busy_def)
      qed
    qed
  qed
qed

lemma region_granted:
  assumes "wf_resource root" "distinct_ids root" "start \<le> start + n - 1" "flags AND IORESOURCE_MUXED = 0"
  shows "if region_free root (Resource a start (start + n - 1) name (IORESOURCE_BUSY OR flags) [])
    then \<exists>root'. request_region (Some a) (r_id root) start n name flags root naps = Region root' \<and> wf_resource root' \<and>
           nodes root' = add_mset (info (Resource a start (start + n - 1) name (IORESOURCE_BUSY OR flags) [])) (nodes root) \<and>
           release_region root' start n = Some root
    else request_region (Some a) (r_id root) start n name flags root naps = Region_null root"
proof -
  let ?res = "Resource a start (start + n - 1) name (IORESOURCE_BUSY OR flags) []"
  have "(IORESOURCE_BUSY OR flags) AND IORESOURCE_BUSY = IORESOURCE_BUSY" by (rule bit_word_eqI) (auto simp: bit_simps)
  then have busy: "is_busy ?res" by (simp add: is_busy_def IORESOURCE_BUSY_def)
  have root: "find_node (r_id root) root = Some root" "update_node (r_id root) p root = p" for p
    by (cases root; simp)+
  have "wf_resource ?res" using assms(3) by simp
  from region_loop_granted [OF assms(1) this _ busy assms(2,4)]
  have g: "turn_ok root ?res (region_loop root ?res flags)" by simp
  have "set_children (r_child root) p' = root" if "info p' = info root" for p'
    using that by (cases root; cases p'; simp add: info_def set_children_def)
  then show ?thesis
    using g root unfolding turn_ok_def request_region_def request_region_loop.simps [of "r_id root"]
    by (auto simp: release_region_def split: if_splits)
qed

text \<open>
  C17: A request for a region that may not wait is granted exactly if the region is inside the root, and everything in
  the tree that overlaps it contains it and is not busy. Then the tree stays well-formed, has the region in
  addition, and releasing the region gives back the tree as it was; otherwise the call fails and changes nothing.
\<close>

theorem request_region_exact:
  assumes "wf_resource root" "distinct_ids root" "start \<le> start + n - 1" "flags AND IORESOURCE_MUXED = 0"
    and res: "res = Resource a start (start + n - 1) name (IORESOURCE_BUSY OR flags) []"
  shows "if inside res root \<and> (\<forall>x\<in>set (below root). overlaps x res \<longrightarrow> \<not> is_busy x \<and> inside res x)
    then \<exists>root'. request_region (Some a) (r_id root) start n name flags root naps = Region root' \<and> wf_resource root' \<and>
           nodes root' = add_mset (info res) (nodes root) \<and> release_region root' start n = Some root
    else request_region (Some a) (r_id root) start n name flags root naps = Region_null root"
  using region_granted [OF assms(1-4), of a name naps] unfolding res region_free_def .

section \<open>System memory\<close>

definition system_ram :: "resource \<Rightarrow> bool" where
  "system_ram p \<longleftrightarrow> r_flags p = (IORESOURCE_MEM OR IORESOURCE_BUSY) \<and> r_name p = ''System RAM''"

abbreviation ram_after :: "u32 \<Rightarrow> u32 \<Rightarrow> resource list \<Rightarrow> resource option" where
  "ram_after s e \<equiv> ram_loop s e (IORESOURCE_MEM OR IORESOURCE_BUSY) (Some ''System RAM'')"

lemma ram_loop_covering:
  "chain_ok cs \<Longrightarrow> s < e \<Longrightarrow> p \<in> set cs \<Longrightarrow> system_ram p \<Longrightarrow> r_start p \<le> s \<Longrightarrow> e \<le> r_end p \<Longrightarrow> ram_after s e cs = Some p"
proof (induction cs)
  case (Cons c cs)
  show ?case
  proof (cases "c = p")
    case False
    then have "r_end c < s" "r_start c \<le> s" "p \<in> set cs" using Cons.prems by (auto simp: before_def)
    then show ?thesis using Cons by auto
  qed (use Cons.prems in \<open>auto simp: system_ram_def\<close>)
qed simp

lemma ram_loop_found: "ram_after s e cs = Some p \<Longrightarrow> p \<in> set cs \<and> system_ram p \<and> s \<le> r_end p \<and> r_start p < e"
  by (induction cs) (auto simp: system_ram_def split: if_splits)

text \<open>A page frame as addresses.\<close>

lemma page_addresses:
  fixes pfn :: u32
  assumes "pfn < 0xfffff"
  shows "unat (ucast (push_bit PAGE_SHIFT (ucast pfn) :: u64) :: u32) = unat pfn * 4096"
    and "unat (ucast (push_bit PAGE_SHIFT (ucast (pfn + 1)) - 1 :: u64) :: u32) = unat pfn * 4096 + 4095"
proof -
  have p: "unat pfn < 0xfffff" using assms by (simp add: word_less_nat_alt)
  have q: "unat (pfn + 1) = unat pfn + 1"
    using p by (subst unat_add_lem [THEN iffD1]) simp_all
  have shift: "unat (push_bit PAGE_SHIFT (ucast x) :: u64) = unat x * 4096" for x :: u32
  proof -
    have "unat (push_bit PAGE_SHIFT (ucast x) :: u64) = unat (ucast x :: u64) * 4096 mod 2 ^ 64"
      by (simp add: PAGE_SHIFT_def push_bit_eq_mult unat_word_ariths)
    then show ?thesis using unat_u32_less [of x] by (simp add: unat_ucast_u64)
  qed
  have low: "unat (ucast y :: u32) = unat y" if "unat y < 2 ^ 32" for y :: u64
    using that by (simp add: unsigned_ucast_eq take_bit_eq_mod)
  show "unat (ucast (push_bit PAGE_SHIFT (ucast pfn) :: u64) :: u32) = unat pfn * 4096"
    using p by (subst low) (simp_all add: shift)
  have "unat (push_bit PAGE_SHIFT (ucast (pfn + 1)) - 1 :: u64) = unat pfn * 4096 + 4095"
  proof -
    have "push_bit PAGE_SHIFT (ucast (pfn + 1)) \<noteq> (0 :: u64)"
      using shift [of "pfn + 1"] q by (auto simp del: push_bit_eq_0_iff)
    then show ?thesis by (simp add: unat_minus_one shift q del: push_bit_eq_0_iff)
  qed
  then show "unat (ucast (push_bit PAGE_SHIFT (ucast (pfn + 1)) - 1 :: u64) :: u32) = unat pfn * 4096 + 4095"
    using p by (subst low) simp_all
qed

lemma unat_pfn: "unat (drop_bit PAGE_SHIFT x :: u32) = unat x div 4096"
  by (simp add: PAGE_SHIFT_def drop_bit_eq_div unat_div)

text \<open>Only a whole page gives the walk something to visit.\<close>

lemma page_visited:
  fixes pfn :: u32
  assumes "pfn < 0xfffff" "unat start = unat pfn * 4096" "unat end' = unat pfn * 4096 + 4095"
    "start \<le> s" "s \<le> end'" "start \<le> e" "e \<le> end'"
  shows "drop_bit PAGE_SHIFT (s + 2 ^ PAGE_SHIFT - 1) < (drop_bit PAGE_SHIFT (e + 1) :: u32) \<longleftrightarrow> s = start \<and> e = end'"
proof -
  have p: "unat pfn < 0xfffff" using assms(1) by (simp add: word_less_nat_alt)
  define i where "i = unat s - unat pfn * 4096"
  define j where "j = unat e - unat pfn * 4096"
  have i: "unat s = unat pfn * 4096 + i" "i \<le> 4095" and j: "unat e = unat pfn * 4096 + j" "j \<le> 4095"
    using assms(2-7) unfolding i_def j_def word_le_nat_alt by linarith+
  have "s + 2 ^ PAGE_SHIFT - 1 = s + 4095" by (simp add: PAGE_SHIFT_def)
  then have "unat (s + 2 ^ PAGE_SHIFT - 1) = unat pfn * 4096 + (i + 4095)"
    using p i by (simp add: unat_word_ariths)
  moreover have "unat (e + 1) = unat pfn * 4096 + (j + 1)"
    using p j by (simp add: unat_word_ariths)
  moreover have "(i + 4095) div 4096 = (if i = 0 then 0 else 1)" "(j + 1) div 4096 = (if j = 4095 then 1 else 0)"
    using i(2) j(2) by (auto intro!: div_nat_eqI)
  moreover have "(unat pfn * 4096 + k) div 4096 = unat pfn + k div 4096" for k by simp
  ultimately have "drop_bit PAGE_SHIFT (s + 2 ^ PAGE_SHIFT - 1) < (drop_bit PAGE_SHIFT (e + 1) :: u32) \<longleftrightarrow>
      unat pfn + (if i = 0 then 0 else 1) < unat pfn + (if j = 4095 then 1 else 0)"
    unfolding word_less_nat_alt unat_pfn by (simp only:)
  then have "drop_bit PAGE_SHIFT (s + 2 ^ PAGE_SHIFT - 1) < (drop_bit PAGE_SHIFT (e + 1) :: u32) \<longleftrightarrow> i = 0 \<and> j = 4095"
    by auto
  then show ?thesis using assms(2,3) i(1) j(1) by (auto simp: word_unat_eq_iff)
qed

text \<open>
  C38: Below the last page frame, \<^verbatim>\<open>page_is_ram\<close> answers yes exactly if one child of the memory map that is marked as system memory
  covers the whole page; it always answers.
\<close>

theorem page_is_ram_exact:
  assumes "wf_resource iomem" "pfn < 0xfffff"
  shows "page_is_ram iomem pfn =
    Some (\<exists>p\<in>set (r_child iomem). r_flags p = (IORESOURCE_MEM OR IORESOURCE_BUSY) \<and> r_name p = ''System RAM'' \<and>
            unat (r_start p) \<le> unat pfn * 4096 \<and> unat pfn * 4096 + 4095 \<le> unat (r_end p))"
proof -
  let ?s = "ucast (push_bit PAGE_SHIFT (ucast pfn) :: u64) :: u32"
  let ?e = "ucast (push_bit PAGE_SHIFT (ucast (pfn + 1)) - 1 :: u64) :: u32"
  note a = page_addresses [OF assms(2)]
  have lt: "?s < ?e" unfolding word_less_nat_alt a by simp
  have chain: "chain_ok (r_child iomem)" using wf_chain [OF assms(1)] .
  have cover: "(\<exists>p\<in>set (r_child iomem). r_flags p = (IORESOURCE_MEM OR IORESOURCE_BUSY) \<and> r_name p = ''System RAM'' \<and>
      unat (r_start p) \<le> unat pfn * 4096 \<and> unat pfn * 4096 + 4095 \<le> unat (r_end p)) \<longleftrightarrow>
    (\<exists>p. ram_after ?s ?e (r_child iomem) = Some p \<and> r_start p \<le> ?s \<and> ?e \<le> r_end p)"
    using ram_loop_covering [OF chain lt] ram_loop_found [of ?s ?e "r_child iomem"]
    unfolding word_le_nat_alt a system_ram_def by metis
  have step: "page_is_ram iomem pfn = map_option (\<lambda>(_, ret). ret = 1)
      (case find_next_system_ram iomem ?s ?e (IORESOURCE_MEM OR IORESOURCE_BUSY) (Some ''System RAM'') of
         None \<Rightarrow> Some ((), - 1 :: int)
       | Some (s, e) \<Rightarrow> Some ((), if drop_bit PAGE_SHIFT (s + 2 ^ PAGE_SHIFT - 1) < drop_bit PAGE_SHIFT (e + 1) then 1 else - 1))"
    unfolding page_is_ram_def walk_system_ram_range_def
    by (subst walk_ram_loop.simps) (auto simp: lt Let_def split: option.split)
  show ?thesis
  proof (cases "ram_after ?s ?e (r_child iomem)")
    case None
    then show ?thesis unfolding cover step by (simp add: find_next_system_ram_def)
  next
    case (Some p)
    note p = ram_loop_found [OF Some]
    have "r_start p \<le> r_end p" using p chain by (auto simp: chain_ok_def)
    let ?cs = "if ?s < r_start p then r_start p else ?s" and ?ce = "if ?e > r_end p then r_end p else ?e"
    have "?s \<le> ?cs" "?cs \<le> ?e" "?s \<le> ?ce" "?ce \<le> ?e" using p lt by auto
    note v = page_visited [OF assms(2) a this]
    show ?thesis unfolding cover step using v by (auto simp: find_next_system_ram_def Some)
  qed
qed

section \<open>The tree under all operations\<close>

definition tree_ok :: "resource \<Rightarrow> bool" where
  "tree_ok p \<longleftrightarrow> wf_resource p \<and> distinct_ids p"

text \<open>An operation keeps the tree in order and its root as it is.\<close>

definition tree_next :: "resource \<Rightarrow> resource \<Rightarrow> bool" where
  "tree_next p p' \<longleftrightarrow> tree_ok p' \<and> info p' = info p"

definition new_ok :: "resource \<Rightarrow> resource \<Rightarrow> bool" where
  "new_ok p new \<longleftrightarrow> r_child new = [] \<and> r_id new \<notin> set (ids p)"

lemma mset_ids: "mset (ids r) = image_mset fst (nodes r)"
  by (simp add: ids_def nodes_def info_def image_mset.compositionality comp_def)

lemma distinct_ids_add:
  assumes "distinct_ids p" "r_id new \<notin> set (ids p)" "nodes p' = add_mset (info new) (nodes p)"
  shows "distinct_ids p'"
proof -
  have "mset (ids p') = mset (r_id new # ids p)" by (simp add: mset_ids assms(3)) (simp add: info_def)
  then show ?thesis using assms(1,2) mset_eq_imp_distinct_iff unfolding distinct_ids_def by fastforce
qed

lemma distinct_ids_sub:
  assumes "distinct_ids p" "nodes p' \<subseteq># nodes p"
  shows "distinct_ids p'"
proof -
  have "count (mset (ids p')) i \<le> count (mset (ids p)) i" for i
    using image_mset_subseteq_mono [OF assms(2), of fst] by (simp add: mset_ids mset_subset_eq_count)
  moreover have "count (mset (ids p)) i \<le> 1" for i
    using assms(1) unfolding distinct_ids_def by (simp add: distinct_count_atmost_1)
  ultimately have "count (mset (ids p')) i \<le> 1" for i using le_trans by blast
  then show ?thesis unfolding distinct_ids_def distinct_count_atmost_1
    by (metis count_greater_eq_one_iff count_mset_0_iff le_antisym not_in_iff set_mset_mset)
qed

text \<open>
  What the operations that add a resource have in common: the new resource, possibly moved, is added and nothing else
  changes.
\<close>

locale tree_insertion =
  fixes ins :: "resource \<Rightarrow> resource \<Rightarrow> resource result"
  assumes ins_adds: "ins p new = Inr p' \<Longrightarrow> tree_ok p \<Longrightarrow> new_ok p new \<Longrightarrow>
    wf_resource p' \<and> info p' = info p \<and> (\<exists>s e. nodes p' = add_mset (info (set_range_res s e new)) (nodes p))"
begin

lemma ins_tree_ok: "ins p new = Inr p' \<Longrightarrow> tree_ok p \<Longrightarrow> new_ok p new \<Longrightarrow> tree_next p p'"
  using ins_adds [of p new p'] distinct_ids_add [of p "set_range_res _ _ new" p']
  by (auto simp: tree_ok_def new_ok_def tree_next_def)

lemma ins_keeps: "ins p new = Inr p' \<Longrightarrow> tree_ok p \<Longrightarrow> new_ok p new \<Longrightarrow> nodes p \<subseteq># nodes p'"
  using ins_adds [of p new p'] by auto

end

lemma request_adds:
  assumes "request_resource_conflict p new = Inr p'" "wf_resource p" "r_child new = []"
  shows "wf_resource p' \<and> info p' = info p \<and> nodes p' = add_mset (info new) (nodes p)"
proof -
  have r: "r_start new \<le> r_end new" "range_of new \<subseteq> free p" "p' = set_children (place new (r_child p)) p"
    using assms(1) request_free [OF assms(2)] by auto
  have new: "wf_resource new" using r(1) assms(3) by (cases new) auto
  have i: "inside new p" "\<forall>c\<in>set (r_child p). \<not> overlaps c new"
    using inside_free_iff [OF assms(2) r(1)] r(2) by auto
  show ?thesis
    using inserted_free [OF assms(2) new assms(3) i] laminar_all [OF assms(2), of new] i r(3) by (auto simp: inserted_def)
qed

lemma set_range_same: "set_range_res (r_start r) (r_end r) r = r"
  by (cases r) (simp add: set_range_res_def)

lemma insert_needs_range:
  assumes "wf_resource p" "insert_resource_conflict p new = Inr p'"
  shows "r_start new \<le> r_end new"
  using assms by (subst (asm) insert_resource_conflict.simps) (auto simp: request_conflict_eq split: if_splits)

interpretation request: tree_insertion request_resource
proof
  fix p new p' assume a: "request_resource p new = Inr p'" "tree_ok p" "new_ok p new"
  then have "request_resource_conflict p new = Inr p'"
    by (cases "request_resource_conflict p new") (auto simp: request_resource_def)
  from request_adds [OF this] a show "wf_resource p' \<and> info p' = info p \<and> (\<exists>s e. nodes p' = add_mset (info (set_range_res s e new)) (nodes p))"
    using set_range_same [of new] by (metis tree_ok_def new_ok_def)
qed

interpretation insertion: tree_insertion insert_resource
proof
  fix p new p' assume a: "insert_resource p new = Inr p'" "tree_ok p" "new_ok p new"
  then have c: "insert_resource_conflict p new = Inr p'"
    by (cases "insert_resource_conflict p new") (auto simp: insert_resource_def)
  have "wf_resource new"
    using insert_needs_range [OF _ c] a(2,3) by (cases new) (auto simp: tree_ok_def new_ok_def)
  then show "wf_resource p' \<and> info p' = info p \<and> (\<exists>s e. nodes p' = add_mset (info (set_range_res s e new)) (nodes p))"
    using insert_resource_inserted [of p new] a(2,3) c set_range_same [of new]
    unfolding tree_ok_def new_ok_def inserted_def by (metis sum.distinct(1) sum.inject(2))
qed

interpretation allocation: tree_insertion
  "\<lambda>p new. case allocate_resource p new False sz lo hi align alignf of Some r \<Rightarrow> r | None \<Rightarrow> Inl EBUSY"
  for sz lo hi align alignf
proof
  fix p new p'
  assume a: "(case allocate_resource p new False sz lo hi align alignf of Some r \<Rightarrow> r | None \<Rightarrow> Inl EBUSY) = Inr p'"
    "tree_ok p" "new_ok p new"
  then obtain s e where "request_resource_conflict p (set_range_res s e new) = Inr p'"
    by (auto simp: allocate_resource_def Let_def split: option.splits sum.splits)
  from request_adds [OF this] a(2,3)
  show "wf_resource p' \<and> info p' = info p \<and> (\<exists>s e. nodes p' = add_mset (info (set_range_res s e new)) (nodes p))"
    by (auto simp: tree_ok_def new_ok_def)
qed

text \<open>Releasing and adjusting.\<close>

lemma release_loop_split:
  "release_loop i cs = Some ds \<Longrightarrow> \<exists>pre c post. cs = pre @ c # post \<and> ds = pre @ post"
proof (induction cs arbitrary: ds)
  case (Cons c cs)
  show ?case
  proof (cases "r_id c = i")
    case True
    then show ?thesis using Cons.prems by (intro exI [of _ "[]"]) auto
  next
    case False
    then obtain ds' where ds': "release_loop i cs = Some ds'" "ds = c # ds'" using Cons.prems by auto
    from Cons.IH [OF ds'(1)] obtain pre x post where "cs = pre @ x # post" "ds' = pre @ post" by blast
    then show ?thesis using ds'(2) by (intro exI [of _ "c # pre"]) auto
  qed
qed simp

lemma release_ok:
  assumes "tree_ok p" "release_resource i p = Inr p'"
  shows "tree_next p p'"
proof -
  obtain pre c post where split: "r_child p = pre @ c # post" "p' = set_children (pre @ post) p"
    using assms(2) release_loop_split by (fastforce simp: release_resource_def split: option.splits)
  have wf: "wf_resource p" "distinct_ids p" using assms(1) by (simp_all add: tree_ok_def)
  have "chain_ok (pre @ c # post)" using wf_chain [OF wf(1)] split(1) by simp
  then have "chain_ok (pre @ post)" unfolding chain_ok_append by simp
  then have "wf_resource p'"
    using wf_child [OF wf(1)] wf_child_inside [OF wf(1)] wf_range [OF wf(1)] by (simp add: split wf_set_children ball_Un)
  moreover have "nodes p' \<subseteq># nodes p"
    using nodes_eq [of p] unfolding split by (simp add: nodes_set_children)
  ultimately show ?thesis using distinct_ids_sub [OF wf(2)] split(2) by (simp add: tree_ok_def tree_next_def)
qed

lemma release_region_loop_ok:
  "release_region_loop s e cs = Some ds \<Longrightarrow> chain_ok cs \<Longrightarrow> \<forall>c\<in>set cs. wf_resource c \<Longrightarrow>
   chain_ok ds \<and> (\<forall>d\<in>set ds. wf_resource d \<and> (\<exists>c\<in>set cs. r_start d = r_start c \<and> r_end d = r_end c)) \<and>
   (\<Sum>c\<leftarrow>ds. nodes c) \<subseteq># (\<Sum>c\<leftarrow>cs. nodes c)"
proof (induction s e cs arbitrary: ds rule: release_region_loop.induct)
  case (2 start end' i s e n f cs rs)
  let ?r = "Resource i s e n f cs"
  have wf: "wf_resource ?r" "chain_ok rs" "\<forall>c\<in>set rs. wf_resource c" "\<forall>c\<in>set rs. before ?r c"
    using "2.prems"(2,3) by simp_all
  show ?case
  proof (cases "s \<le> start \<and> e \<ge> end'")
    case in_r: True
    show ?thesis
    proof (cases "f AND IORESOURCE_BUSY = 0")
      case True
      then obtain cs' where cs': "release_region_loop start end' cs = Some cs'" "ds = Resource i s e n f cs' # rs"
        using "2.prems"(1) in_r by auto
      from "2.IH"(1) [OF in_r True cs'(1)] wf(1) have ok: "chain_ok cs'"
        "\<forall>d\<in>set cs'. wf_resource d \<and> (\<exists>c\<in>set cs. r_start d = r_start c \<and> r_end d = r_end c)"
        "(\<Sum>c\<leftarrow>cs'. nodes c) \<subseteq># (\<Sum>c\<leftarrow>cs. nodes c)" by auto
      have "wf_resource (Resource i s e n f cs')" using wf(1) ok by auto
      moreover have "nodes (Resource i s e n f cs') \<subseteq># nodes ?r"
        using ok(3) by (subst (1 2) nodes_eq) (simp add: info_def)
      ultimately show ?thesis using wf cs'(2) by (auto simp: before_def subset_mset.add_mono)
    next
      case False
      then show ?thesis using "2.prems"(1) in_r wf by (auto split: if_splits)
    qed
  next
    case False
    then obtain ds' where ds': "release_region_loop start end' rs = Some ds'" "ds = ?r # ds'"
      using "2.prems"(1) by auto
    from "2.IH"(2) [OF False ds'(1) wf(2,3)] have ok: "chain_ok ds'"
      "\<forall>d\<in>set ds'. wf_resource d \<and> (\<exists>c\<in>set rs. r_start d = r_start c \<and> r_end d = r_end c)"
      "(\<Sum>c\<leftarrow>ds'. nodes c) \<subseteq># (\<Sum>c\<leftarrow>rs. nodes c)" by auto
    have "before ?r d" if "d \<in> set ds'" for d using that ok(2) wf(4) unfolding before_def by metis
    then show ?thesis using ok wf ds'(2) by (auto simp: subset_mset.add_mono)
  qed
qed simp

lemma release_region_ok:
  assumes "tree_ok p" "release_region p start n = Some p'"
  shows "tree_next p p'"
proof -
  have wf: "wf_resource p" "distinct_ids p" using assms(1) by (simp_all add: tree_ok_def)
  obtain ds where ds: "release_region_loop start (start + n - 1) (r_child p) = Some ds" "p' = set_children ds p"
    using assms(2) by (auto simp: release_region_def)
  have ok: "chain_ok ds" "\<forall>d\<in>set ds. wf_resource d \<and> (\<exists>c\<in>set (r_child p). r_start d = r_start c \<and> r_end d = r_end c)"
    "(\<Sum>c\<leftarrow>ds. nodes c) \<subseteq># (\<Sum>c\<leftarrow>r_child p. nodes c)"
    using release_region_loop_ok [OF ds(1) wf_chain [OF wf(1)]] wf_child [OF wf(1)] by auto
  have "inside d p" if "d \<in> set ds" for d
    using ok(2) that wf_child_inside [OF wf(1)] unfolding inside_def by metis
  then have "wf_resource p'" using ok wf_range [OF wf(1)] by (simp add: ds(2) wf_set_children)
  moreover have "nodes p' \<subseteq># nodes p"
    using ok(3) nodes_eq [of p] by (simp add: ds(2) nodes_set_children)
  ultimately show ?thesis using distinct_ids_sub [OF wf(2)] ds(2) by (simp add: tree_ok_def tree_next_def)
qed

lemma adjust_ok:
  assumes "tree_ok p" "adjust_resource res start sz p = Some (Inr p')" "start \<le> start + sz - 1"
  shows "tree_next p p'"
proof -
  have wf: "wf_resource p" "distinct_ids p" using assms(1) by (simp_all add: tree_ok_def)
  have p': "p' = map_child res (set_range_res start (start + sz - 1)) p"
    using assms(2) by (auto simp: adjust_resource_def Let_def split: option.splits if_splits)
  moreover have "below (set_range_res s e c) = below c" for s e c by (cases c) (simp add: set_range_res_def)
  ultimately have "ids p' = ids p"
    unfolding ids_eq [of p] ids_eq [of p'] map_child_def by (auto simp: ids_def intro!: arg_cong [of _ _ concat])
  then show ?thesis
    using adjust_resource_wf [OF wf assms(2,3)] wf(2) p' by (simp add: tree_ok_def distinct_ids_def tree_next_def map_child_def)
qed

text \<open>Whether a region is placed without a sleep does not depend on waiting being allowed.\<close>

lemma region_loop_placed: "region_loop p res flags = Placed p' \<Longrightarrow> region_loop p res 0 = Placed p'"
proof (induction p res flags arbitrary: p' rule: region_loop.induct)
  case (1 parent res flags)
  show ?case
  proof (cases "request_resource_conflict parent res")
    case (Inl c)
    then have go: "r_id c \<noteq> r_id parent \<and> r_flags c AND IORESOURCE_BUSY = 0"
      using "1.prems" by (subst (asm) region_loop.simps) (auto split: if_splits)
    then have "rebuild (r_id c) parent (region_loop c res flags) = Placed p'"
      using "1.prems" Inl by (subst (asm) region_loop.simps) simp
    then obtain c' where "region_loop c res flags = Placed c'" "p' = map_child (r_id c) (\<lambda>_. c') parent"
      by (auto simp: rebuild_def split: region_turn.splits)
    then show ?thesis
      using "1.IH" [OF Inl go] Inl go by (subst region_loop.simps) (simp add: rebuild_def)
  next
    case (Inr q)
    then show ?thesis using "1.prems" by (subst region_loop.simps) (subst (asm) region_loop.simps, simp)
  qed
qed

lemma request_region_ok:
  assumes "tree_ok p" "request_region (Some a) (r_id p) start n name flags p [] = Region p'" "a \<notin> set (ids p)"
  shows "tree_next p p'"
proof -
  have wf: "wf_resource p" "distinct_ids p" using assms(1) by (simp_all add: tree_ok_def)
  let ?res = "Resource a start (start + n - 1) name (IORESOURCE_BUSY OR flags) []"
  have root: "find_node (r_id p) p = Some p" "update_node (r_id p) q p = q" for q by (cases p; simp)+
  then have placed: "region_loop p ?res flags = Placed p'"
    using assms(2) unfolding request_region_def request_region_loop.simps [of "r_id p"]
    by (auto split: region_turn.splits)
  have "request_resource_conflict p ?res = Inl p" if "start + n - 1 < start"
    using that by (simp add: request_resource_conflict_def)
  then have le: "start \<le> start + n - 1"
    using placed by (subst (asm) region_loop.simps) (force split: if_splits)
  have "(IORESOURCE_BUSY OR flags) AND IORESOURCE_BUSY = IORESOURCE_BUSY" by (rule bit_word_eqI) (auto simp: bit_simps)
  then have busy: "is_busy ?res" by (simp add: is_busy_def IORESOURCE_BUSY_def)
  have "wf_resource ?res" using le by simp
  from region_loop_granted [OF wf(1) this _ busy wf(2), of 0]
  have "wf_resource p' \<and> info p' = info p \<and> nodes p' = add_mset (info ?res) (nodes p)"
    using region_loop_placed [OF placed] by (auto simp: turn_ok_def split: if_splits)
  then show ?thesis using distinct_ids_add [OF wf(2), of ?res] assms(3) by (simp add: tree_ok_def tree_next_def)
qed

text \<open>
  Reserving a range: every allocation of the call, from number \<open>n\<close> on, yields an address of its own that is not in the
  tree.
\<close>

definition fresh_supply :: "(nat \<Rightarrow> nat option) \<Rightarrow> nat \<Rightarrow> resource \<Rightarrow> bool" where
  "fresh_supply alloc n p \<longleftrightarrow>
     (\<forall>m\<ge>n. \<forall>i. alloc m = Some i \<longrightarrow> i \<notin> set (ids p) \<and> (\<forall>k\<ge>n. alloc k = Some i \<longrightarrow> k = m))"

lemma fresh_supply_Suc: "fresh_supply alloc n p \<Longrightarrow> fresh_supply alloc (Suc n) p"
  unfolding fresh_supply_def by (meson Suc_leD)

lemma request_fresh:
  assumes "tree_ok p" "fresh_supply alloc n p" "alloc n = Some res"
    "request_resource_conflict p (Resource res s e name flags []) = Inr p'"
  shows "tree_next p p' \<and> fresh_supply alloc (Suc n) p'"
proof -
  let ?new = "Resource res s e name flags []"
  have wf: "wf_resource p" "distinct_ids p" using assms(1) by (simp_all add: tree_ok_def)
  have new: "res \<notin> set (ids p)" using assms(2,3) unfolding fresh_supply_def by blast
  have add: "wf_resource p'" "info p' = info p" "nodes p' = add_mset (info ?new) (nodes p)"
    using request_adds [OF assms(4) wf(1)] by simp_all
  have "mset (ids p') = mset (res # ids p)" by (simp add: mset_ids add(3)) (simp add: info_def)
  then have ids: "set (ids p') = insert res (set (ids p))" by (metis list.simps(15) set_mset_mset)
  have "fresh_supply alloc (Suc n) p'"
    unfolding fresh_supply_def
  proof (intro allI impI conjI)
    fix m i assume m: "m \<ge> Suc n" "alloc m = Some i"
    then have old: "i \<notin> set (ids p)" "\<And>k. k \<ge> n \<Longrightarrow> alloc k = Some i \<Longrightarrow> k = m"
      using assms(2) Suc_leD unfolding fresh_supply_def by blast+
    have "i \<noteq> res" using old(2) [of n] assms(3) m by auto
    then show "i \<notin> set (ids p')" using old(1) ids by simp
    show "k = m" if "k \<ge> Suc n" "alloc k = Some i" for k using old(2) that by simp
  qed
  then show ?thesis
    using add distinct_ids_add [OF wf(2), of ?new] new by (simp add: tree_next_def tree_ok_def)
qed

lemma tree_next_trans: "tree_next p q \<Longrightarrow> tree_next q r \<Longrightarrow> tree_next p r"
  by (simp add: tree_next_def)

lemma reserve_ok:
  "reserve_region_with_split alloc name n p s e = Some r \<Longrightarrow> tree_ok p \<Longrightarrow> fresh_supply alloc n p \<Longrightarrow>
   tree_next p (fst r) \<and> fresh_supply alloc (snd r) (fst r)"
proof (induction alloc name n p s e r rule: reserve_region_with_split.raw_induct [rotated, consumes 1, case_names step])
  case (step run alloc name n p s e r)
  note fresh = fresh_supply_Suc [OF step(4)]
  have same: "tree_next p p" using step(3) by (simp add: tree_next_def)
  show ?case
  proof (cases "alloc n")
    case None
    then show ?thesis using step(2) same fresh by auto
  next
    case (Some res)
    show ?thesis
    proof (cases "request_resource_conflict p (Resource res s e name IORESOURCE_BUSY [])")
      case (Inr p')
      then show ?thesis using step(2) Some request_fresh [OF step(3,4) Some Inr] by auto
    next
      case (Inl c)
      let ?left = "if r_start c > s then run alloc name (Suc n) p s (r_start c - 1) else Some (p, Suc n)"
      show ?thesis
      proof (cases "r_start c \<le> s \<and> r_end c \<ge> e")
        case True
        then show ?thesis using step(2) Some Inl same fresh by auto
      next
        case False
        then obtain q m where q: "?left = Some (q, m)"
          "(if r_end c < e then run alloc name m q (r_end c + 1) e else Some (q, m)) = Some r"
          using step(2) Some Inl by (auto simp: bind_eq_Some_conv split: if_splits)
        have left: "tree_next p q \<and> fresh_supply alloc m q"
          using q(1) step(1) [of alloc name "Suc n" p s "r_start c - 1" "(q, m)"] step(3) same fresh
          by (auto split: if_splits)
        then have "tree_ok q" by (simp add: tree_next_def)
        then show ?thesis
          using q(2) step(1) [of alloc name m q "r_end c + 1" e r] left tree_next_trans [of p q "fst r"]
          by (auto split: if_splits)
      qed
    qed
  qed
qed

text \<open>An operation on a resource inside the tree.\<close>

lemma inner_ok:
  assumes "tree_ok p" "r_child p = pre @ c # post" "tree_next c c'" "set (ids c') \<inter> (set (ids p) - set (ids c)) = {}"
  shows "tree_next p (set_children (pre @ c' # post) p)"
proof -
  let ?p' = "set_children (pre @ c' # post) p"
  have wf: "wf_resource p" "distinct_ids p" "wf_resource c'" "distinct_ids c'"
    using assms(1,3) by (simp_all add: tree_ok_def tree_next_def)
  have same: "r_start c' = r_start c" "r_end c' = r_end c" using assms(3) by (simp_all add: tree_next_def info_def)
  have "chain_ok (pre @ c # post)" using wf_chain [OF wf(1)] assms(2) by simp
  then have "chain_ok (pre @ c' # post)" using same unfolding chain_ok_append by (auto simp: before_def)
  moreover have "\<forall>d\<in>set (pre @ c # post). inside d p \<and> wf_resource d"
    using wf_child [OF wf(1)] wf_child_inside [OF wf(1)] assms(2) by simp
  ultimately have "wf_resource ?p'"
    using wf_range [OF wf(1)] wf(3) same by (simp add: wf_set_children ball_Un inside_def)
  moreover have "distinct_ids ?p'"
  proof -
    let ?before = "r_id p # concat (map ids pre)" and ?behind = "concat (map ids post)"
    have p: "ids p = ?before @ ids c @ ?behind" "ids ?p' = ?before @ ids c' @ ?behind"
      unfolding ids_eq [of ?p'] ids_eq [of p] assms(2) by simp_all
    have "set ?before \<inter> set (ids c') = {}" "set (ids c') \<inter> set ?behind = {}"
      using wf(2) assms(4) unfolding distinct_ids_def p(1) distinct_append set_append by blast+
    then show ?thesis using wf(2,4) unfolding distinct_ids_def p distinct_append set_append by blast
  qed
  ultimately show ?thesis by (simp add: tree_next_def tree_ok_def)
qed

text \<open>
  The operations as steps, on the root or on any resource inside the tree. Callers hand in a resource that is in no
  tree yet and has no children, and memory is allocated at an unused address. A region is requested without sleeping,
  and a resource is adjusted to a range that is not empty and does not wrap around: \<^verbatim>\<open>adjust_resource\<close> does not check
  this, and neither \<^verbatim>\<open>reallocate_resource\<close> nor a sleeping request for a muxed region is a step (the examples at the
  end show what these do to the tree).
\<close>

inductive tree_step :: "resource \<Rightarrow> resource \<Rightarrow> bool" where
  step_request: "new_ok p new \<Longrightarrow> request_resource p new = Inr p' \<Longrightarrow> tree_step p p'"
| step_insert: "new_ok p new \<Longrightarrow> insert_resource p new = Inr p' \<Longrightarrow> tree_step p p'"
| step_expand: "new_ok p new \<Longrightarrow> insert_resource_expand_to_fit p new False = Some (p', new') \<Longrightarrow> tree_step p p'"
| step_allocate: "new_ok p new \<Longrightarrow> allocate_resource p new False sz lo hi align alignf' = Some (Inr p') \<Longrightarrow> tree_step p p'"
| step_release: "release_resource i p = Inr p' \<Longrightarrow> tree_step p p'"
| step_adjust: "start \<le> start + sz - 1 \<Longrightarrow> adjust_resource i start sz p = Some (Inr p') \<Longrightarrow> tree_step p p'"
| step_reserve: "fresh_supply alloc n p \<Longrightarrow> reserve_region_with_split alloc name n p s e = Some (p', n') \<Longrightarrow> tree_step p p'"
| step_request_region: "a \<notin> set (ids p) \<Longrightarrow>
    request_region (Some a) (r_id p) start n name flags p [] = Region p' \<Longrightarrow> tree_step p p'"
| step_release_region: "release_region p start n = Some p' \<Longrightarrow> tree_step p p'"
| step_inner: "r_child p = pre @ c # post \<Longrightarrow> tree_step c c' \<Longrightarrow> set (ids c') \<inter> (set (ids p) - set (ids c)) = {} \<Longrightarrow>
    tree_step p (set_children (pre @ c' # post) p)"

text \<open>At the start the root has no children.\<close>

definition bare_root :: "resource \<Rightarrow> bool" where
  "bare_root p \<longleftrightarrow> r_child p = [] \<and> r_start p \<le> r_end p"

lemma bare_root_ok: "bare_root p \<Longrightarrow> tree_ok p"
  by (cases p) (simp add: bare_root_def tree_ok_def distinct_ids_def ids_def)

lemma expand_ok:
  assumes "tree_ok p" "new_ok p new" "insert_resource_expand_to_fit p new False = Some (p', new')"
  shows "tree_next p p'"
proof (cases "r_start new \<le> r_end new \<and> inside new p")
  case True
  then show ?thesis
    using expand_loop_inserts [of p new] distinct_ids_add [of p new' p'] assms
    by (auto simp: tree_ok_def new_ok_def tree_next_def insert_resource_expand_to_fit_def)
next
  case False
  then have "insert_resource_conflict p new = Inl p"
    using request_conflict_eq [of p new] assms(1) by (subst insert_resource_conflict.simps) (auto simp: tree_ok_def)
  then have "p' = p" using assms(3) by (simp add: insert_resource_expand_to_fit_def expand_loop_step)
  then show ?thesis using assms(1) by (simp add: tree_next_def)
qed

lemma allocate_ok:
  "tree_ok p \<Longrightarrow> new_ok p new \<Longrightarrow> allocate_resource p new False sz lo hi align alignf' = Some (Inr p') \<Longrightarrow> tree_next p p'"
  using allocation.ins_tree_ok [where p = p and new = new and p' = p' and sz = sz and lo = lo and hi = hi
      and align = align and alignf = alignf'] by simp

lemma tree_step_next: "tree_step p p' \<Longrightarrow> tree_ok p \<Longrightarrow> tree_next p p'"
proof (induction rule: tree_step.induct)
  case (step_reserve alloc n p name s e p' n')
  then show ?case using reserve_ok by fastforce
next
  case (step_inner p pre c post c')
  then have "tree_ok c"
    using wf_child [of p c] distinct_ids_child [of p c] by (simp add: tree_ok_def)
  then show ?case using step_inner inner_ok by blast
next
  case (step_request p new p')
  then show ?case using request.ins_tree_ok by blast
next
  case (step_insert p new p')
  then show ?case using insertion.ins_tree_ok by blast
next
  case (step_expand p new p' new')
  then show ?case using expand_ok by blast
next
  case (step_allocate p new sz lo hi align alignf' p')
  then show ?case using allocate_ok by blast
next
  case (step_release i p p')
  then show ?case using release_ok by blast
next
  case (step_adjust start sz i p p')
  then show ?case using adjust_ok by blast
next
  case (step_request_region a p start n name flags p')
  then show ?case using request_region_ok by blast
next
  case (step_release_region p start n p')
  then show ?case using release_region_ok by blast
qed

lemma tree_step_ok: "tree_ok p \<Longrightarrow> tree_step p p' \<Longrightarrow> tree_ok p'"
  using tree_step_next by (auto simp: tree_next_def)

interpretation resource_tree: invariant_system bare_root tree_step tree_ok
  by unfold_locales (auto intro: bare_root_ok tree_step_ok)

lemma chain_order: "chain_ok cs \<Longrightarrow> c \<in> set cs \<Longrightarrow> d \<in> set cs \<Longrightarrow> c \<noteq> d \<Longrightarrow> before c d \<or> before d c"
  by (induction cs) auto

lemma tree_laminar:
  "wf_resource p \<Longrightarrow> x \<in> set (p # below p) \<Longrightarrow> y \<in> set (p # below p) \<Longrightarrow> laminar x y"
proof (induction p arbitrary: x y rule: below.induct)
  case (1 i s e n f cs)
  let ?p = "Resource i s e n f cs"
  have sub: "inside z ?p" if "z \<in> set (?p # below ?p)" for z
    using wf_below [OF "1.prems"(1)] that by (auto simp: inside_def)
  show ?case
  proof (cases "x = ?p \<or> y = ?p")
    case True
    then show ?thesis using sub "1.prems"(2,3) unfolding laminar_def by blast
  next
    case False
    then obtain c d where c: "c \<in> set cs" "x \<in> set (c # below c)" and d: "d \<in> set cs" "y \<in> set (d # below d)"
      using "1.prems"(2,3) by auto
    have wf: "wf_resource c" "wf_resource d" "chain_ok cs" using "1.prems"(1) c(1) d(1) by auto
    have ins: "inside x c" "inside y d" using wf_below [OF wf(1)] wf_below [OF wf(2)] c(2) d(2) by (auto simp: inside_def)
    show ?thesis
    proof (cases "c = d")
      case True
      then show ?thesis using "1.IH" [OF c(1) wf(1)] c(2) d(2) by blast
    next
      case False
      then have "before c d \<or> before d c" using chain_order wf(3) c(1) d(1) by blast
      then show ?thesis using ins by (auto simp: laminar_def before_def inside_def overlaps_def)
    qed
  qed
qed

text \<open>
  C5: Take any tree that is built from a root without children by the steps above: \<^verbatim>\<open>request_resource\<close>,
  \<^verbatim>\<open>insert_resource\<close>, \<^verbatim>\<open>insert_resource_expand_to_fit\<close> and \<^verbatim>\<open>allocate_resource\<close> with a new resource without children,
  \<^verbatim>\<open>release_resource\<close>, \<^verbatim>\<open>reserve_region_with_split\<close>, \<^verbatim>\<open>request_region\<close> without sleeping, \<^verbatim>\<open>release_region\<close>, and
  \<^verbatim>\<open>adjust_resource\<close> to a range that is not empty and does not wrap, each on the root or on any resource inside the
  tree. Then all addresses of resources differ, all ranges are non-empty, and any two resources are disjoint or one
  contains the other.
\<close>

theorem resource_tree_nested:
  assumes "reachable bare_root tree_step p"
  shows "distinct (map r_id (p # below p)) \<and>
    (\<forall>x\<in>set (p # below p). r_start x \<le> r_end x \<and>
      (\<forall>y\<in>set (p # below p). \<not> overlaps x y \<or> inside x y \<or> inside y x))"
proof -
  have ok: "wf_resource p" "distinct_ids p"
    using resource_tree.reachable_inv [OF assms] by (simp_all add: tree_ok_def)
  have "r_start x \<le> r_end x" if "x \<in> set (p # below p)" for x
    using that ok(1) wf_below [OF ok(1)] wf_range by auto
  then show ?thesis
    using tree_laminar [OF ok(1)] ok(2) unfolding laminar_def distinct_ids_def ids_def by blast
qed

text \<open>A bus window, and a device below it.\<close>

definition window_tree :: resource where
  "window_tree = Resource 0 0 0xffff ''io'' 0 [Resource 5 0x1000 0x1fff ''bus'' 0 [Resource 6 0x1000 0x100f ''dev'' 0 []]]"

lemma window_tree_reachable: "reachable bare_root tree_step window_tree"
proof -
  let ?root = "Resource 0 0 0xffff ''io'' 0 []" and ?bus = "Resource 5 0x1000 0x1fff ''bus'' 0 []"
  let ?dev = "Resource 6 0x1000 0x100f ''dev'' 0 []"
  have ok: "bare_root ?root" "new_ok ?root ?bus" "new_ok ?bus ?dev" by (simp_all add: bare_root_def new_ok_def ids_def)
  have "request_resource ?root ?bus = Inr (set_children [?bus] ?root)" by code_simp
  from step_request [OF ok(2) this] have r: "reachable bare_root tree_step (set_children [?bus] ?root)"
    by (rule reach_step [OF reach_start [of bare_root, OF ok(1)]])
  have "request_resource ?bus ?dev = Inr (set_children [?dev] ?bus)" by code_simp
  from step_request [OF ok(3) this] have bus: "tree_step ?bus (set_children [?dev] ?bus)" .
  have "tree_step (set_children [?bus] ?root) (set_children ([] @ set_children [?dev] ?bus # []) (set_children [?bus] ?root))"
    by (rule step_inner [OF _ bus]) (simp_all add: ids_def set_children_def)
  moreover have "set_children ([] @ set_children [?dev] ?bus # []) (set_children [?bus] ?root) = window_tree"
    by (simp add: window_tree_def set_children_def)
  ultimately show ?thesis using reach_step [OF r] by (simp only:)
qed

theorem resource_tree_nested_witness:
  "distinct (map r_id (window_tree # below window_tree)) \<and> length (below window_tree) = 2 \<and>
   (\<exists>x\<in>set (below window_tree). \<exists>y\<in>set (below window_tree). x \<noteq> y \<and> overlaps x y \<and> (inside x y \<or> inside y x))"
proof -
  have mem: "below window_tree = [Resource 5 0x1000 0x1fff ''bus'' 0 [Resource 6 0x1000 0x100f ''dev'' 0 []],
      Resource 6 0x1000 0x100f ''dev'' 0 []]" (is "_ = [?x, ?y]")
    by (simp add: window_tree_def)
  have "overlaps ?x ?y" by (simp add: overlaps_def)
  then have "inside ?x ?y \<or> inside ?y ?x" "distinct (map r_id (window_tree # below window_tree))"
    using resource_tree_nested [OF window_tree_reachable] unfolding mem by simp_all
  then show ?thesis using \<open>overlaps ?x ?y\<close> unfolding mem by auto
qed

section \<open>Examples\<close>

text \<open>A memory map with a bridge that has a busy region behind it, and system memory.\<close>

definition example_ram :: resource where
  "example_ram = Resource 2 0x4000 0x7fff ''System RAM'' 0x80000200 []"

definition example_bridge :: resource where
  "example_bridge = Resource 8 0x1000 0x1fff ''PCI bridge'' 0x200 [Resource 3 0x1100 0x11ff ''card'' 0x80000200 []]"

definition example_map :: resource where
  "example_map = Resource 0 0 0xffff ''PCI mem'' 0x200 [example_bridge, example_ram]"

lemmas example_defs = example_map_def example_bridge_def example_ram_def

lemma example_wf: "wf_resource example_map" "distinct_ids example_map"
  by (simp_all add: example_defs before_def distinct_ids_def ids_def)

lemma example_free: "x \<in> free example_map \<longleftrightarrow> x \<le> 0xffff \<and> \<not> (0x1000 \<le> x \<and> x \<le> 0x1fff) \<and> \<not> (0x4000 \<le> x \<and> x \<le> 0x7fff)"
  by (auto simp: free_def range_of_def example_defs)

lemma example_gap: "{0x8000..0x8fff} \<subseteq> free example_map"
  unfolding subset_iff example_free by (auto simp: word_le_nat_alt)

theorem request_resource_exact_witness:
  "\<exists>root'. request_resource example_map (Resource 7 0x8000 0x8fff ''new'' 0 []) = Inr root' \<and>
     release_resource 7 root' = Inr example_map"
  using request_resource_exact [of example_map "Resource 7 0x8000 0x8fff ''new'' 0 []"] example_wf example_gap
  by (auto simp: example_defs range_of_def)

theorem allocate_resource_exact_witness:
  "\<exists>root' a. allocate_resource example_map (Resource 7 0 0 ''new'' 0 []) False 0x1000 0x3000 0xffff (2 ^ 15) None = Some (Inr root') \<and>
     wf_resource root' \<and> fits 15 0x1000 0x3000 0xffff (free example_map) a \<and> a \<le> 0x8000"
proof -
  have "fits 15 0x1000 0x3000 0xffff (free example_map) 0x8000"
    using example_gap by (simp add: fits_def aligned_def)
  then show ?thesis
    using allocate_resource_exact [of example_map "Resource 7 0 0 ''new'' 0 []" 15 "0x1000" "0x3000" "0xffff"] example_wf
    by (auto split: if_splits)
qed

theorem insert_resource_exact_witness:
  "\<exists>p. insert_resource example_map (Resource 7 0x800 0x2fff ''new'' 0 []) = Inr p \<and>
     nodes p = add_mset (7, 0x800, 0x2fff, ''new'', 0) (nodes example_map)"
  using insert_resource_exact [of example_map "Resource 7 0x800 0x2fff ''new'' 0 []"] example_wf
  by (auto simp: example_defs inside_def overlaps_def ids_def info_def)

theorem reserve_region_covers_witness:
  "\<exists>root' n'. reserve_region_with_split (\<lambda>m. Some (m + 10)) ''mem'' 0 example_map 0x1800 0x4800 = Some (root', n') \<and>
     {0x1800..0x4800} \<subseteq> occupied root'"
  using reserve_region_covers [of example_map "0x1800" "0x4800" "\<lambda>m. Some (m + 10)" "''mem''" 0] example_wf
  by (auto simp: example_map_def)

theorem request_region_exact_witness:
  "\<exists>root'. request_region (Some 7) 0 0x1200 0x100 ''drv'' 0 example_map [] = Region root' \<and>
     release_region root' 0x1200 0x100 = Some example_map"
  using request_region_exact [of example_map "0x1200" "0x100" 0 _ 7 "''drv''" "[]"] example_wf
  by (auto simp: example_defs inside_def overlaps_def is_busy_def IORESOURCE_BUSY_def)

theorem page_is_ram_exact_witness: "page_is_ram example_map 5 = Some True"
  using page_is_ram_exact [of example_map 5] example_wf
  by (auto simp: example_defs IORESOURCE_MEM_def IORESOURCE_BUSY_def)

section \<open>Where the code goes wrong\<close>

text \<open>
  A child that ends at the last address makes the search go on at address zero. A resource in front of it can then
  grow over it, and the call reports success.
\<close>

definition full_map :: resource where
  "full_map = Resource 0 0 0xffffffff ''PCI mem'' 0x200
     [Resource 1 0 0xfff ''a'' 0x200 [], Resource 2 0x1000 0xffffffff ''b'' 0x200 []]"

theorem reallocate_resource_overlaps:
  "reallocate_resource full_map (Resource 1 0 0xfff ''a'' 0x200 []) 0x2000 (default_constraint 0 0xffffffff 12) =
     Some (Inr (set_children [Resource 1 0 0x1fff ''a'' 0x200 [], Resource 2 0x1000 0xffffffff ''b'' 0x200 []] full_map))"
  by code_simp

text \<open>
  A request that waits for a muxed region goes on below that region: released meanwhile, it is used after it was
  freed, and still held, it gets a second holder.
\<close>

definition muxed_map :: resource where
  "muxed_map = Resource 0 0 0xffff ''io'' 0x100 [Resource 2 0x60 0x6f ''first'' 0x80400000 []]"

theorem muxed_wait_uses_freed_region:
  "release_region muxed_map 0x60 0x10 = Some (set_children [] muxed_map) \<and>
   request_region (Some 3) 0 0x60 0x10 ''second'' IORESOURCE_MUXED muxed_map [set_children [] muxed_map] = Region_freed"
  by code_simp

theorem muxed_region_held_twice:
  "request_region (Some 3) 0 0x60 0x10 ''second'' IORESOURCE_MUXED muxed_map [muxed_map] =
     Region (set_children [Resource 2 0x60 0x6f ''first'' 0x80400000 [Resource 3 0x60 0x6f ''second'' 0x80400000 []]] muxed_map)"
  by code_simp

text \<open>Memory that is smaller than a page hides all memory behind it from a walk.\<close>

definition split_ram :: resource where
  "split_ram = Resource 0 0 0xffff ''PCI mem'' 0x200
     [Resource 2 0x1000 0x17ff ''System RAM'' 0x80000200 [], Resource 3 0x4000 0x7fff ''System RAM'' 0x80000200 []]"

theorem walk_stops_at_partial_page:
  "walk_system_ram_range (\<lambda>pfn nr st. (st @ [(pfn, nr)], 0)) split_ram 0 8 [] = Some ([], - 1) \<and>
   walk_system_ram_range (\<lambda>pfn nr st. (st @ [(pfn, nr)], 0)) split_ram 2 6 [] = Some ([(4, 4)], 0)"
  by code_simp

text \<open>A size of zero gives an adjusted resource that ends before it starts.\<close>

theorem adjust_resource_inverts:
  "adjust_resource 2 0x2000 0 (Resource 0 0 0xffff ''io'' 0 [Resource 2 0x1000 0x1fff ''a'' 0 []]) =
     Some (Inr (Resource 0 0 0xffff ''io'' 0 [Resource 2 0x2000 0x1fff ''a'' 0 []]))"
  by code_simp

end
