(* ===== verification/Spec2Isabelle.thy ===== *)
theory Spec2Isabelle
  imports Bpf_Filter Vfs_Permission Locking Lock_Syscalls Resource_Tree
begin

text \<open>
  Verification of core algorithms of the Linux 3.0.8 kernel (\<^verbatim>\<open>src/kernel\<close>).

  \<^bold>\<open>The parts and how they interact.\<close> The development covers parts of the kernel in which
  a wrong decision is a security hole or a loss of mutual exclusion: who may do what (credentials, groups,
  capabilities, access control lists, permission checks), who holds what (sleeping locks, file locks,
  leases), and what untrusted programs may run inside the kernel (socket filters on packets).
  Permission checks read the groups and capabilities of a credential, which the set-id system calls,
  \<^verbatim>\<open>capset\<close>, \<^verbatim>\<open>prctl\<close> and \<^verbatim>\<open>execve\<close> change; the file lock calls ask for capabilities and file ownership
  before they set a lease; socket filters read packets through the socket buffer accessors.

  \<^bold>\<open>Conventions\<close> (\<^verbatim>\<open>Kernel_Prelude\<close>). An unsigned C integer is a word of its width, so that arithmetic
  wraps as in C; a signed one is a word read with \<^term>\<open>sint\<close>, or an \<^typ>\<open>int\<close> where the values provably stay in
  range. A structure is a record, an enumeration a datatype. A function that returns a negative error
  number has the result type \<^typ>\<open>errno + 'a\<close>, with every early return of the source as a branch.
  Pointers that the code compares or shares are addresses into an explicit store; elsewhere a structure
  is a value. A code section under a spinlock is one step. A task that sleeps is a state, and what other
  tasks do meanwhile is either a further step of a transition system or an argument. What the kernel
  takes from outside a modelled function (allocations that may fail, security hooks, the clock, audit) is
  an argument too. \<^verbatim>\<open>invariant_system\<close> is the interface of a transition system with an invariant;
  every such system below is an interpretation of it.

  \<^item> \<^verbatim>\<open>Skbuff\<close>: \<^verbatim>\<open>skb_header_pointer\<close> and \<^verbatim>\<open>skb_copy_bits\<close> (\<^verbatim>\<open>net/core/skbuff.c\<close>, \<^verbatim>\<open>include/linux/skbuff.h\<close>) on the
    linear area, the page fragments and the fragment list. For every well-formed buffer a read is the
    slice of the packet contents it asks for, or fails.
  \<^item> \<^verbatim>\<open>Bpf_Filter\<close>: the checker \<^verbatim>\<open>sk_chk_filter\<close> with \<^verbatim>\<open>check_load_and_stores\<close> and the interpreter \<^verbatim>\<open>sk_run_filter\<close>
    (\<^verbatim>\<open>net/core/filter.c\<close>), and \<^verbatim>\<open>reciprocal_value\<close>, \<^verbatim>\<open>reciprocal_divide\<close> (\<^verbatim>\<open>lib/reciprocal_div.c\<close>). A checked
    program never leaves its bounds and reads no scratch word it did not write. The interpreter ends, since
    jumps go forward; without netlink attribute instructions it returns exactly when no shift that it
    executes is by 32 bits or more. The range in which
    division through the reciprocal is exact is proved, and so are the cases where it is not. The
    netlink attribute instructions can read outside the packet, which two theorems show.
  \<^item> \<^verbatim>\<open>Capability\<close>: capability sets as two words, securebits, user namespaces (\<^verbatim>\<open>include/linux/capability.h\<close>,
    \<^verbatim>\<open>securebits.h\<close>). The word operations implement set operations: locale \<^verbatim>\<open>cap_algebra\<close>.
  \<^item> \<^verbatim>\<open>Cred_Groups\<close>: \<^verbatim>\<open>kernel/groups.c\<close>. Groups in blocks of pages, the shell sort \<^verbatim>\<open>groups_sort\<close>, the binary search,
    \<^verbatim>\<open>setgroups\<close> and \<^verbatim>\<open>getgroups\<close>. The sort sorts, and membership is membership in the list that was set (locale
    \<^verbatim>\<open>gid_set\<close>).
  \<^item> \<^verbatim>\<open>Posix_Acl\<close>: \<^verbatim>\<open>fs/posix_acl.c\<close> and \<^verbatim>\<open>fs/xattr_acl.c\<close>. \<^verbatim>\<open>posix_acl_valid\<close> accepts exactly the lists with the
    POSIX.1e shape, \<^verbatim>\<open>posix_acl_permission\<close> computes the POSIX.1e access decision, the functions for create and chmod
    keep validity (locale \<^verbatim>\<open>acl_update\<close>) and agree with the mode, and the attribute encoding round-trips.
  \<^item> \<^verbatim>\<open>Commoncap\<close>: \<^verbatim>\<open>security/commoncap.c\<close>, the capability checks of \<^verbatim>\<open>kernel/capability.c\<close>, the set-id calls of
    \<^verbatim>\<open>kernel/sys.c\<close> and \<^verbatim>\<open>prepare_binprm\<close> of \<^verbatim>\<open>fs/exec.c\<close>. The calls of a task are the steps of a transition system:
    effective stays within permitted, locked securebits stay, an exec gains no more than the bounding and
    inheritable sets allow, and a task that gives up root by \<^verbatim>\<open>setuid\<close>, with the securebits that keep
    capabilities clear, does not regain it short of an exec.
  \<^item> \<^verbatim>\<open>Vfs_Permission\<close>: \<^verbatim>\<open>acl_permission_check\<close>, \<^verbatim>\<open>generic_permission\<close> and \<^verbatim>\<open>inode_permission\<close> of \<^verbatim>\<open>fs/namei.c\<close> with
    \<^verbatim>\<open>ext4_check_acl\<close>. Where mode and list agree, the decision is the one of the list, or of the mode classes when the
    group class has no bits, or of an override capability.
  \<^item> \<^verbatim>\<open>Locking\<close>: \<^verbatim>\<open>lib/rwsem-spinlock.c\<close> and \<^verbatim>\<open>kernel/semaphore.c\<close>. Exclusion of writers, no waiting while the
    semaphore is free, first come first served; conservation of the units of a counting semaphore.
  \<^item> \<^verbatim>\<open>File_Lock\<close>, \<^verbatim>\<open>Posix_Lock\<close>: the lock structures, the lists of \<^verbatim>\<open>fs/locks.c\<close> and \<^verbatim>\<open>__posix_lock_file\<close> on a store of
    lock structures. The whole function, with its loop over the locks of the owner, refines an
    assignment to a map from bytes to lock types; conflicts are found exactly; without one it fails only for
    lack of memory it needs or when there is nothing to unlock, and a failure changes no byte.
  \<^item> \<^verbatim>\<open>Flock_Lease\<close>, \<^verbatim>\<open>Lock_System\<close>: \<^verbatim>\<open>flock_lock_file\<close>, leases and closing, and the transition system of all lock
    operations. In every reachable state the chains are well-formed, locks of different owners exclude
    each other, and a waiting request is registered at a lock that still blocks it, so that no wake-up is
    lost. \<^verbatim>\<open>posix_locks_deadlock\<close> finds exactly the cycles within its bound of ten steps
    (\<^verbatim>\<open>MAX_DEADLK_ITERATIONS\<close>); a longer ring is missed, by an example.
  \<^item> \<^verbatim>\<open>Lock_Syscalls\<close>: \<^verbatim>\<open>fcntl\<close> in both widths, \<^verbatim>\<open>flock\<close>, mandatory locks and the checks for the NFS server. The
    64-bit conversions are exact over all inputs, and \<^verbatim>\<open>F_GETLK\<close> predicts \<^verbatim>\<open>F_SETLK\<close>. The 32-bit conversion truncates.
  \<^item> \<^verbatim>\<open>Io_Resource\<close>, \<^verbatim>\<open>Resource_Tree\<close>: the resource trees of \<^verbatim>\<open>kernel/resource.c\<close>. From a bare root the
    operations, on the root or deeper, lead to trees of nested or disjoint ranges; not included are growing
    a resource in place, sleeping for a muxed region and adjusting to an empty range. Requests, insertions and region requests succeed exactly when the
    tree allows it (locale \<^verbatim>\<open>tree_insertion\<close>), an allocation takes the lowest range that fits, and
    reserving around other resources ends. Examples show where address arithmetic wraps and where waiting
    for a muxed region goes wrong.
  \<^item> \<^verbatim>\<open>Spec2Isabelle\<close>: what giving up root means for the files of others, across the system calls, the capability
    module, the permission checks and the leases.

  \<^bold>\<open>Fuel and bounds.\<close> Loops are structural recursion or carry a termination proof. Fuel is used only where
  it is the length of the data; that it suffices is proved.

  \<^bold>\<open>Not modelled.\<close> Of the modelled files: reference counts and RCU (structures are values or stay allocated), audit
  records, \<^verbatim>\<open>/proc\<close> output, the copying of \<^verbatim>\<open>capget\<close> and \<^verbatim>\<open>capset\<close> data, the attribute hooks of the capability module,
  the attaching of filters to sockets, path lookup in non-blocking mode, asynchronous notification
  of lease holders beyond the fact that it happens, and the lock operations that a file system supplies itself.
  Interleavings are at the granularity of the lock-protected sections, since the spinlocks, memory barriers
  and the scheduler are processor specific code under \<^verbatim>\<open>arch\<close> and \<^verbatim>\<open>kernel/sched.c\<close>. The rest of the kernel (drivers,
  architectures, file systems, protocols, memory management, block layer, sound) is listed in the
  manifest with the reasons: it is tied to hardware, raw memory or protocols of the outside.
\<close>

section \<open>Giving up privileges, and what it means for files\<close>

lemma unprivileged_not_capable:
  assumes "unprivileged u c" "u_ns (cr_user c) = Init_user_ns"
  shows "\<not> capable c CAP_LEASE"
proof -
  have "CAP_LEASE \<noteq> CAP_NET_RAW" "CAP_LEASE \<noteq> CAP_NET_ADMIN" by (simp_all add: CAP_LEASE_def cap_numbers)
  from nsown_capable_iff [OF this, of c] show ?thesis
    using assms by (simp add: nsown_capable_def capable_def unprivileged_def not_raised_clear)
qed

lemma unprivileged_setlease:
  assumes "unprivileged u c" "u_ns (cr_user c) = Init_user_ns" "i_uid (i_ids inode) \<noteq> u"
  shows "generic_setlease c inode ino filp arg lease tgid jiffies writes dentries inodes enabled st = (st, Inl EACCES)"
  using unprivileged_not_capable [OF assms(1,2)] assms(1,3)
  by (auto simp: generic_setlease_def unprivileged_def uids_def)

text \<open>
  C3: Let a task with \<^verbatim>\<open>CAP_SETUID\<close> in its namespace and root among its user ids, and with neither
  \<^verbatim>\<open>SECURE_KEEP_CAPS\<close> nor \<^verbatim>\<open>SECURE_NO_SETUID_FIXUP\<close> set, call \<^verbatim>\<open>setuid\<close> for a user other than root.
  Whatever id and capability calls it makes afterwards, short of executing a program, on a file whose
  mode bits agree with its valid ACL it gets exactly the accesses of \<^const>\<open>file_grants\<close>: those of the
  ACL if the group class of the mode has bits or the ACL has only base entries, and otherwise those of
  the three mode classes. No capability overrides this, and the task cannot set a lease on a file of
  another user. Task and file are in the initial user namespace.
\<close>

theorem dropped_task_bound_by_acl:
  assumes "sys_setuid env c u = Inr c'" "u \<noteq> 0" "nsown_capable c CAP_SETUID"
    and "0 \<in> {cr_uid c, cr_euid c, cr_suid c}"
    and "\<not> issecure c SECURE_KEEP_CAPS" "\<not> issecure c SECURE_NO_SETUID_FIXUP"
    and steps: "id_step\<^sup>*\<^sup>* c' task"
    and acl: "posix_acl_valid acl = Inr ()" "posix_acl_equiv_mode acl (i_mode inode) = Inr (i_mode inode, ne)"
    and ns: "u_ns (cr_user task) = Init_user_ns" "i_userns inode = Init_user_ns"
    and fs: "i_posixacl inode" "i_check_acl inode = Some (ext4_check_acl (Inr (Some acl)) task (i_ids inode))"
  shows "generic_permission task inode msk = verdict (file_grants task inode acl (rwx msk)) \<and>
    (i_mode inode AND S_IRWXG \<noteq> 0 \<or> \<not> ne \<longrightarrow>
       generic_permission task inode msk = verdict (acl_grants task (i_ids inode) acl (rwx msk))) \<and>
    (i_uid (i_ids inode) \<noteq> u \<longrightarrow>
       generic_setlease task inode ino filp arg lease tgid jiffies writes dentries inodes enabled st = (st, Inl EACCES))"
proof -
  have un: "unprivileged u task" using unprivileged_steps [OF steps setuid_drops [OF assms(1-6)]] .
  have nsi: "u_ns (cr_user task) = i_userns inode" using ns by simp
  note spec = generic_permission_spec [OF file_check_spec [OF acl nsi fs, of msk]]
    generic_permission_spec [OF permission_check_spec [OF acl nsi fs, of msk]]
  show ?thesis
    using spec unprivileged_no_override [OF un nsi, of msk] unprivileged_setlease [OF un ns(1)] by auto
qed

theorem dropped_task_bound_by_acl_witness:
  "generic_permission user_cred (example_inode user_cred 0x1A0 example_acl) 4 = Inr () \<and>
   generic_permission user_cred (example_inode user_cred 0x1A0 example_acl) 2 = Inl EACCES"
proof -
  let ?i = "example_inode user_cred 0x1A0 example_acl"
  have eq: "posix_acl_equiv_mode example_acl 0x1A0 = Inr (0x1A0, True)"
    by (simp add: posix_acl_equiv_mode_def example_acl_def S_IRWXO_def S_IRWXG_def S_IRWXUGO_def S_IRWXU_def)
  have "generic_permission user_cred ?i msk = verdict (acl_grants user_cred (i_ids ?i) example_acl (rwx msk))" for msk
    by (rule dropped_task_bound_by_acl [OF setuid_from_init _ init_nsown _ _ _ rtranclp.rtrancl_refl example_acl_valid, THEN conjunct2, THEN conjunct1, rule_format])
      (use eq in \<open>simp_all add: example_inode_def user_cred_ns S_IRWXG_def init_cred_def issecure_def\<close>)
  moreover have "acl_grants user_cred (i_ids ?i) example_acl (rwx 4)" "\<not> acl_grants user_cred (i_ids ?i) example_acl (rwx 2)"
    by (simp_all add: acl_grants_def example_acl_def example_inode_def user_match_def within_mask_def grants_def
        rwx_def may_defs user_cred_def)
  ultimately show ?thesis by (simp add: verdict_def)
qed

end
